(* ===== verification/TF_Prelude.thy ===== *)
theory TF_Prelude
  imports Main "HOL-Library.Word"
begin

text \<open>
  Shared vocabulary of the development: the fixed-width integer types of the C++ sources, byte
  strings, the collections of rewrite rules the component theories fill, and the generic facts on
  lists, options and words that several components use.

  Unsigned integers (\<^verbatim>\<open>std::uint8_t\<close> to \<^verbatim>\<open>std::uint64_t\<close>) are words of that width.
  A \<^verbatim>\<open>std::int64_t\<close> that is only stored, copied, encoded or compared (every timestamp) is a
  64-bit word read through \<open>sint\<close>; a cast between it and \<^verbatim>\<open>std::uint64_t\<close> is then the
  identity, as it is in C++20.  A \<^verbatim>\<open>std::size_t\<close> that counts elements held in memory is a
  natural number.
\<close>

unbundle bit_operations_syntax

type_synonym u8 = "8 word"
type_synonym u16 = "16 word"
type_synonym u32 = "32 word"
type_synonym u64 = "64 word"
type_synonym i64 = "64 word"
type_synonym bytes = "u8 list"

named_theorems layout \<open>sizes and positions of the fields of the on-disk format\<close>
named_theorems codec \<open>what a decoder returns on an encoded header\<close>
named_theorems stream \<open>behaviour of the file streams\<close>
named_theorems qstate \<open>effect of a queue operation on each field of the queue\<close>

section \<open>Lists\<close>

lemma take_eq_imp_nth: "take n xs = take n ys \<Longrightarrow> i < n \<Longrightarrow> i < length xs \<Longrightarrow> i < length ys \<Longrightarrow> xs ! i = ys ! i"
  by (metis nth_take)

lemma take_update_beyond [simp]: "n \<le> i \<Longrightarrow> take n (xs[i := v]) = take n xs"
  by (simp add: take_update_swap list_update_beyond)

lemma nth_eq_take_drop_eqI:
  assumes "length xs = length ys" and "\<And>i. i < n \<Longrightarrow> off + i < length xs \<Longrightarrow> xs ! (off + i) = ys ! (off + i)"
  shows "take n (drop off xs) = take n (drop off ys)"
  using assms by (intro nth_equalityI) auto

lemma distinct_snoc: "distinct (xs @ [x]) \<longleftrightarrow> distinct xs \<and> x \<notin> set xs"
  by auto

section \<open>Words\<close>

lemma unat_of_nat_less: "n < 2 ^ LENGTH('a::len) \<Longrightarrow> unat (of_nat n :: 'a word) = n"
  by (simp add: unat_of_nat take_bit_nat_eq_self)

lemma unat_of_nat_u64: "n < 2 ^ 64 \<Longrightarrow> unat (of_nat n :: u64) = n"
  by (rule unat_of_nat_less) simp

lemma unat_bound: "unat (w::'a::len word) < 2 ^ LENGTH('a)"
  by (rule unsigned_less)

lemma unat_add_no_wrap: "unat (a::'a::len word) + unat b < 2 ^ LENGTH('a) \<Longrightarrow> unat (a + b) = unat a + unat b"
  by (simp add: unat_word_ariths)

lemma unat_sub_no_wrap: "b \<le> a \<Longrightarrow> unat (a - b) = unat a - unat (b::'a::len word)"
  by (rule unat_sub)

lemma xor_right_cancel [simp]: "(a XOR c = b XOR c) \<longleftrightarrow> a = (b::'a::len word)"
proof
  assume "a XOR c = b XOR c"
  then have "(a XOR c) XOR c = (b XOR c) XOR c" by simp
  then show "a = b" by (simp add: xor.assoc)
qed simp

lemma xor_left_cancel [simp]: "(c XOR a = c XOR b) \<longleftrightarrow> a = (b::'a::len word)"
  by (simp add: xor.commute [of c])

lemma ucast_u8_u32_inj: "(ucast (b::u8) :: u32) = ucast c \<Longrightarrow> b = c"
  by (drule arg_cong [where f = "ucast :: u32 \<Rightarrow> u8"]) (simp add: ucast_up_ucast_id is_up)

lemma ucast_u8_u64_inj: "(ucast (b::u8) :: u64) = ucast c \<Longrightarrow> b = c"
  by (drule arg_cong [where f = "ucast :: u64 \<Rightarrow> u8"]) (simp add: ucast_up_ucast_id is_up)

lemma unat_ucast_u32_u64 [simp]: "unat (ucast (w::u32) :: u64) = unat w"
proof -
  have "unat w < 2 ^ 64" using unat_bound [of w] by simp
  then show ?thesis by (simp add: unsigned_ucast_eq take_bit_nat_eq_self)
qed

lemma and_0xFF: "w AND 0xFF = take_bit 8 (w::'a::len word)"
  by (simp add: take_bit_eq_mask mask_eq_exp_minus_1)

lemma word_Suc_ne_zero: "unat (w::'a::len word) + 1 < 2 ^ LENGTH('a) \<Longrightarrow> unat (w + 1) = unat w + 1"
  by (metis unat_1 unat_add_no_wrap)

end
