(* ===== verification/TF_Queue.thy ===== *)
theory TF_Queue
  imports TF_Prelude
begin

text \<open>
  \<^verbatim>\<open>include/traceforge/concurrency/bounded_queue.hpp\<close>: the fixed-capacity FIFO between the
  gRPC callbacks and the consumer thread.  Every member function holds the mutex from its first to
  its last access, so each is one atomic transition; \<open>wait_pop\<close> is a transition that is enabled
  only when the condition variable's predicate holds (\<open>None\<close>: the caller keeps waiting).

  The locale \<open>bounded_fifo\<close> is the contract the sink relies on.  \<open>qrun\<close> runs any interleaving of
  operations of any number of threads.
\<close>

section \<open>The queue\<close>

datatype queue_push_result = PushAccepted | PushFull | PushClosed

record bounded_queue_stats =
  qs_capacity :: nat
  qs_current_size :: nat
  qs_high_watermark :: nat
  qs_accepted_items :: u64
  qs_rejected_items :: u64
  qs_closed :: bool

record 'a bounded_queue =
  q_capacity :: nat
  q_items :: "'a list"
  q_high_watermark :: nat
  q_accepted :: u64
  q_rejected :: u64
  q_closed :: bool

definition new_queue :: "nat \<Rightarrow> string + 'a bounded_queue" where
  "new_queue capacity =
     (if capacity = 0 then Inl ''queue capacity must be positive''
      else Inr \<lparr>q_capacity = capacity, q_items = [], q_high_watermark = 0, q_accepted = 0,
             q_rejected = 0, q_closed = False\<rparr>)"

definition try_push :: "'a \<Rightarrow> 'a bounded_queue \<Rightarrow> queue_push_result \<times> 'a bounded_queue" where
  "try_push item q =
     (if q_closed q then (PushClosed, q\<lparr>q_rejected := q_rejected q + 1\<rparr>)
      else if length (q_items q) = q_capacity q then (PushFull, q\<lparr>q_rejected := q_rejected q + 1\<rparr>)
      else let q = q\<lparr>q_items := q_items q @ [item], q_accepted := q_accepted q + 1\<rparr>;
               q = (if length (q_items q) > q_high_watermark q
                    then q\<lparr>q_high_watermark := length (q_items q)\<rparr> else q)
           in (PushAccepted, q))"

definition wait_pop :: "'a bounded_queue \<Rightarrow> ('a option \<times> 'a bounded_queue) option" where
  "wait_pop q =
     (if \<not> (q_closed q \<or> q_items q \<noteq> []) then None
      else case q_items q of
             [] \<Rightarrow> Some (None, q)
           | item # rest \<Rightarrow> Some (Some item, q\<lparr>q_items := rest\<rparr>))"

definition close :: "'a bounded_queue \<Rightarrow> 'a bounded_queue" where
  "close q = q\<lparr>q_closed := True\<rparr>"

definition queue_stats :: "'a bounded_queue \<Rightarrow> bounded_queue_stats" where
  "queue_stats q = \<lparr>qs_capacity = q_capacity q, qs_current_size = length (q_items q),
     qs_high_watermark = q_high_watermark q, qs_accepted_items = q_accepted q,
     qs_rejected_items = q_rejected q, qs_closed = q_closed q\<rparr>"

text \<open>Operations of all threads in the order in which they take the mutex, and a run over them:
  what was accepted, what was popped, and the resulting queue.\<close>

datatype 'a queue_op = OpPush 'a | OpPop | OpClose

fun qrun :: "('a \<Rightarrow> 'q \<Rightarrow> queue_push_result \<times> 'q) \<Rightarrow> ('q \<Rightarrow> ('a option \<times> 'q) option) \<Rightarrow> ('q \<Rightarrow> 'q) \<Rightarrow>
    'a queue_op list \<Rightarrow> 'q \<Rightarrow> 'a list \<times> 'a list \<times> 'q" where
  "qrun push pop shut [] q = ([], [], q)"
| "qrun push pop shut (OpPush x # ops) q =
     (case push x q of (r, q') \<Rightarrow> case qrun push pop shut ops q' of (acc, out, q'') \<Rightarrow>
        (if r = PushAccepted then x # acc else acc, out, q''))"
| "qrun push pop shut (OpPop # ops) q =
     (case pop q of None \<Rightarrow> qrun push pop shut ops q
      | Some (None, q') \<Rightarrow> qrun push pop shut ops q'
      | Some (Some x, q') \<Rightarrow> case qrun push pop shut ops q' of (acc, out, q'') \<Rightarrow> (acc, x # out, q''))"
| "qrun push pop shut (OpClose # ops) q = qrun push pop shut ops (shut q)"

section \<open>The contract of a bounded FIFO\<close>

locale bounded_fifo =
  fixes push :: "'a \<Rightarrow> 'q \<Rightarrow> queue_push_result \<times> 'q"
    and pop :: "'q \<Rightarrow> ('a option \<times> 'q) option"
    and shut :: "'q \<Rightarrow> 'q"
    and contents :: "'q \<Rightarrow> 'a list"
    and is_shut :: "'q \<Rightarrow> bool"
    and cap :: "'q \<Rightarrow> nat"
    and good :: "'q \<Rightarrow> bool"
  assumes push_good: "good q \<Longrightarrow> good (snd (push x q))"
    and pop_good: "good q \<Longrightarrow> pop q = Some (r, q') \<Longrightarrow> good q'"
    and shut_good: "good q \<Longrightarrow> good (shut q)"
    and push_accepted: "good q \<Longrightarrow>
      fst (push x q) = PushAccepted \<longleftrightarrow> \<not> is_shut q \<and> length (contents q) < cap q"
    and push_contents: "contents (snd (push x q)) =
      (if fst (push x q) = PushAccepted then contents q @ [x] else contents q)"
    and push_frame: "is_shut (snd (push x q)) = is_shut q \<and> cap (snd (push x q)) = cap q"
    and pop_some: "pop q = Some (Some x, q') \<Longrightarrow> contents q = x # contents q'"
    and pop_none: "pop q = Some (None, q') \<Longrightarrow> contents q = [] \<and> is_shut q \<and> q' = q"
    and pop_blocked: "pop q = None \<longleftrightarrow> contents q = [] \<and> \<not> is_shut q"
    and pop_frame: "pop q = Some (r, q') \<Longrightarrow> is_shut q' = is_shut q \<and> cap q' = cap q"
    and shut_frame: "contents (shut q) = contents q \<and> is_shut (shut q) \<and> cap (shut q) = cap q"
    and good_bound: "good q \<Longrightarrow> length (contents q) \<le> cap q"
begin

text \<open>Nothing is lost, duplicated or reordered, whatever the interleaving.\<close>

lemma run_fifo: "qrun push pop shut ops q = (acc, out, q') \<Longrightarrow> contents q @ acc = out @ contents q'"
proof (induction ops arbitrary: q acc out q')
  case Nil
  then show ?case by simp
next
  case (Cons op ops)
  show ?case
  proof (cases op)
    case (OpPush x)
    then show ?thesis using Cons push_contents [of x q] by (fastforce split: prod.splits if_splits)
  next
    case OpPop
    then show ?thesis using Cons pop_some [of q] pop_none [of q]
      by (fastforce split: prod.splits option.splits)
  next
    case OpClose
    then show ?thesis using Cons shut_frame [of q] by fastforce
  qed
qed

lemma run_good: "qrun push pop shut ops q = (acc, out, q') \<Longrightarrow> good q \<Longrightarrow> good q' \<and> cap q' = cap q"
proof (induction ops arbitrary: q acc out q')
  case Nil
  then show ?case by simp
next
  case (Cons op ops)
  show ?case
  proof (cases op)
    case (OpPush x)
    then show ?thesis using Cons push_good [of q x] push_frame [of x q] by (fastforce split: prod.splits)
  next
    case OpPop
    then show ?thesis using Cons pop_good [of q] pop_frame [of q] by (fastforce split: prod.splits option.splits)
  next
    case OpClose
    then show ?thesis using Cons shut_good [of q] shut_frame [of q] by fastforce
  qed
qed

text \<open>Once closed, a queue accepts nothing: what is popped afterwards was in it when it closed.\<close>

lemma run_shut: "qrun push pop shut ops q = (acc, out, q') \<Longrightarrow> good q \<Longrightarrow> is_shut q \<Longrightarrow> acc = [] \<and> is_shut q'"
proof (induction ops arbitrary: q acc out q')
  case Nil
  then show ?case by simp
next
  case (Cons op ops)
  show ?case
  proof (cases op)
    case (OpPush x)
    then show ?thesis using Cons push_good [of q x] push_frame [of x q] push_accepted [of q x]
      by (fastforce split: prod.splits if_splits)
  next
    case OpPop
    then show ?thesis using Cons pop_good [of q] pop_frame [of q] by (fastforce split: prod.splits option.splits)
  next
    case OpClose
    then show ?thesis using Cons shut_good [of q] shut_frame [of q] by fastforce
  qed
qed

end

section \<open>The queue implements the contract\<close>

definition queue_inv :: "'a bounded_queue \<Rightarrow> bool" where
  "queue_inv q \<longleftrightarrow> 0 < q_capacity q \<and> length (q_items q) \<le> q_high_watermark q \<and>
     q_high_watermark q \<le> q_capacity q"

lemmas queue_defs = try_push_def wait_pop_def close_def Let_def

lemma new_queue_Inr:
  "new_queue c = Inr q \<longleftrightarrow> 0 < c \<and> q = \<lparr>q_capacity = c, q_items = [], q_high_watermark = 0,
     q_accepted = 0, q_rejected = 0, q_closed = False\<rparr>"
  by (auto simp: new_queue_def)

lemma new_queue_inv: "new_queue c = Inr q \<Longrightarrow> queue_inv q"
  by (auto simp: new_queue_Inr queue_inv_def)

interpretation bq: bounded_fifo try_push wait_pop close q_items q_closed q_capacity queue_inv
  by unfold_locales (auto simp: queue_defs queue_inv_def split: if_splits list.splits)

section \<open>Counters and high-water mark over a run\<close>

lemma try_push_counts [qstate]:
  "q_accepted (snd (try_push x q)) = (if fst (try_push x q) = PushAccepted then q_accepted q + 1 else q_accepted q)"
  "q_rejected (snd (try_push x q)) = (if fst (try_push x q) = PushAccepted then q_rejected q else q_rejected q + 1)"
  "q_high_watermark (snd (try_push x q)) =
     (if fst (try_push x q) = PushAccepted then max (q_high_watermark q) (length (q_items q) + 1) else q_high_watermark q)"
  by (auto simp: queue_defs)

lemma wait_pop_counts [qstate]:
  "wait_pop q = Some (r, q') \<Longrightarrow>
     q_accepted q' = q_accepted q \<and> q_rejected q' = q_rejected q \<and> q_high_watermark q' = q_high_watermark q"
  by (auto simp: wait_pop_def split: if_splits list.splits)

lemma close_counts [qstate]:
  "q_accepted (close q) = q_accepted q" "q_rejected (close q) = q_rejected q"
  "q_high_watermark (close q) = q_high_watermark q"
  by (simp_all add: close_def)

fun pushes :: "'a queue_op list \<Rightarrow> nat" where
  "pushes [] = 0"
| "pushes (OpPush x # ops) = Suc (pushes ops)"
| "pushes (_ # ops) = pushes ops"

lemma qrun_counts:
  assumes "qrun try_push wait_pop close ops q = (acc, out, q')"
  shows "q_accepted q' = q_accepted q + of_nat (length acc) \<and> length acc \<le> pushes ops \<and>
    q_rejected q' = q_rejected q + of_nat (pushes ops - length acc)"
  using assms
proof (induction ops arbitrary: q acc out q')
  case Nil
  then show ?case by simp
next
  case (Cons op ops)
  show ?case
  proof (cases op)
    case (OpPush x)
    then show ?thesis using Cons try_push_counts(1,2) [of x q]
      by (force simp: Suc_diff_le split: prod.splits if_splits)
  next
    case OpPop
    then show ?thesis using Cons wait_pop_counts [of q]
      by (fastforce split: prod.splits option.splits)
  next
    case OpClose
    then show ?thesis using Cons close_counts [of q] by fastforce
  qed
qed

text \<open>The depth of the queue after every operation of a run.\<close>

fun depths :: "'a queue_op list \<Rightarrow> 'a bounded_queue \<Rightarrow> nat list" where
  "depths [] q = []"
| "depths (op # ops) q =
     (case qrun try_push wait_pop close [op] q of (_, _, q') \<Rightarrow> length (q_items q') # depths ops q')"

lemma qrun_Cons:
  "qrun push pop shut (op # ops) q =
     (case qrun push pop shut [op] q of (a1, o1, q1) \<Rightarrow>
      case qrun push pop shut ops q1 of (a2, o2, q2) \<Rightarrow> (a1 @ a2, o1 @ o2, q2))"
  by (cases op) (auto split: prod.splits option.splits)

lemma high_watermark_step:
  assumes "qrun try_push wait_pop close [op] q = (a, out, q')" and "queue_inv q"
  shows "q_high_watermark q' = max (q_high_watermark q) (length (q_items q'))"
  using assms
proof (cases op)
  case (OpPush x)
  then show ?thesis
    using assms try_push_counts(3) [of x q] bq.push_contents [of x q]
    by (auto simp: queue_inv_def split: prod.splits if_splits)
next
  case OpPop
  then show ?thesis
    using assms by (auto simp: wait_pop_def queue_inv_def max_def split: if_splits list.splits)
next
  case OpClose
  then show ?thesis using assms by (auto simp: queue_inv_def close_def)
qed

lemma high_watermark_run:
  assumes "qrun try_push wait_pop close ops q = (acc, out, q')" and "queue_inv q"
  shows "q_high_watermark q' = foldl max (q_high_watermark q) (depths ops q)"
  using assms
proof (induction ops arbitrary: q acc out q')
  case Nil
  then show ?case by simp
next
  case (Cons op ops)
  obtain a1 o1 q1 where one: "qrun try_push wait_pop close [op] q = (a1, o1, q1)" by (metis prod_cases3)
  obtain a2 o2 q2 where rest: "qrun try_push wait_pop close ops q1 = (a2, o2, q2)" by (metis prod_cases3)
  have "q2 = q'" using Cons.prems(1) one rest by (subst (asm) qrun_Cons) simp
  then have "q_high_watermark q' = foldl max (q_high_watermark q1) (depths ops q1)"
    using Cons.IH [OF rest] bq.run_good [OF one Cons.prems(2)] by simp
  then show ?case using one high_watermark_step [OF one Cons.prems(2)] by simp
qed

lemma foldl_max: "foldl max (a::nat) xs = Max (insert a (set xs))"
proof (induction xs arbitrary: a)
  case (Cons x xs)
  then show ?case by (cases "xs = []") (simp_all add: max.assoc)
qed simp

section \<open>Properties\<close>

text \<open>
  C13: In every interleaving of pushes, pops and closes on a fresh queue, the events popped so far
  followed by the events still queued are exactly the accepted events in acceptance order: nothing
  is lost, duplicated or reordered, and the queue never holds more than its capacity.
\<close>

theorem queue_fifo_bounded:
  assumes "new_queue c = Inr q" and "qrun try_push wait_pop close ops q = (acc, out, q')"
  shows "acc = out @ q_items q' \<and> length (q_items q') \<le> c"
proof -
  have "q_items q @ acc = out @ q_items q'" by (rule bq.run_fifo [OF assms(2)])
  moreover have "queue_inv q' \<and> q_capacity q' = q_capacity q"
    by (rule bq.run_good [OF assms(2) new_queue_inv [OF assms(1)]])
  ultimately show ?thesis using assms(1) bq.good_bound [of q'] by (auto simp: new_queue_Inr)
qed

theorem queue_fifo_bounded_witness:
  "let q = \<lparr>q_capacity = 2, q_items = [], q_high_watermark = 0, q_accepted = 0, q_rejected = 0, q_closed = False\<rparr>;
       r = qrun try_push wait_pop close [OpPush 1, OpPush (2::nat), OpPush 3, OpPop, OpPush 4, OpClose, OpPush 5, OpPop] q
   in fst r = [1, 2, 4] \<and> fst (snd r) = [1, 2] \<and> fst r = fst (snd r) @ q_items (snd (snd r)) \<and>
      length (q_items (snd (snd r))) \<le> 2"
proof -
  let ?q = "\<lparr>q_capacity = 2, q_items = [], q_high_watermark = 0, q_accepted = 0, q_rejected = 0, q_closed = False\<rparr>"
  let ?ops = "[OpPush 1, OpPush (2::nat), OpPush 3, OpPop, OpPush 4, OpClose, OpPush 5, OpPop]"
  have q: "new_queue 2 = Inr ?q" by (simp add: new_queue_def)
  obtain acc out q' where r: "qrun try_push wait_pop close ?ops ?q = (acc, out, q')" by (metis prod_cases3)
  moreover have "fst (qrun try_push wait_pop close ?ops ?q) = [1, 2, 4]"
    and "fst (snd (qrun try_push wait_pop close ?ops ?q)) = [1, 2]"
    by (simp_all add: queue_defs)
  ultimately show ?thesis using queue_fifo_bounded [OF q r] by (simp add: Let_def)
qed

lemma qrun_closed:
  "qrun try_push wait_pop close ops q = (acc, out, q') \<Longrightarrow> q_closed q' = (q_closed q \<or> OpClose \<in> set ops)"
proof (induction ops arbitrary: q acc out q')
  case (Cons op ops)
  show ?case
  proof (cases op)
    case (OpPush x)
    then show ?thesis using Cons bq.push_frame [of x q] by (fastforce split: prod.splits)
  next
    case OpPop
    then show ?thesis using Cons bq.pop_frame [of q] by (fastforce split: prod.splits option.splits)
  next
    case OpClose
    then show ?thesis using Cons bq.shut_frame [of q] by fastforce
  qed
qed simp

text \<open>
  C17: The statistics of the queue are exact in every interleaving: every push is counted once, as
  accepted or as rejected (modulo \<open>2 ^ 64\<close>), the high-water mark is the greatest depth the queue
  ever had, and the queue is reported closed exactly when \<^verbatim>\<open>close\<close> has been called.
\<close>

theorem queue_stats_exact:
  assumes "new_queue c = Inr q" and "qrun try_push wait_pop close ops q = (acc, out, q')"
  shows "qs_accepted_items (queue_stats q') = of_nat (length acc) \<and>
    qs_rejected_items (queue_stats q') = of_nat (pushes ops - length acc) \<and> length acc \<le> pushes ops \<and>
    qs_high_watermark (queue_stats q') = Max (insert 0 (set (depths ops q))) \<and>
    qs_current_size (queue_stats q') = length acc - length out \<and> qs_capacity (queue_stats q') = c \<and>
    (qs_closed (queue_stats q') \<longleftrightarrow> OpClose \<in> set ops)"
proof -
  have q: "q_accepted q = 0" "q_rejected q = 0" "q_high_watermark q = 0" "q_items q = []" "q_capacity q = c" "\<not> q_closed q"
    and inv: "queue_inv q"
    using assms(1) new_queue_inv by (auto simp: new_queue_Inr)
  show ?thesis
    using qrun_counts [OF assms(2)] high_watermark_run [OF assms(2) inv] bq.run_good [OF assms(2) inv]
      bq.run_fifo [OF assms(2)] qrun_closed [OF assms(2)] q
    by (auto simp: queue_stats_def foldl_max)
qed

theorem queue_stats_exact_witness:
  "\<exists>q q'. new_queue 1 = Inr q \<and> qrun try_push wait_pop close [OpPush True, OpPush False, OpPop, OpPop] q = ([True], [True], q') \<and>
     qs_accepted_items (queue_stats q') = 1 \<and> qs_rejected_items (queue_stats q') = 1 \<and> qs_high_watermark (queue_stats q') = 1"
proof -
  let ?q = "\<lparr>q_capacity = 1, q_items = [], q_high_watermark = 0, q_accepted = 0, q_rejected = 0, q_closed = False\<rparr>"
  let ?q' = "\<lparr>q_capacity = 1, q_items = [], q_high_watermark = 1, q_accepted = 1, q_rejected = 1, q_closed = False\<rparr>"
  have q: "new_queue 1 = Inr ?q" by (simp add: new_queue_def)
  have r: "qrun try_push wait_pop close [OpPush True, OpPush False, OpPop, OpPop] ?q = ([True], [True], ?q')"
    by (simp add: queue_defs)
  have d: "depths [OpPush True, OpPush False, OpPop, OpPop] ?q = [1, 1, 0, 0]" by (simp add: queue_defs)
  show ?thesis using q r queue_stats_exact [OF q r] unfolding d
    by (intro exI [of _ ?q] exI [of _ ?q'] conjI) (simp_all del: qrun.simps)
qed

end
