(* ===== verification/TF_Bytes.thy ===== *)
theory TF_Bytes
  imports TF_Prelude
begin

text \<open>
  Little-endian scalars in byte buffers: the two templates at the head of
  \<^verbatim>\<open>src/recording/log.cpp\<close>.  A buffer is a byte list of fixed length; the encoder
  overwrites \<^verbatim>\<open>sizeof(Integer)\<close> bytes from an offset and the decoder reads as many.

  The locale \<open>byte_field\<close> states what the header code relies on (a put is read back, and a put
  elsewhere leaves a field alone); it is interpreted for the three widths the format uses.
\<close>

section \<open>The encoder and the decoder\<close>

fun encode_loop :: "nat \<Rightarrow> nat \<Rightarrow> 'a::len word \<Rightarrow> bytes \<Rightarrow> bytes" where
  "encode_loop 0 pos remaining destination = destination"
| "encode_loop (Suc n) pos remaining destination =
     encode_loop n (Suc pos) (drop_bit 8 remaining)
       (destination[pos := ucast (remaining AND 0xFF)])"

definition encode_little_endian :: "bytes \<Rightarrow> nat \<Rightarrow> 'a::len word \<Rightarrow> bytes" where
  "encode_little_endian destination offset value =
     encode_loop (LENGTH('a) div 8) offset value destination"

definition decode_little_endian :: "bytes \<Rightarrow> nat \<Rightarrow> 'a::len word" where
  "decode_little_endian source offset =
     foldl (\<lambda>value byte. value OR ucast (push_bit (byte * 8) (ucast (source ! (offset + byte)) :: u64)))
       0 [0..<LENGTH('a) div 8]"

section \<open>What they compute\<close>

lemma length_encode_loop [simp]: "length (encode_loop n pos w d) = length d"
  by (induction n pos w d rule: encode_loop.induct) auto

lemma nth_encode_loop_before: "i < pos \<Longrightarrow> encode_loop n pos w d ! i = d ! i"
  by (induction n pos w d rule: encode_loop.induct) auto

lemma nth_encode_loop_after: "pos + n \<le> i \<Longrightarrow> encode_loop n pos w d ! i = d ! i"
  by (induction n pos w d rule: encode_loop.induct) auto

lemma nth_encode_loop_at:
  "k < n \<Longrightarrow> pos + n \<le> length d \<Longrightarrow> encode_loop n pos w d ! (pos + k) = ucast (drop_bit (8 * k) w AND 0xFF)"
proof (induction n pos w d arbitrary: k rule: encode_loop.induct)
  case (1 pos remaining destination)
  then show ?case by simp
next
  case (2 n pos w d)
  show ?case
  proof (cases k)
    case 0
    with 2 show ?thesis by (simp add: nth_encode_loop_before)
  next
    case (Suc j)
    with "2.prems" have "encode_loop n (Suc pos) (drop_bit 8 w) (d[pos := ucast (w AND 0xFF)]) ! (Suc pos + j) =
        ucast (drop_bit (8 * j) (drop_bit 8 w) AND 0xFF)"
      by (intro "2.IH") auto
    with Suc show ?thesis by (simp add: ac_simps)
  qed
qed

lemma bit_foldl_or:
  "bit (foldl (\<lambda>value byte. value OR f byte) a xs) k \<longleftrightarrow> bit (a::'a::len word) k \<or> (\<exists>x \<in> set xs. bit (f x) k)"
  by (induction xs arbitrary: a) (auto simp: bit_or_iff)

lemma bit_decode_little_endian:
  assumes "LENGTH('a) \<le> 64" and "k < LENGTH('a::len)" and "8 dvd LENGTH('a)"
  shows "bit (decode_little_endian source offset :: 'a word) k \<longleftrightarrow> bit (source ! (offset + k div 8)) (k mod 8)"
proof -
  have byte: "bit (ucast (push_bit (b * 8) (ucast (source ! (offset + b)) :: u64)) :: 'a word) k \<longleftrightarrow>
      b = k div 8 \<and> bit (source ! (offset + k div 8)) (k mod 8)" for b
  proof -
    have "bit (ucast (push_bit (b * 8) (ucast (source ! (offset + b)) :: u64)) :: 'a word) k \<longleftrightarrow>
        b * 8 \<le> k \<and> k - b * 8 < 8 \<and> bit (source ! (offset + b)) (k - b * 8)"
      using assms(1,2) bit_imp_le_length [of "source ! (offset + b)" "k - b * 8"]
      by (auto simp: bit_ucast_iff bit_push_bit_iff)
    moreover have "b * 8 \<le> k \<and> k - b * 8 < 8 \<longleftrightarrow> b = k div 8" by arith
    moreover have "k - k div 8 * 8 = k mod 8" by (simp add: modulo_nat_def)
    ultimately show ?thesis by auto
  qed
  have "k div 8 < LENGTH('a) div 8" using assms(2,3) by (metis dvd_div_mult_self less_mult_imp_div_less)
  then show ?thesis
    unfolding decode_little_endian_def by (simp only: bit_foldl_or) (auto simp: byte)
qed

section \<open>Fields of a buffer\<close>

locale byte_field =
  fixes put :: "bytes \<Rightarrow> nat \<Rightarrow> 'v \<Rightarrow> bytes" and get :: "bytes \<Rightarrow> nat \<Rightarrow> 'v" and width :: nat
  assumes length_put: "length (put d off v) = length d"
    and nth_put_other: "i < off \<or> off + width \<le> i \<Longrightarrow> put d off v ! i = d ! i"
    and get_put: "off + width \<le> length d \<Longrightarrow> get (put d off v) off = v"
    and get_cong: "(\<And>i. i < width \<Longrightarrow> d ! (off + i) = e ! (off + i)) \<Longrightarrow> get d off = get e off"
begin

lemma get_disjoint_write:
  assumes "\<And>i. i < p \<or> p + n \<le> i \<Longrightarrow> e ! i = d ! i" and "off + width \<le> p \<or> p + n \<le> off"
  shows "get e off = get d off"
  using assms by (intro get_cong) auto

lemma get_take: "off + width \<le> n \<Longrightarrow> get (take n d) off = get d off"
  by (intro get_cong) auto

lemma get_append: "off + width \<le> length d \<Longrightarrow> get (d @ e) off = get d off"
  by (intro get_cong) (auto simp: nth_append)

lemma get_update_other: "i < off \<or> off + width \<le> i \<Longrightarrow> get (d[i := b]) off = get d off"
  by (intro get_cong) (auto simp: nth_list_update)

lemma take_put_beyond: "n \<le> off \<Longrightarrow> take n (put d off v) = take n d"
  by (intro nth_equalityI) (auto simp: length_put nth_put_other)

end

lemma decode_encode_little_endian:
  assumes "8 dvd LENGTH('a::len)" and "LENGTH('a) \<le> 64" and "offset + LENGTH('a) div 8 \<le> length destination"
  shows "decode_little_endian (encode_little_endian destination offset (v :: 'a word)) offset = v"
proof (rule bit_word_eqI)
  fix k
  assume k: "k < LENGTH('a)"
  have "k div 8 < LENGTH('a) div 8" using k assms(1) by (metis dvd_div_mult_self less_mult_imp_div_less)
  then have nth: "encode_little_endian destination offset v ! (offset + k div 8) =
      ucast (drop_bit (8 * (k div 8)) v AND 0xFF)"
    unfolding encode_little_endian_def by (rule nth_encode_loop_at) (rule assms(3))
  have "k mod 8 < 8" by simp
  moreover have "8 * (k div 8) + k mod 8 = k" by simp
  ultimately have "bit (ucast (drop_bit (8 * (k div 8)) v AND 0xFF) :: u8) (k mod 8) = bit v k"
    using k by (simp add: bit_ucast_iff and_0xFF bit_take_bit_iff bit_drop_bit_eq)
  with nth show "bit (decode_little_endian (encode_little_endian destination offset v) offset :: 'a word) k = bit v k"
    by (simp add: bit_decode_little_endian [OF assms(2) k assms(1)])
qed

lemma byte_field_little_endian:
  assumes "8 dvd LENGTH('a::len)" and "LENGTH('a) \<le> 64"
  shows "byte_field encode_little_endian (decode_little_endian :: bytes \<Rightarrow> nat \<Rightarrow> 'a word) (LENGTH('a) div 8)"
proof unfold_locales
  show "length (encode_little_endian d off v) = length d" for d off and v :: "'a word"
    by (simp add: encode_little_endian_def)
  show "encode_little_endian d off v ! i = d ! i" if "i < off \<or> off + LENGTH('a) div 8 \<le> i"
    for i off d and v :: "'a word"
    using that by (auto simp: encode_little_endian_def nth_encode_loop_before nth_encode_loop_after)
  show "decode_little_endian (encode_little_endian d off v) off = v" if "off + LENGTH('a) div 8 \<le> length d"
    for off d and v :: "'a word"
    by (rule decode_encode_little_endian [OF assms that])
  show "decode_little_endian d off = (decode_little_endian e off :: 'a word)"
    if "\<And>i. i < LENGTH('a) div 8 \<Longrightarrow> d ! (off + i) = e ! (off + i)" for d off e
    unfolding decode_little_endian_def by (rule foldl_cong) (auto simp: that)
qed

interpretation le16: byte_field encode_little_endian "decode_little_endian :: bytes \<Rightarrow> nat \<Rightarrow> u16" 2
  using byte_field_little_endian [where 'a = 16] by simp

interpretation le32: byte_field encode_little_endian "decode_little_endian :: bytes \<Rightarrow> nat \<Rightarrow> u32" 4
  using byte_field_little_endian [where 'a = 32] by simp

interpretation le64: byte_field encode_little_endian "decode_little_endian :: bytes \<Rightarrow> nat \<Rightarrow> u64" 8
  using byte_field_little_endian [where 'a = 64] by simp

end
