(* ===== verification/TF_Checksum.thy ===== *)
theory TF_Checksum
  imports TF_Bytes
begin

text \<open>
  The two byte-wise digests of the program: CRC32C (\<^verbatim>\<open>crc32c\<close> of
  \<^verbatim>\<open>src/recording/log.cpp\<close>) and the FNV-1a stream hash (\<^verbatim>\<open>hash_byte\<close> of
  \<^verbatim>\<open>src/replay/replay.cpp\<close> and of \<^verbatim>\<open>src/generator/workload_generator.cpp\<close>).

  Both fold a step over the bytes that is injective in the state and in the byte.  The locale
  \<open>byte_fold\<close> derives from that alone that changing one byte always changes the digest.
\<close>

section \<open>Folding an injective step\<close>

locale byte_fold =
  fixes bstep :: "'s \<Rightarrow> u8 \<Rightarrow> 's"
  assumes step_inj_state: "bstep s b = bstep t b \<Longrightarrow> s = t"
    and step_inj_byte: "bstep s b = bstep s c \<Longrightarrow> b = c"
begin

lemma fold_inj_state: "foldl bstep s bs = foldl bstep t bs \<Longrightarrow> s = t"
  by (induction bs arbitrary: s t) (auto dest: step_inj_state)

lemma fold_one_byte:
  assumes "i < length bs" and "b \<noteq> bs ! i"
  shows "foldl bstep s (bs[i := b]) \<noteq> foldl bstep s bs"
proof
  assume eq: "foldl bstep s (bs[i := b]) = foldl bstep s bs"
  let ?t = "foldl bstep s (take i bs)"
  have "foldl bstep (bstep ?t b) (drop (Suc i) bs) = foldl bstep (bstep ?t (bs ! i)) (drop (Suc i) bs)"
    using eq assms(1) by (simp add: upd_conv_take_nth_drop id_take_nth_drop [of i bs, THEN arg_cong [of _ _ "foldl bstep s"]])
  then have "bstep ?t b = bstep ?t (bs ! i)" by (rule fold_inj_state)
  with assms(2) show False by (auto dest: step_inj_byte)
qed

end

section \<open>CRC32C\<close>

definition kReflectedCastagnoliPolynomial :: u32 where
  "kReflectedCastagnoliPolynomial = 0x82F63B78"

definition crc_bit :: "u32 \<Rightarrow> u32" where
  "crc_bit checksum =
     (let mask = 0 - (checksum AND 1)
      in drop_bit 1 checksum XOR (kReflectedCastagnoliPolynomial AND mask))"

definition crc_byte :: "u32 \<Rightarrow> u8 \<Rightarrow> u32" where
  "crc_byte checksum byte = (crc_bit ^^ 8) (checksum XOR ucast byte)"

definition crc32c :: "bytes \<Rightarrow> u32" where
  "crc32c bs = NOT (foldl crc_byte 0xFFFFFFFF bs)"

lemma crc_bit_if: "crc_bit s = (if bit s 0 then drop_bit 1 s XOR kReflectedCastagnoliPolynomial else drop_bit 1 s)"
proof (cases "bit s 0")
  case True
  then have "s AND 1 = 1" by (simp add: and_one_eq bit_0 odd_iff_mod_2_eq_one)
  with True show ?thesis by (simp add: crc_bit_def Let_def)
next
  case False
  then have "s AND 1 = 0" by (simp add: and_one_eq bit_0 even_iff_mod_2_eq_zero)
  with False show ?thesis by (simp add: crc_bit_def Let_def)
qed

lemma bit_polynomial_31: "bit kReflectedCastagnoliPolynomial 31"
  by (simp add: kReflectedCastagnoliPolynomial_def)

lemma crc_bit_inj: "crc_bit s = crc_bit t \<Longrightarrow> s = t"
proof -
  assume eq: "crc_bit s = crc_bit t"
  have top: "bit (crc_bit w) 31 \<longleftrightarrow> bit w 0" for w
    using bit_imp_le_length [of w 32] bit_polynomial_31
    by (auto simp: crc_bit_if bit_xor_iff bit_drop_bit_eq)
  from eq have b0: "bit s 0 \<longleftrightarrow> bit t 0" using top by metis
  with eq have "drop_bit 1 s = drop_bit 1 t"
    by (auto simp: crc_bit_if split: if_splits)
  then have "bit s (Suc n) = bit t (Suc n)" for n
    by (metis bit_drop_bit_eq comp_apply plus_1_eq_Suc)
  with b0 show "s = t" by (intro bit_word_eqI) (metis not0_implies_Suc)
qed

lemma crc_bits_inj: "(crc_bit ^^ n) s = (crc_bit ^^ n) t \<Longrightarrow> s = t"
  by (induction n) (auto dest: crc_bit_inj)

interpretation crc: byte_fold crc_byte
proof unfold_locales
  show "s = t" if "crc_byte s b = crc_byte t b" for s t b
    using crc_bits_inj [OF that [unfolded crc_byte_def]] by simp
  show "b = c" if "crc_byte s b = crc_byte s c" for s b c
    using crc_bits_inj [OF that [unfolded crc_byte_def]] by (simp add: ucast_u8_u32_inj)
qed

lemma crc32c_one_byte: "i < length bs \<Longrightarrow> b \<noteq> bs ! i \<Longrightarrow> crc32c (bs[i := b]) \<noteq> crc32c bs"
  using crc.fold_one_byte by (simp add: crc32c_def)

section \<open>FNV-1a\<close>

definition kFnvOffsetBasis :: u64 where
  "kFnvOffsetBasis = 14695981039346656037"

definition kFnvPrime :: u64 where
  "kFnvPrime = 1099511628211"

definition hash_byte :: "u64 \<Rightarrow> u8 \<Rightarrow> u64" where
  "hash_byte hash byte = (hash XOR ucast byte) * kFnvPrime"

text \<open>The prime is odd, so multiplication by it is invertible modulo \<open>2 ^ 64\<close>.\<close>

lemma kFnvPrime_inverse: "kFnvPrime * 0xce965057aff6957b = 1"
  by (simp add: kFnvPrime_def)

lemma kFnvPrime_cancel:
  assumes "a * kFnvPrime = b * kFnvPrime"
  shows "a = b"
proof -
  have "a * (kFnvPrime * 0xce965057aff6957b) = b * (kFnvPrime * 0xce965057aff6957b)"
    using assms by (simp only: mult.assoc [symmetric])
  then show ?thesis by (simp only: kFnvPrime_inverse mult_1_right)
qed

interpretation fnv: byte_fold hash_byte
proof unfold_locales
  show "s = t" if "hash_byte s b = hash_byte t b" for s t b
    using kFnvPrime_cancel [OF that [unfolded hash_byte_def]] by simp
  show "b = c" if "hash_byte s b = hash_byte s c" for s b c
    using kFnvPrime_cancel [OF that [unfolded hash_byte_def]] by (simp add: ucast_u8_u64_inj)
qed

end
