(* ===== verification/TF_Format.thy ===== *)
theory TF_Format
  imports TF_Checksum
begin

text \<open>
  The on-disk format: the two fixed-size headers as \<^verbatim>\<open>write_file_header\<close> and \<^verbatim>\<open>append\<close> of
  \<^verbatim>\<open>src/recording/log.cpp\<close> fill them, byte by byte, in a zeroed array.  The lemmas in
  \<open>codec\<close> say what the reader decodes from such a header; \<open>record_header_unique\<close> says that the
  fields the reader checks determine all 36 bytes.
\<close>

section \<open>Headers\<close>

abbreviation kLogFormatVersion :: u16 where "kLogFormatVersion \<equiv> 1"
abbreviation kRecordFormatVersion :: u16 where "kRecordFormatVersion \<equiv> 1"
abbreviation kFileHeaderSize :: nat where "kFileHeaderSize \<equiv> 32"
abbreviation kRecordHeaderSize :: nat where "kRecordHeaderSize \<equiv> 36"
abbreviation kMaximumPayloadSize :: nat where "kMaximumPayloadSize \<equiv> 4194304"

definition kFileMagic :: bytes where
  "kFileMagic = [0x54, 0x46, 0x4C, 0x4F, 0x47, 0x0D, 0x0A, 0x1A]"

definition kRecordMagic :: bytes where
  "kRecordMagic = [0x54, 0x46, 0x52, 0x31]"

definition file_header_bytes :: "i64 \<Rightarrow> bytes" where
  "file_header_bytes created_unix_ns =
     (let header = kFileMagic @ drop 8 (replicate kFileHeaderSize 0);
          header = encode_little_endian header 8 kLogFormatVersion;
          header = encode_little_endian header 10 (of_nat kFileHeaderSize :: u16);
          header = encode_little_endian header 12 (0 :: u32);
          header = encode_little_endian header 16 created_unix_ns;
          header = encode_little_endian header 24 (0 :: u32)
      in encode_little_endian header 28 (crc32c (take 28 header)))"

definition record_header_bytes :: "u64 \<Rightarrow> i64 \<Rightarrow> bytes \<Rightarrow> bytes" where
  "record_header_bytes record_index collector_arrival_timestamp_ns payload =
     (let header = kRecordMagic @ drop 4 (replicate kRecordHeaderSize 0);
          header = encode_little_endian header 4 (of_nat kRecordHeaderSize :: u16);
          header = encode_little_endian header 6 kRecordFormatVersion;
          header = encode_little_endian header 8 (of_nat (length payload) :: u32);
          header = encode_little_endian header 12 (crc32c payload);
          header = encode_little_endian header 16 record_index;
          header = encode_little_endian header 24 collector_arrival_timestamp_ns
      in encode_little_endian header 32 (crc32c (take 32 header)))"

section \<open>Decoding them\<close>

lemma length_encode [simp]: "length (encode_little_endian d p v) = length d"
  by (simp add: encode_little_endian_def)

lemma decode_encode_other:
  assumes "off + LENGTH('a::len) div 8 \<le> p \<or> p + LENGTH('b::len) div 8 \<le> off"
  shows "decode_little_endian (encode_little_endian d p (v :: 'b word)) off = (decode_little_endian d off :: 'a word)"
proof -
  have "encode_little_endian d p v ! (off + i) = d ! (off + i)" if "i < LENGTH('a) div 8" for i
    using assms that by (auto simp: encode_little_endian_def nth_encode_loop_before nth_encode_loop_after)
  then show ?thesis
    unfolding decode_little_endian_def by (intro foldl_cong) auto
qed

lemma take_encode_beyond: "n \<le> p \<Longrightarrow> take n (encode_little_endian d p v) = take n d"
  by (intro nth_equalityI) (auto simp: encode_little_endian_def nth_encode_loop_before)

lemmas header_field =
  decode_encode_other decode_encode_little_endian take_encode_beyond

lemma length_file_header [simp, layout]: "length (file_header_bytes c) = 32"
  by (simp add: file_header_bytes_def Let_def kFileMagic_def)

lemma length_record_header [simp, layout]: "length (record_header_bytes k ts p) = 36"
  by (simp add: record_header_bytes_def Let_def kRecordMagic_def)

lemma file_header_decode [codec]:
  "take 8 (file_header_bytes c) = kFileMagic"
  "decode_little_endian (file_header_bytes c) 8 = kLogFormatVersion"
  "decode_little_endian (file_header_bytes c) 10 = (32 :: u16)"
  "decode_little_endian (file_header_bytes c) 16 = c"
  "decode_little_endian (file_header_bytes c) 28 = crc32c (take 28 (file_header_bytes c))"
  by (simp_all add: file_header_bytes_def Let_def header_field kFileMagic_def)

lemma record_header_decode [codec]:
  "take 4 (record_header_bytes k ts p) = kRecordMagic"
  "decode_little_endian (record_header_bytes k ts p) 4 = (36 :: u16)"
  "decode_little_endian (record_header_bytes k ts p) 6 = kRecordFormatVersion"
  "decode_little_endian (record_header_bytes k ts p) 8 = (of_nat (length p) :: u32)"
  "decode_little_endian (record_header_bytes k ts p) 12 = crc32c p"
  "decode_little_endian (record_header_bytes k ts p) 16 = k"
  "decode_little_endian (record_header_bytes k ts p) 24 = ts"
  "decode_little_endian (record_header_bytes k ts p) 32 = crc32c (take 32 (record_header_bytes k ts p))"
  by (simp_all add: record_header_bytes_def Let_def header_field kRecordMagic_def)

section \<open>The fields determine the header\<close>

lemma decode_eq_imp_bytes_eq:
  assumes eq: "decode_little_endian d off = (decode_little_endian e off :: 'a::len word)"
    and "8 dvd LENGTH('a)" and "LENGTH('a) \<le> 64" and i: "i < LENGTH('a) div 8"
  shows "d ! (off + i) = e ! (off + i)"
proof (rule bit_word_eqI)
  fix k
  assume k: "k < LENGTH(8)"
  then have "(i * 8 + k) div 8 = i" and "(i * 8 + k) mod 8 = k" by auto
  moreover have lt: "i * 8 + k < LENGTH('a)" using i k by auto
  ultimately show "bit (d ! (off + i)) k = bit (e ! (off + i)) k"
    using bit_decode_little_endian [OF assms(3) lt assms(2), of d off]
      bit_decode_little_endian [OF assms(3) lt assms(2), of e off] eq by simp
qed

lemma field_eqI:
  assumes "decode_little_endian d off = (decode_little_endian e off :: 'a::len word)"
    and "8 dvd LENGTH('a)" and "LENGTH('a) \<le> 64" and "off \<le> i" and "i < off + LENGTH('a) div 8"
  shows "d ! i = e ! i"
  using decode_eq_imp_bytes_eq [OF assms(1,2,3), of "i - off"] assms(4,5) by simp

lemma record_header_unique:
  assumes len: "length h = 36" and magic: "take 4 h = kRecordMagic"
    and f4: "decode_little_endian h 4 = (36 :: u16)" and f6: "decode_little_endian h 6 = kRecordFormatVersion"
    and f8: "decode_little_endian h 8 = (of_nat (length p) :: u32)" and f12: "decode_little_endian h 12 = crc32c p"
    and f16: "decode_little_endian h 16 = k" and f24: "decode_little_endian h 24 = ts"
    and f32: "decode_little_endian h 32 = crc32c (take 32 h)"
  shows "h = record_header_bytes k ts p"
proof -
  let ?r = "record_header_bytes k ts p"
  have eq: "h ! i = ?r ! i" if lt: "i < 32" for i
  proof -
    consider "i < 4" | "4 \<le> i" "i < 6" | "6 \<le> i" "i < 8" | "8 \<le> i" "i < 12" | "12 \<le> i" "i < 16"
      | "16 \<le> i" "i < 24" | "24 \<le> i" "i < 32"
      using lt by linarith
    then show ?thesis
    proof cases
      case 1
      then show ?thesis using magic record_header_decode(1) [of k ts p] len
        by (intro take_eq_imp_nth [of 4]) auto
    next
      case 2
      then show ?thesis using field_eqI [where 'a = 16, of h 4 ?r] f4 by (simp add: codec)
    next
      case 3
      then show ?thesis using field_eqI [where 'a = 16, of h 6 ?r] f6 by (simp add: codec)
    next
      case 4
      then show ?thesis using field_eqI [where 'a = 32, of h 8 ?r] f8 by (simp add: codec)
    next
      case 5
      then show ?thesis using field_eqI [where 'a = 32, of h 12 ?r] f12 by (simp add: codec)
    next
      case 6
      then show ?thesis using field_eqI [where 'a = 64, of h 16 ?r] f16 by (simp add: codec)
    next
      case 7
      then show ?thesis using field_eqI [where 'a = 64, of h 24 ?r] f24 by (simp add: codec)
    qed
  qed
  then have t: "take 32 h = take 32 ?r" using len by (intro nth_equalityI) auto
  have "h ! i = ?r ! i" if "32 \<le> i" "i < 36" for i
    using field_eqI [where 'a = 32, of h 32 ?r] f32 t that by (simp add: codec)
  then have "h ! i = ?r ! i" if "i < 36" for i using eq [of i] that by (cases "i < 32") auto
  then show ?thesis using len by (intro nth_equalityI) auto
qed

end
