(* ===== verification/TF_Stream.thy ===== *)
theory TF_Stream
  imports TF_Prelude
begin

text \<open>
  The file streams of the C++ standard library, as far as the recorder and the replay engine use
  them.  What the operating system does to an output operation is data of the model: an output
  stream carries the outcomes of its coming operations, and a failing write may still have put part
  of its bytes into the stream.  An input stream delivers a fixed byte string; a file whose reported
  size differs from what the stream delivers (a device error, a concurrent truncation) is a
  \<open>file_view\<close> whose two fields disagree.
\<close>

section \<open>Output\<close>

text \<open>
  An output stream is buffered: \<open>os_data\<close> are the bytes it has taken, of which the first \<open>os_flushed\<close>
  have been handed to the operating system by a successful \<^verbatim>\<open>flush\<close>.  Of the others any number may be
  in the file: \<open>on_disk s bs\<close> says that the file may hold \<open>bs\<close>.
\<close>

datatype io_outcome = IoOk | IoFail nat

record ofstream =
  os_open :: bool
  os_ok :: bool
  os_data :: bytes
  os_flushed :: nat
  os_outcomes :: "io_outcome list"

definition closed_ofstream :: ofstream where
  "closed_ofstream = \<lparr>os_open = False, os_ok = True, os_data = [], os_flushed = 0, os_outcomes = []\<rparr>"

definition os_opened :: "io_outcome list \<Rightarrow> ofstream" where
  "os_opened outcomes = \<lparr>os_open = True, os_ok = True, os_data = [], os_flushed = 0, os_outcomes = outcomes\<rparr>"

definition os_open_failed :: ofstream where
  "os_open_failed = closed_ofstream\<lparr>os_ok := False\<rparr>"

definition on_disk :: "ofstream \<Rightarrow> bytes \<Rightarrow> bool" where
  "on_disk s bs \<longleftrightarrow> os_flushed s \<le> length bs \<and> bs = take (length bs) (os_data s)"

definition os_write :: "bytes \<Rightarrow> ofstream \<Rightarrow> ofstream" where
  "os_write bs s =
     (if \<not> os_ok s then s
      else case os_outcomes s of
             [] \<Rightarrow> s\<lparr>os_data := os_data s @ bs\<rparr>
           | IoOk # rest \<Rightarrow> s\<lparr>os_data := os_data s @ bs, os_outcomes := rest\<rparr>
           | IoFail n # rest \<Rightarrow> s\<lparr>os_data := os_data s @ take n bs, os_ok := False, os_outcomes := rest\<rparr>)"

definition os_flush :: "ofstream \<Rightarrow> ofstream" where
  "os_flush s =
     (if \<not> os_ok s then s
      else case os_outcomes s of
             [] \<Rightarrow> s\<lparr>os_flushed := length (os_data s)\<rparr>
           | IoOk # rest \<Rightarrow> s\<lparr>os_flushed := length (os_data s), os_outcomes := rest\<rparr>
           | IoFail n # rest \<Rightarrow> s\<lparr>os_ok := False, os_outcomes := rest\<rparr>)"

lemma os_write_open [stream]: "os_open (os_write bs s) = os_open s"
  by (simp add: os_write_def split: list.splits io_outcome.splits)

lemma os_flush_open [stream]: "os_open (os_flush s) = os_open s"
  by (simp add: os_flush_def split: list.splits io_outcome.splits)

lemma os_flush_data [stream]: "os_data (os_flush s) = os_data s"
  by (simp add: os_flush_def split: list.splits io_outcome.splits)

lemma os_write_data [stream]: "os_ok (os_write bs s) \<Longrightarrow> os_data (os_write bs s) = os_data s @ bs"
  by (auto simp: os_write_def split: list.splits io_outcome.splits if_splits)

lemma os_write_flushed [stream]: "os_flushed (os_write bs s) = os_flushed s"
  by (simp add: os_write_def split: list.splits io_outcome.splits)

lemma os_flush_flushed [stream]:
  "os_ok s \<Longrightarrow> os_flushed (os_flush s) = (if os_ok (os_flush s) then length (os_data s) else os_flushed s)"
  by (auto simp: os_flush_def split: list.splits io_outcome.splits)

lemma os_write_ok_before: "os_ok (os_write bs s) \<Longrightarrow> os_ok s"
  by (auto simp: os_write_def split: if_splits)

lemma os_write_partial: "\<exists>n. os_data (os_write bs s) = os_data s @ take n bs"
  by (cases "os_outcomes s"; cases "hd (os_outcomes s)")
    (auto simp: os_write_def intro: exI [of _ 0] exI [of _ "length bs"])

section \<open>Input\<close>

record ifstream =
  is_bytes :: bytes
  is_pos :: nat
  is_eof :: bool
  is_fail :: bool

definition is_opened :: "bytes \<Rightarrow> ifstream" where
  "is_opened bs = \<lparr>is_bytes = bs, is_pos = 0, is_eof = False, is_fail = False\<rparr>"

definition is_clear :: "ifstream \<Rightarrow> ifstream" where
  "is_clear s = s\<lparr>is_eof := False, is_fail := False\<rparr>"

text \<open>\<open>is_read\<close> returns the extracted bytes (their number is \<^verbatim>\<open>gcount()\<close>); a short read sets both
  state bits.  \<open>is_ignore\<close> sets only the end-of-file bit when it runs out of bytes.\<close>

definition is_read :: "nat \<Rightarrow> ifstream \<Rightarrow> bytes \<times> ifstream" where
  "is_read n s =
     (if is_eof s \<or> is_fail s then ([], s\<lparr>is_fail := True\<rparr>)
      else let got = take n (drop (is_pos s) (is_bytes s));
               s = s\<lparr>is_pos := is_pos s + length got\<rparr>
           in (got, if length got < n then s\<lparr>is_eof := True, is_fail := True\<rparr> else s))"

definition is_ignore :: "nat \<Rightarrow> ifstream \<Rightarrow> ifstream" where
  "is_ignore n s =
     (if is_eof s \<or> is_fail s then s\<lparr>is_fail := True\<rparr>
      else let skipped = length (take n (drop (is_pos s) (is_bytes s)));
               s = s\<lparr>is_pos := is_pos s + skipped\<rparr>
           in if skipped < n then s\<lparr>is_eof := True\<rparr> else s)"

definition is_seekg :: "nat \<Rightarrow> ifstream \<Rightarrow> ifstream" where
  "is_seekg p s = (let s = s\<lparr>is_eof := False\<rparr> in if is_fail s then s else s\<lparr>is_pos := p\<rparr>)"

definition read_exact :: "nat \<Rightarrow> ifstream \<Rightarrow> bool \<times> bytes \<times> ifstream" where
  "read_exact n s = (case is_read n s of (got, s') \<Rightarrow> (length got = n, got, s'))"

definition stream_good :: "ifstream \<Rightarrow> bool" where
  "stream_good s \<longleftrightarrow> \<not> is_eof s \<and> \<not> is_fail s"

lemma stream_good_opened [stream, simp]: "stream_good (is_opened bs)" "is_pos (is_opened bs) = 0" "is_bytes (is_opened bs) = bs"
  by (simp_all add: stream_good_def is_opened_def)

text \<open>Reading bytes that are there.\<close>

lemma read_exact_available:
  assumes "stream_good s" and "drop (is_pos s) (is_bytes s) = bs @ rest"
  shows "\<exists>s'. read_exact (length bs) s = (True, bs, s') \<and> stream_good s' \<and>
    is_bytes s' = is_bytes s \<and> is_pos s' = is_pos s + length bs \<and> drop (is_pos s') (is_bytes s') = rest"
proof -
  have "drop (is_pos s + length bs) (is_bytes s) = drop (length bs) (drop (is_pos s) (is_bytes s))"
    by (simp add: add.commute)
  with assms show ?thesis
    by (auto simp: read_exact_def is_read_def stream_good_def Let_def)
qed

lemma read_exact_good: "read_exact n s = (True, got, s') \<Longrightarrow> stream_good s \<Longrightarrow>
    stream_good s' \<and> length got = n \<and> is_bytes s' = is_bytes s \<and> is_pos s' = is_pos s + n \<and>
    drop (is_pos s) (is_bytes s) = got @ drop (is_pos s') (is_bytes s')"
  by (auto simp: read_exact_def is_read_def stream_good_def Let_def add.commute split: if_splits prod.splits)
    (metis add.commute append_take_drop_id drop_drop)+

section \<open>Files\<close>

record file_view =
  fv_size :: "u64 option"
  fv_open :: bool
  fv_bytes :: bytes

definition stored :: "bytes \<Rightarrow> file_view" where
  "stored bs = \<lparr>fv_size = Some (of_nat (length bs)), fv_open = True, fv_bytes = bs\<rparr>"

end
