(* ===== verification/TF_Float.thy ===== *)
theory TF_Float
  imports Complex_Main TF_Prelude
begin

text \<open>
  The part of IEEE 754 binary64 that validation and replay pacing use.  A \<^verbatim>\<open>double\<close> is its
  64-bit pattern, so that two doubles with different encodings stay different values of the model.
  \<open>f64_isfinite\<close> is \<^verbatim>\<open>std::isfinite\<close> and \<open>f64_less\<close> is the operator \<^verbatim>\<open><\<close> on doubles.

  The order is computed on sign and magnitude of the pattern; \<open>f64_less_value\<close> shows that on
  finite numbers it is the order of the numbers the patterns stand for.
\<close>

type_synonym f64 = "64 word"

definition f64_magnitude :: "f64 \<Rightarrow> nat" where
  "f64_magnitude d = unat (take_bit 63 d)"

definition f64_negative :: "f64 \<Rightarrow> bool" where
  "f64_negative d = bit d 63"

definition f64_isfinite :: "f64 \<Rightarrow> bool" where
  "f64_isfinite d = (f64_magnitude d < 0x7FF0000000000000)"

definition f64_isnan :: "f64 \<Rightarrow> bool" where
  "f64_isnan d = (f64_magnitude d > 0x7FF0000000000000)"

definition f64_key :: "f64 \<Rightarrow> int" where
  "f64_key d = (if f64_negative d then - int (f64_magnitude d) else int (f64_magnitude d))"

definition f64_less :: "f64 \<Rightarrow> f64 \<Rightarrow> bool" where
  "f64_less a b = (\<not> f64_isnan a \<and> \<not> f64_isnan b \<and> f64_key a < f64_key b)"

text \<open>
  The number a finite pattern stands for, in units of \<open>2 ^ - 1074\<close>: a subnormal has exponent
  field 0, any other has the implicit leading bit.
\<close>

definition f64_units :: "nat \<Rightarrow> nat" where
  "f64_units m = (let e = m div 2 ^ 52; f = m mod 2 ^ 52
     in if e = 0 then f else (2 ^ 52 + f) * 2 ^ (e - 1))"

definition f64_value :: "f64 \<Rightarrow> rat" where
  "f64_value d = (if f64_negative d then - 1 else 1) * of_nat (f64_units (f64_magnitude d)) / 2 ^ 1074"

section \<open>The order on patterns is the order on values\<close>

lemma f64_units_Suc: "f64_units m < f64_units (Suc m)"
proof (cases "Suc m mod 2 ^ 52 = 0")
  case False
  then have "Suc m div 2 ^ 52 = m div 2 ^ 52" and "Suc m mod 2 ^ 52 = Suc (m mod 2 ^ 52)"
    by (simp_all add: div_Suc mod_Suc split: if_splits)
  then show ?thesis by (auto simp: f64_units_def Let_def)
next
  case True
  then have d: "Suc m div 2 ^ 52 = Suc (m div 2 ^ 52)" and f: "m mod 2 ^ 52 = 2 ^ 52 - 1"
    by (simp_all add: div_Suc mod_Suc split: if_splits)
  define e where "e = m div 2 ^ 52"
  show ?thesis
  proof (cases e)
    case 0
    with True d f show ?thesis by (simp add: f64_units_def Let_def e_def)
  next
    case (Suc k)
    have "(2 ^ 52 + (2 ^ 52 - 1)) * 2 ^ k < (2 ^ 52 :: nat) * 2 ^ Suc k" by simp
    with Suc True d f show ?thesis by (simp only: f64_units_def Let_def e_def) simp
  qed
qed

lemma f64_units_strict_mono: "strict_mono f64_units"
  by (simp add: strict_mono_Suc_iff f64_units_Suc)

lemma f64_units_less_iff: "f64_units m < f64_units n \<longleftrightarrow> m < n"
  using f64_units_strict_mono by (rule strict_mono_less)

lemma f64_units_zero_iff: "f64_units m = 0 \<longleftrightarrow> m = 0"
  using f64_units_less_iff [of 0 m] by (auto simp: f64_units_def [of 0])

lemma f64_less_value:
  assumes "f64_isfinite a" and "f64_isfinite b"
  shows "f64_less a b \<longleftrightarrow> f64_value a < f64_value b"
proof -
  have nan: "\<not> f64_isnan a" "\<not> f64_isnan b"
    using assms by (simp_all add: f64_isfinite_def f64_isnan_def)
  define s where "s d = (if f64_negative d then - 1 else 1 :: int) * int (f64_units (f64_magnitude d))" for d
  have val: "f64_value d = of_int (s d) / 2 ^ 1074" for d
    by (simp add: f64_value_def s_def)
  have "f64_value a < f64_value b \<longleftrightarrow> s a < s b"
    by (simp only: val divide_less_cancel) simp
  also have "\<dots> \<longleftrightarrow> f64_key a < f64_key b"
    using f64_units_less_iff [of "f64_magnitude a" "f64_magnitude b"]
      f64_units_less_iff [of "f64_magnitude b" "f64_magnitude a"]
      f64_units_zero_iff [of "f64_magnitude a"] f64_units_zero_iff [of "f64_magnitude b"]
    by (simp add: s_def f64_key_def) linarith
  finally show ?thesis using nan by (simp add: f64_less_def)
qed

end
