(* ===== verification/TF_Event.thy ===== *)
theory TF_Event
  imports TF_Float
begin

text \<open>
  The messages of \<^verbatim>\<open>proto/traceforge/v1/telemetry.proto\<close> as records.  A proto3 string is its
  bytes (Isabelle's \<open>char\<close> has eight bits, so \<open>length\<close> is \<^verbatim>\<open>std::string::size\<close>).  A proto3 enum
  is open: a field holds any 32-bit integer, and the generated \<^verbatim>\<open>..._IsValid\<close> predicate tells
  the declared values apart, so enum fields are integers here.  The \<^verbatim>\<open>oneof\<close> is a datatype
  whose first constructor is the unset case.

  Serialization and parsing of these messages belong to the Protobuf runtime, which is not part of
  the repository: every definition that needs them takes \<open>serialize\<close> or \<open>parse\<close> as an argument.
\<close>

section \<open>Enumerations\<close>

abbreviation (input) CLOCK_DOMAIN_UNSPECIFIED :: int where "CLOCK_DOMAIN_UNSPECIFIED \<equiv> 0"
abbreviation (input) CLOCK_DOMAIN_UTC :: int where "CLOCK_DOMAIN_UTC \<equiv> 1"
abbreviation (input) CLOCK_DOMAIN_DEVICE_MONOTONIC :: int where "CLOCK_DOMAIN_DEVICE_MONOTONIC \<equiv> 2"

definition ClockDomain_IsValid :: "int \<Rightarrow> bool" where
  "ClockDomain_IsValid n = (n \<in> {CLOCK_DOMAIN_UNSPECIFIED, CLOCK_DOMAIN_UTC, CLOCK_DOMAIN_DEVICE_MONOTONIC})"

abbreviation (input) STATE_UNSPECIFIED :: int where "STATE_UNSPECIFIED \<equiv> 0"
abbreviation (input) STATE_INITIALIZING :: int where "STATE_INITIALIZING \<equiv> 1"
abbreviation (input) STATE_READY :: int where "STATE_READY \<equiv> 2"
abbreviation (input) STATE_DEGRADED :: int where "STATE_DEGRADED \<equiv> 3"
abbreviation (input) STATE_STOPPED :: int where "STATE_STOPPED \<equiv> 4"

definition ControllerStatus_State_IsValid :: "int \<Rightarrow> bool" where
  "ControllerStatus_State_IsValid n =
     (n \<in> {STATE_UNSPECIFIED, STATE_INITIALIZING, STATE_READY, STATE_DEGRADED, STATE_STOPPED})"

abbreviation (input) SEVERITY_UNSPECIFIED :: int where "SEVERITY_UNSPECIFIED \<equiv> 0"
abbreviation (input) SEVERITY_WARNING :: int where "SEVERITY_WARNING \<equiv> 1"
abbreviation (input) SEVERITY_ERROR :: int where "SEVERITY_ERROR \<equiv> 2"
abbreviation (input) SEVERITY_CRITICAL :: int where "SEVERITY_CRITICAL \<equiv> 3"

definition FaultEvent_Severity_IsValid :: "int \<Rightarrow> bool" where
  "FaultEvent_Severity_IsValid n =
     (n \<in> {SEVERITY_UNSPECIFIED, SEVERITY_WARNING, SEVERITY_ERROR, SEVERITY_CRITICAL})"

section \<open>Messages\<close>

record vector3 =
  vec_x :: f64
  vec_y :: f64
  vec_z :: f64

record gps_fix =
  latitude_degrees :: f64
  longitude_degrees :: f64
  horizontal_accuracy_meters :: f64
  is_mocked :: bool

record temperature_msg =
  degrees_celsius :: f64

record camera_metadata =
  frame_number :: u64
  width_pixels :: u32
  height_pixels :: u32
  exposure_time_ns :: u64

record controller_status_msg =
  cs_state :: int
  cs_detail :: string

record fault_event =
  fe_severity :: int
  fe_code :: u32
  fe_message :: string

datatype event_payload =
    PAYLOAD_NOT_SET
  | Accelerometer vector3
  | Gyroscope vector3
  | Gps gps_fix
  | Temperature temperature_msg
  | Camera camera_metadata
  | ControllerStatus controller_status_msg
  | Fault fault_event

record telemetry_event =
  schema_version :: u32
  producer_id :: string
  sequence_number :: u64
  source_timestamp_ns :: i64
  source_clock :: int
  ev_payload :: event_payload

record stream_summary =
  summary_producer_id :: string
  summary_accepted_events :: u64
  summary_first_sequence_number :: u64
  summary_last_sequence_number :: u64
  summary_sequence_gaps :: u64

definition empty_event :: telemetry_event where
  "empty_event = \<lparr>schema_version = 0, producer_id = [], sequence_number = 0,
     source_timestamp_ns = 0, source_clock = 0, ev_payload = PAYLOAD_NOT_SET\<rparr>"

definition empty_summary :: stream_summary where
  "empty_summary = \<lparr>summary_producer_id = [], summary_accepted_events = 0,
     summary_first_sequence_number = 0, summary_last_sequence_number = 0, summary_sequence_gaps = 0\<rparr>"

text \<open>\<^verbatim>\<open>payload_name\<close> of \<^verbatim>\<open>src/generator/workload_generator.cpp\<close>.\<close>

fun payload_name :: "event_payload \<Rightarrow> string" where
  "payload_name (Accelerometer _) = ''accelerometer''"
| "payload_name (Gyroscope _) = ''gyroscope''"
| "payload_name (Gps _) = ''gps''"
| "payload_name (Temperature _) = ''temperature''"
| "payload_name (Camera _) = ''camera''"
| "payload_name (ControllerStatus _) = ''controller_status''"
| "payload_name (Fault _) = ''fault''"
| "payload_name PAYLOAD_NOT_SET = ''unset''"

end
