(* ===== verification/TF_Validation.thy ===== *)
theory TF_Validation
  imports TF_Event
begin

text \<open>
  \<^verbatim>\<open>src/telemetry/validation.cpp\<close>: the per-stream validator.  \<open>accept\<close> is
  \<^verbatim>\<open>StreamValidator::accept\<close> with the validator's fields passed in and out; \<open>validate_payload\<close> is
  the helper of the same name.  \<open>accept_all\<close> iterates it over a stream and stops at the first
  rejection, the way the collector's reactor drives it.
\<close>

section \<open>The validator\<close>

abbreviation kTelemetrySchemaVersion :: u32 where "kTelemetrySchemaVersion \<equiv> 1"
abbreviation kMaxProducerIdBytes :: nat where "kMaxProducerIdBytes \<equiv> 128"
abbreviation kMaxDetailBytes :: nat where "kMaxDetailBytes \<equiv> 1024"

record validation_result =
  accepted :: bool
  error :: string

definition reject :: "string \<Rightarrow> validation_result" where
  "reject reason = \<lparr>accepted = False, error = reason\<rparr>"

definition accept_ok :: validation_result where
  "accept_ok = \<lparr>accepted = True, error = []\<rparr>"

definition is_finite :: "vector3 \<Rightarrow> bool" where
  "is_finite v = (f64_isfinite (vec_x v) \<and> f64_isfinite (vec_y v) \<and> f64_isfinite (vec_z v))"

text \<open>The constants of the bounds check, as bit patterns: 90, -90, 180 and -180.\<close>

abbreviation f64_90 :: f64 where "f64_90 \<equiv> 0x4056800000000000"
abbreviation f64_neg_90 :: f64 where "f64_neg_90 \<equiv> 0xC056800000000000"
abbreviation f64_180 :: f64 where "f64_180 \<equiv> 0x4066800000000000"
abbreviation f64_neg_180 :: f64 where "f64_neg_180 \<equiv> 0xC066800000000000"

fun validate_payload :: "event_payload \<Rightarrow> validation_result" where
  "validate_payload (Accelerometer v) =
     (if is_finite v then accept_ok else reject ''accelerometer values must be finite'')"
| "validate_payload (Gyroscope v) =
     (if is_finite v then accept_ok else reject ''gyroscope values must be finite'')"
| "validate_payload (Gps gps) =
     (if \<not> f64_isfinite (latitude_degrees gps) \<or> \<not> f64_isfinite (longitude_degrees gps) \<or>
         \<not> f64_isfinite (horizontal_accuracy_meters gps)
      then reject ''GPS values must be finite''
      else if f64_less (latitude_degrees gps) f64_neg_90 \<or> f64_less f64_90 (latitude_degrees gps) \<or>
         f64_less (longitude_degrees gps) f64_neg_180 \<or> f64_less f64_180 (longitude_degrees gps)
      then reject ''GPS coordinates are outside valid bounds''
      else if f64_less (horizontal_accuracy_meters gps) 0
      then reject ''GPS accuracy cannot be negative''
      else accept_ok)"
| "validate_payload (Temperature t) =
     (if f64_isfinite (degrees_celsius t) then accept_ok else reject ''temperature must be finite'')"
| "validate_payload (Camera c) =
     (if width_pixels c = 0 \<or> height_pixels c = 0 then reject ''camera dimensions must be non-zero''
      else accept_ok)"
| "validate_payload (ControllerStatus s) =
     (if \<not> ControllerStatus_State_IsValid (cs_state s) \<or> cs_state s = STATE_UNSPECIFIED
      then reject ''controller state must be specified''
      else if length (cs_detail s) > kMaxDetailBytes then reject ''controller detail is too long''
      else accept_ok)"
| "validate_payload (Fault f) =
     (if \<not> FaultEvent_Severity_IsValid (fe_severity f) \<or> fe_severity f = SEVERITY_UNSPECIFIED
      then reject ''fault severity must be specified''
      else if length (fe_message f) > kMaxDetailBytes then reject ''fault message is too long''
      else accept_ok)"
| "validate_payload PAYLOAD_NOT_SET = reject ''event payload is required''"

record stream_validator =
  sv_producer_id :: string
  sv_accepted_events :: u64
  sv_first_sequence_number :: u64
  sv_last_sequence_number :: u64
  sv_sequence_gaps :: u64

definition new_validator :: stream_validator where
  "new_validator = \<lparr>sv_producer_id = [], sv_accepted_events = 0, sv_first_sequence_number = 0,
     sv_last_sequence_number = 0, sv_sequence_gaps = 0\<rparr>"

definition record_event :: "stream_validator \<Rightarrow> telemetry_event \<Rightarrow> stream_validator" where
  "record_event v e =
     (let v = (if sv_accepted_events v = 0
               then v\<lparr>sv_producer_id := producer_id e, sv_first_sequence_number := sequence_number e\<rparr>
               else v\<lparr>sv_sequence_gaps :=
                        sv_sequence_gaps v + (sequence_number e - sv_last_sequence_number v - 1)\<rparr>)
      in v\<lparr>sv_last_sequence_number := sequence_number e,
           sv_accepted_events := sv_accepted_events v + 1\<rparr>)"

definition accept :: "stream_validator \<Rightarrow> telemetry_event \<Rightarrow> validation_result \<times> stream_validator" where
  "accept v e =
     (if schema_version e \<noteq> kTelemetrySchemaVersion
      then (reject ''unsupported telemetry schema version'', v)
      else if producer_id e = [] then (reject ''producer_id is required'', v)
      else if length (producer_id e) > kMaxProducerIdBytes then (reject ''producer_id is too long'', v)
      else if \<not> ClockDomain_IsValid (source_clock e) \<or> source_clock e = CLOCK_DOMAIN_UNSPECIFIED
      then (reject ''source clock domain is required'', v)
      else if sint (source_timestamp_ns e) \<le> 0 then (reject ''source timestamp must be positive'', v)
      else if sv_producer_id v \<noteq> [] \<and> producer_id e \<noteq> sv_producer_id v
      then (reject ''producer_id cannot change within a stream'', v)
      else if sv_accepted_events v > 0 \<and> sequence_number e \<le> sv_last_sequence_number v
      then (reject ''sequence numbers must increase within a stream'', v)
      else let payload_result = validate_payload (ev_payload e)
           in if \<not> accepted payload_result then (payload_result, v)
              else (accept_ok, record_event v e))"

definition populate_summary :: "stream_validator \<Rightarrow> stream_summary \<Rightarrow> stream_summary" where
  "populate_summary v summary = summary\<lparr>summary_producer_id := sv_producer_id v,
     summary_accepted_events := sv_accepted_events v,
     summary_first_sequence_number := sv_first_sequence_number v,
     summary_last_sequence_number := sv_last_sequence_number v,
     summary_sequence_gaps := sv_sequence_gaps v\<rparr>"

fun accept_all :: "stream_validator \<Rightarrow> telemetry_event list \<Rightarrow> stream_validator option" where
  "accept_all v [] = Some v"
| "accept_all v (e # es) =
     (case accept v e of (r, v') \<Rightarrow> if accepted r then accept_all v' es else None)"

section \<open>What one call decides\<close>

text \<open>The checks that look at the event alone.\<close>

definition event_ok :: "telemetry_event \<Rightarrow> bool" where
  "event_ok e \<longleftrightarrow> schema_version e = kTelemetrySchemaVersion \<and> producer_id e \<noteq> [] \<and>
     length (producer_id e) \<le> kMaxProducerIdBytes \<and> ClockDomain_IsValid (source_clock e) \<and>
     source_clock e \<noteq> CLOCK_DOMAIN_UNSPECIFIED \<and> 0 < sint (source_timestamp_ns e) \<and>
     accepted (validate_payload (ev_payload e))"

text \<open>The checks against the events accepted before it.\<close>

definition continues :: "stream_validator \<Rightarrow> telemetry_event \<Rightarrow> bool" where
  "continues v e \<longleftrightarrow> (sv_producer_id v = [] \<or> producer_id e = sv_producer_id v) \<and>
     (sv_accepted_events v = 0 \<or> sv_last_sequence_number v < sequence_number e)"

lemma accepted_simps [simp]: "accepted (reject s)  = False" "accepted accept_ok = True"
  by (simp_all add: reject_def accept_ok_def)

lemma accept_accepted_iff: "accepted (fst (accept v e)) \<longleftrightarrow> event_ok e \<and> continues v e"
  by (auto simp: accept_def event_ok_def continues_def Let_def word_neq_0_conv not_le not_less)

lemma accept_state: "snd (accept v e) = (if accepted (fst (accept v e)) then record_event v e else v)"
  by (simp add: accept_def Let_def)

lemma accept_all_Cons_iff:
  "accept_all v (e # es) = Some w \<longleftrightarrow> event_ok e \<and> continues v e \<and> accept_all (record_event v e) es = Some w"
  using accept_accepted_iff [of v e] accept_state [of v e] by (auto split: prod.splits if_splits)

section \<open>Invariant of the counters\<close>

text \<open>
  After \<open>n\<close> accepted events, with the accepted sequence numbers \<open>S\<close>: the counters agree with
  \<open>S\<close>, and the gap counter has counted what \<open>S\<close> leaves out between its ends.
\<close>

definition counts :: "stream_validator \<Rightarrow> string \<Rightarrow> u64 set \<Rightarrow> bool" where
  "counts v p S \<longleftrightarrow> finite S \<and> S \<noteq> {} \<and> p \<noteq> [] \<and> sv_producer_id v = p \<and>
     unat (sv_accepted_events v) = card S \<and>
     sv_first_sequence_number v = Min S \<and> sv_last_sequence_number v = Max S \<and>
     unat (sv_sequence_gaps v) = card ({Min S..Max S} - S)"

lemma card_word_interval: "a \<le> b \<Longrightarrow> card {a..b::'a::len word} = unat b - unat a + 1"
proof -
  assume ab: "a \<le> b"
  have "bij_betw unat {a..b} {unat a..unat b}"
  proof (rule bij_betw_imageI)
    show "inj_on unat {a..b}" by (auto intro!: inj_onI simp: word_unat_eq_iff)
    show "unat ` {a..b} = {unat a..unat b}"
    proof (intro subset_antisym subsetI)
      fix n
      assume n: "n \<in> {unat a..unat b}"
      then have "unat (of_nat n :: 'a word) = n"
        by (intro unat_of_nat_less) (use unat_bound [of b] in \<open>auto intro: le_less_trans\<close>)
      with n show "n \<in> unat ` {a..b}"
        by (intro image_eqI [where x = "of_nat n"]) (auto simp: word_le_nat_alt)
    qed (auto simp: word_le_nat_alt)
  qed
  then show ?thesis using ab by (simp add: bij_betw_same_card word_le_nat_alt Suc_diff_le)
qed

lemma counts_first:
  "producer_id e \<noteq> [] \<Longrightarrow> counts (record_event new_validator e) (producer_id e) {sequence_number e}"
  by (simp add: counts_def record_event_def new_validator_def)

lemma counts_next:
  assumes c: "counts v p S" and pe: "producer_id e = p" and lt: "Max S < sequence_number e"
    and small: "card S < 2 ^ 64 - 1"
  shows "counts (record_event v e) p (insert (sequence_number e) S)"
proof -
  let ?s = "sequence_number e"
  let ?T = "insert ?s S"
  from c have fin: "finite S" "S \<noteq> {}" "p \<noteq> []" and acc: "unat (sv_accepted_events v) = card S"
    and mm: "sv_first_sequence_number v = Min S" "sv_last_sequence_number v = Max S"
    and gaps: "unat (sv_sequence_gaps v) = card ({Min S..Max S} - S)" and pid: "sv_producer_id v = p"
    by (auto simp: counts_def)
  have notin: "?s \<notin> S" using lt fin by (meson Max_ge leD)
  have MaxT: "Max ?T = ?s"
    using max_absorb1 [OF less_imp_le [OF lt]] fin by (subst Max_insert) simp_all
  have le: "Min S \<le> Max S" using fin by (meson Max_ge Min_in)
  then have MinT: "Min ?T = Min S"
    using min_absorb2 [of "Min S" ?s] lt fin by (subst Min_insert) simp_all
  have nz: "sv_accepted_events v \<noteq> 0" using acc fin by auto
  have acc': "unat (sv_accepted_events v + 1) = card ?T"
    using acc small notin fin by (simp add: word_Suc_ne_zero)
  have sub: "S \<subseteq> {Min S..Max S}" using fin by auto
  have cards: "card ({Min S..Max S} - S) = unat (Max S) - unat (Min S) + 1 - card S"
    using sub fin le by (simp add: card_Diff_subset card_word_interval)
  have cards': "card ({Min S..?s} - ?T) = unat ?s - unat (Min S) + 1 - card ?T"
  proof -
    have "S \<subseteq> {Min S..?s}" using sub order_trans [OF _ less_imp_le [OF lt]] by fastforce
    then have "?T \<subseteq> {Min S..?s}" using lt le by auto
    moreover have "Min S \<le> ?s" using le lt by simp
    ultimately show ?thesis using fin by (simp add: card_Diff_subset card_word_interval)
  qed
  have cS: "card S \<le> unat (Max S) - unat (Min S) + 1"
    using card_mono [OF _ sub] le by (simp add: card_word_interval)
  have d: "unat (?s - Max S - 1) = unat ?s - unat (Max S) - 1"
    using lt by unat_arith
  have "unat (sv_sequence_gaps v) + unat (?s - Max S - 1) = card ({Min S..?s} - ?T)"
    using lt le gaps cards cards' cS notin fin d by (simp add: word_less_nat_alt word_le_nat_alt)
  moreover have "card ({Min S..?s} - ?T) < 2 ^ 64"
  proof -
    have "0 < card ?T" using fin by (simp add: card_gt_0_iff)
    moreover have "unat ?s < 2 ^ 64" using unat_bound [of ?s] by simp
    ultimately show ?thesis using cards' by linarith
  qed
  ultimately have "unat (sv_sequence_gaps v + (?s - Max S - 1)) = card ({Min S..?s} - ?T)"
    by (subst unat_add_no_wrap) auto
  with fin nz acc' mm pid MinT MaxT pe show ?thesis
    by (simp add: counts_def record_event_def Let_def)
qed

section \<open>Runs of the validator\<close>

lemma counts_continues:
  "counts v p S \<Longrightarrow> continues v e \<longleftrightarrow> producer_id e = p \<and> Max S < sequence_number e"
  by (auto simp: continues_def counts_def)

lemma counts_step:
  assumes "counts v p S" "card S + length (e # es) < 2 ^ 64" "producer_id e = p" "Max S < sequence_number e"
  shows "counts (record_event v e) p (insert (sequence_number e) S)"
    and "Max (insert (sequence_number e) S) = sequence_number e"
    and "card (insert (sequence_number e) S) + length es < 2 ^ 64"
proof -
  show "counts (record_event v e) p (insert (sequence_number e) S)" using assms by (intro counts_next) auto
  have S: "finite S" "S \<noteq> {}" using assms(1) by (auto simp: counts_def)
  then show "Max (insert (sequence_number e) S) = sequence_number e"
    using max_absorb1 [OF less_imp_le [OF assms(4)]] by (subst Max_insert) simp_all
  show "card (insert (sequence_number e) S) + length es < 2 ^ 64"
    using assms(2) S by (auto simp: card_insert_if)
qed

lemma accept_all_counts_iff:
  assumes "counts v p S" and "card S + length es < 2 ^ 64"
  shows "(\<exists>w. accept_all v es = Some w) \<longleftrightarrow>
      (\<forall>e \<in> set es. event_ok e \<and> producer_id e = p) \<and> sorted_wrt (<) (Max S # map sequence_number es)"
  using assms
proof (induction es arbitrary: v S)
  case Nil
  then show ?case by simp
next
  case (Cons e es)
  have run: "(\<exists>w. accept_all v (e # es) = Some w) \<longleftrightarrow>
      event_ok e \<and> producer_id e = p \<and> Max S < sequence_number e \<and> (\<exists>w. accept_all (record_event v e) es = Some w)"
    using counts_continues [OF Cons.prems(1)] by (simp only: accept_all_Cons_iff) blast
  have sorted: "sorted_wrt (<) (Max S # map sequence_number (e # es)) \<longleftrightarrow>
      Max S < sequence_number e \<and> sorted_wrt (<) (sequence_number e # map sequence_number es)"
    by (simp only: list.map sorted_wrt2 [OF transp_on_less])
  show ?case
  proof (cases "producer_id e = p \<and> Max S < sequence_number e")
    case True
    then have "(\<exists>w. accept_all (record_event v e) es = Some w) \<longleftrightarrow>
        (\<forall>e \<in> set es. event_ok e \<and> producer_id e = p) \<and> sorted_wrt (<) (sequence_number e # map sequence_number es)"
      using Cons.IH [OF counts_step(1,3) [OF Cons.prems]] counts_step(2) [OF Cons.prems] by simp
    with True show ?thesis unfolding run sorted by (simp only: list.set ball_simps) blast
  next
    case False
    then show ?thesis unfolding run sorted by auto
  qed
qed

lemma accept_all_counts:
  assumes "counts v p S" and "card S + length es < 2 ^ 64" and "accept_all v es = Some w"
  shows "counts w p (S \<union> sequence_number ` set es)"
  using assms
proof (induction es arbitrary: v S)
  case Nil
  then show ?case by simp
next
  case (Cons e es)
  then have e: "producer_id e = p" "Max S < sequence_number e" and run: "accept_all (record_event v e) es = Some w"
    using counts_continues [OF Cons.prems(1)] by (simp_all only: accept_all_Cons_iff)
  have "counts w p (insert (sequence_number e) S \<union> sequence_number ` set es)"
    by (intro Cons.IH [OF _ _ run] counts_step(1,3) [OF Cons.prems(1,2) e])
  then show ?case by simp
qed

lemma sorted_Min_hd: "sorted xs \<Longrightarrow> xs \<noteq> [] \<Longrightarrow> Min (set xs) = hd xs"
  by (cases xs) (auto intro!: Min_eqI)

lemma sorted_Max_last: "sorted xs \<Longrightarrow> xs \<noteq> [] \<Longrightarrow> Max (set xs) = last xs"
  by (cases xs rule: rev_cases) (auto intro!: Max_eqI simp: sorted_append)

lemma new_validator_continues: "continues new_validator e"
  by (simp add: continues_def new_validator_def)

lemma accept_all_new_iff:
  assumes "length es < 2 ^ 64"
  shows "(\<exists>v. accept_all new_validator es = Some v) \<longleftrightarrow>
    (\<forall>e \<in> set es. event_ok e) \<and> (\<forall>e \<in> set es. \<forall>f \<in> set es. producer_id e = producer_id f) \<and>
    sorted_wrt (<) (map sequence_number es)"
proof (cases es)
  case Nil
  then show ?thesis by simp
next
  case (Cons e fs)
  have iff: "(\<exists>v. accept_all (record_event new_validator e) fs = Some v) \<longleftrightarrow>
      (\<forall>f \<in> set fs. event_ok f \<and> producer_id f = producer_id e) \<and>
      sorted_wrt (<) (sequence_number e # map sequence_number fs)" if "event_ok e"
    using accept_all_counts_iff [OF counts_first, of e fs] that assms Cons by (simp add: event_ok_def)
  have same: "(\<forall>x \<in> set (e # fs). \<forall>y \<in> set (e # fs). producer_id x = producer_id y) \<longleftrightarrow>
      (\<forall>f \<in> set fs. producer_id f = producer_id e)"
    by auto
  show ?thesis
  proof (cases "event_ok e")
    case True
    then have "(\<exists>v. accept_all new_validator es = Some v) \<longleftrightarrow>
        (\<exists>v. accept_all (record_event new_validator e) fs = Some v)"
      by (simp del: accept_all.simps add: Cons accept_all_Cons_iff new_validator_continues)
    also note iff [OF True]
    finally show ?thesis unfolding Cons same using True by (simp add: ball_conj_distrib)
  next
    case False
    then show ?thesis by (simp del: accept_all.simps add: Cons accept_all_Cons_iff)
  qed
qed

lemma stream_order:
  "accept_all new_validator es = Some v \<Longrightarrow> length es < 2 ^ 64 \<Longrightarrow> sorted_wrt (<) (map sequence_number es)"
  using accept_all_new_iff by blast

text \<open>
  C15: A stream of fewer than \<open>2 ^ 64\<close> events passes \<^verbatim>\<open>StreamValidator::accept\<close> from beginning to
  end exactly when every event is well formed on its own, all of them name one producer, and their
  sequence numbers strictly increase.
\<close>

theorem stream_accepted_iff:
  assumes "length es < 2 ^ 64"
  shows "(\<exists>v. accept_all new_validator es = Some v) \<longleftrightarrow>
    (\<forall>e \<in> set es. event_ok e) \<and> (\<forall>e \<in> set es. \<forall>f \<in> set es. producer_id e = producer_id f) \<and>
    sorted_wrt (<) (map sequence_number es)"
  by (rule accept_all_new_iff [OF assms])

text \<open>Two events of a thermometer, the second with sequence numbers 8 and 9 missing before it.\<close>

definition sample_event :: "u64 \<Rightarrow> i64 \<Rightarrow> telemetry_event" where
  "sample_event n t = \<lparr>schema_version = 1, producer_id = ''probe'', sequence_number = n,
     source_timestamp_ns = t, source_clock = CLOCK_DOMAIN_UTC,
     ev_payload = Temperature \<lparr>degrees_celsius = 0x4045000000000000\<rparr>\<rparr>"

lemma event_ok_sample: "0 < sint t \<Longrightarrow> event_ok (sample_event n t)"
  by (simp add: event_ok_def sample_event_def ClockDomain_IsValid_def f64_isfinite_def f64_magnitude_def)

theorem stream_accepted_iff_witness:
  "(\<exists>v. accept_all new_validator [sample_event 7 100, sample_event 10 90] = Some v) \<and>
   \<not> (\<exists>v. accept_all new_validator [sample_event 7 100, sample_event 7 200] = Some v)"
  using stream_accepted_iff [of "[sample_event 7 100, sample_event 10 90]"]
    stream_accepted_iff [of "[sample_event 7 100, sample_event 7 200]"]
  by (simp add: event_ok_sample) (simp add: sample_event_def)

text \<open>
  C16: The summary that \<^verbatim>\<open>populate_summary\<close> returns for an accepted stream names its producer, its
  number of events, its first and last sequence numbers, and in \<^verbatim>\<open>sequence_gaps\<close> exactly how
  many sequence numbers between those two never arrived.  No counter wraps around.
\<close>

theorem accepted_stream_summary:
  assumes "accept_all new_validator es = Some v" and "es \<noteq> []" and "length es < 2 ^ 64"
  shows "summary_producer_id (populate_summary v s) = producer_id (hd es) \<and>
    unat (summary_accepted_events (populate_summary v s)) = length es \<and>
    summary_first_sequence_number (populate_summary v s) = sequence_number (hd es) \<and>
    summary_last_sequence_number (populate_summary v s) = sequence_number (last es) \<and>
    unat (summary_sequence_gaps (populate_summary v s)) =
      card ({sequence_number (hd es)..sequence_number (last es)} - sequence_number ` set es)"
proof -
  obtain e fs where es: "es = e # fs" using assms(2) by (cases es) auto
  let ?S = "sequence_number ` set es"
  have ok: "event_ok e" and run: "accept_all (record_event new_validator e) fs = Some v"
    using assms(1) by (simp_all del: accept_all.simps add: es accept_all_Cons_iff)
  have "counts v (producer_id e) ({sequence_number e} \<union> sequence_number ` set fs)"
    using assms(3) ok by (intro accept_all_counts [OF _ _ run] counts_first) (auto simp: es event_ok_def)
  then have c: "counts v (producer_id e) ?S" by (simp add: es)
  have sorted: "sorted_wrt (<) (map sequence_number es)"
    using stream_order assms(1,3) by blast
  then have "distinct (map sequence_number es)" by (simp add: strict_sorted_iff)
  then have card: "card ?S = length es"
    using distinct_card [of "map sequence_number es"] by simp
  have "sorted (map sequence_number es)" using sorted by (simp add: strict_sorted_iff)
  then have "Min ?S = sequence_number (hd es)" and "Max ?S = sequence_number (last es)"
    using assms(2) sorted_Min_hd [of "map sequence_number es"] sorted_Max_last [of "map sequence_number es"]
    by (simp_all add: hd_map last_map)
  with c card show ?thesis by (simp add: counts_def populate_summary_def es)
qed

lemma accept_all_sample:
  "accept_all new_validator [sample_event 7 100, sample_event 10 90] =
     Some (record_event (record_event new_validator (sample_event 7 100)) (sample_event 10 90))"
  by (simp del: accept_all.simps(2) add: accept_all_Cons_iff event_ok_sample)
    (simp add: continues_def record_event_def new_validator_def sample_event_def)

theorem accepted_stream_summary_witness:
  "unat (summary_sequence_gaps (populate_summary
      (record_event (record_event new_validator (sample_event 7 100)) (sample_event 10 90)) empty_summary)) =
    card ({7..10::u64} - {7, 10})"
  using accepted_stream_summary [OF accept_all_sample, of empty_summary]
  by (simp add: sample_event_def)

end
