(* ===== verification/TF_Sink.thy ===== *)
theory TF_Sink
  imports TF_Queue TF_Writer
begin

text \<open>
  \<^verbatim>\<open>QueuedTelemetrySink\<close> of \<^verbatim>\<open>src/telemetry/queued_sink.cpp\<close>: gRPC callbacks push events into the
  bounded queue, one consumer thread takes them out and hands them to a \<^verbatim>\<open>TelemetryConsumer\<close>, and
  \<^verbatim>\<open>shutdown\<close> closes the queue and joins the thread.

  The member functions are first given as sequential definitions (\<open>try_accept\<close>, \<open>sink_stats\<close>) and
  then, for the interleavings, as the step relation \<open>sink_step\<close>: every access to an atomic and every
  critical section of the queue is one step of the producer, consumer or shutdown thread that makes
  it.  The atomics are accessed with \<^verbatim>\<open>memory_order_relaxed\<close>; since \<^verbatim>\<open>accepting_events_\<close> only ever
  goes from true to false, a relaxed load may still return true after the store, and the step
  relation allows that.

  The locale \<open>counting_consumer\<close> is the contract between the sink and the two consumers of the
  program.
\<close>

section \<open>The sink\<close>

datatype sink_result = SinkAccepted | SinkOverloaded | SinkUnavailable

record 'e sink =
  s_queue :: "'e bounded_queue"
  s_consumed_events :: u64
  s_consumer_failures :: u64
  s_accepting_events :: bool

definition new_sink :: "nat \<Rightarrow> string + 'e sink" where
  "new_sink capacity =
     (case new_queue capacity of
        Inl e \<Rightarrow> Inl e
      | Inr q \<Rightarrow> Inr \<lparr>s_queue = q, s_consumed_events = 0, s_consumer_failures = 0, s_accepting_events = True\<rparr>)"

fun push_answer :: "queue_push_result \<Rightarrow> sink_result" where
  "push_answer PushAccepted = SinkAccepted"
| "push_answer PushFull = SinkOverloaded"
| "push_answer PushClosed = SinkUnavailable"

definition try_accept :: "'e \<Rightarrow> 'e sink \<Rightarrow> sink_result \<times> 'e sink" where
  "try_accept event s =
     (if \<not> s_accepting_events s then (SinkUnavailable, s)
      else case try_push event (s_queue s) of (r, q) \<Rightarrow> (push_answer r, s\<lparr>s_queue := q\<rparr>))"

record ingestion_stats =
  st_queue :: bounded_queue_stats
  st_consumed_events :: u64
  st_consumer_failures :: u64
  st_accepting_events :: bool

definition sink_stats :: "'e sink \<Rightarrow> ingestion_stats" where
  "sink_stats s = \<lparr>st_queue = queue_stats (s_queue s), st_consumed_events = s_consumed_events s,
     st_consumer_failures = s_consumer_failures s, st_accepting_events = s_accepting_events s\<rparr>"

section \<open>Threads\<close>

text \<open>
  Where the consumer thread is in \<^verbatim>\<open>consume_loop\<close>, a thread in \<^verbatim>\<open>shutdown\<close>, and a caller in
  \<^verbatim>\<open>try_accept\<close>.
\<close>

datatype 'e consumer_pc =
  CWaitPop | CConsume 'e | CCount | CFailCount | CFailStore | CFailClose | CReturned

datatype shutdown_pc = ShIdle | ShClose | ShJoin

datatype 'e producer_pc = PIdle | PPush 'e

datatype thread_id = Producer nat | Consumer | Shutter

text \<open>
  The shared state, the program counters, and a history: the answers of the finished \<^verbatim>\<open>try_accept\<close>
  calls, the events for which \<^verbatim>\<open>consume\<close> returned true, the event for which it returned false, and
  the number of finished \<^verbatim>\<open>shutdown\<close> calls.
\<close>

record ('e, 'c) pipeline =
  y_sink :: "'e sink"
  y_consumer :: 'c
  y_cpc :: "'e consumer_pc"
  y_spc :: shutdown_pc
  y_joinable :: bool
  y_ppc :: "nat \<Rightarrow> 'e producer_pc"
  y_answers :: "(nat \<times> 'e \<times> sink_result) list"
  y_taken :: "'e list"
  y_failed :: "'e list"
  y_shutdowns :: nat

definition new_pipeline :: "'e sink \<Rightarrow> 'c \<Rightarrow> ('e, 'c) pipeline" where
  "new_pipeline s c = \<lparr>y_sink = s, y_consumer = c, y_cpc = CWaitPop, y_spc = ShIdle, y_joinable = True,
     y_ppc = (\<lambda>_. PIdle), y_answers = [], y_taken = [], y_failed = [], y_shutdowns = 0\<rparr>"

abbreviation y_queue :: "('e, 'c) pipeline \<Rightarrow> 'e bounded_queue" where
  "y_queue y \<equiv> s_queue (y_sink y)"

abbreviation set_queue :: "'e bounded_queue \<Rightarrow> ('e, 'c) pipeline \<Rightarrow> ('e, 'c) pipeline" where
  "set_queue q y \<equiv> y\<lparr>y_sink := (y_sink y)\<lparr>s_queue := q\<rparr>\<rparr>"

abbreviation stop_accepting :: "('e, 'c) pipeline \<Rightarrow> ('e, 'c) pipeline" where
  "stop_accepting y \<equiv> y\<lparr>y_sink := (y_sink y)\<lparr>s_accepting_events := False\<rparr>\<rparr>"

inductive sink_step :: "('e \<Rightarrow> 'c \<Rightarrow> bool \<times> 'c) \<Rightarrow> thread_id \<Rightarrow> ('e, 'c) pipeline \<Rightarrow> ('e, 'c) pipeline \<Rightarrow> bool"
  for consume where
  accept_refused: "y_ppc y p = PIdle \<Longrightarrow> \<not> s_accepting_events (y_sink y) \<Longrightarrow>
    sink_step consume (Producer p) y (y\<lparr>y_answers := y_answers y @ [(p, e, SinkUnavailable)]\<rparr>)"
| accept_load: "y_ppc y p = PIdle \<Longrightarrow>
    sink_step consume (Producer p) y (y\<lparr>y_ppc := (y_ppc y)(p := PPush e)\<rparr>)"
| accept_push: "y_ppc y p = PPush e \<Longrightarrow> try_push e (y_queue y) = (r, q) \<Longrightarrow>
    sink_step consume (Producer p) y
      ((set_queue q y)\<lparr>y_ppc := (y_ppc y)(p := PIdle), y_answers := y_answers y @ [(p, e, push_answer r)]\<rparr>)"
| pop_event: "y_cpc y = CWaitPop \<Longrightarrow> wait_pop (y_queue y) = Some (Some e, q) \<Longrightarrow>
    sink_step consume Consumer y ((set_queue q y)\<lparr>y_cpc := CConsume e\<rparr>)"
| pop_end: "y_cpc y = CWaitPop \<Longrightarrow> wait_pop (y_queue y) = Some (None, q) \<Longrightarrow>
    sink_step consume Consumer y ((set_queue q y)\<lparr>y_cpc := CReturned\<rparr>)"
| consume_true: "y_cpc y = CConsume e \<Longrightarrow> consume e (y_consumer y) = (True, c) \<Longrightarrow>
    sink_step consume Consumer y (y\<lparr>y_consumer := c, y_cpc := CCount, y_taken := y_taken y @ [e]\<rparr>)"
| consume_false: "y_cpc y = CConsume e \<Longrightarrow> consume e (y_consumer y) = (False, c) \<Longrightarrow>
    sink_step consume Consumer y (y\<lparr>y_consumer := c, y_cpc := CFailCount, y_failed := y_failed y @ [e]\<rparr>)"
| count_consumed: "y_cpc y = CCount \<Longrightarrow>
    sink_step consume Consumer y
      (y\<lparr>y_sink := (y_sink y)\<lparr>s_consumed_events := s_consumed_events (y_sink y) + 1\<rparr>, y_cpc := CWaitPop\<rparr>)"
| count_failure: "y_cpc y = CFailCount \<Longrightarrow>
    sink_step consume Consumer y
      (y\<lparr>y_sink := (y_sink y)\<lparr>s_consumer_failures := s_consumer_failures (y_sink y) + 1\<rparr>, y_cpc := CFailStore\<rparr>)"
| store_failure: "y_cpc y = CFailStore \<Longrightarrow>
    sink_step consume Consumer y ((stop_accepting y)\<lparr>y_cpc := CFailClose\<rparr>)"
| close_failure: "y_cpc y = CFailClose \<Longrightarrow>
    sink_step consume Consumer y ((set_queue (close (y_queue y)) y)\<lparr>y_cpc := CReturned\<rparr>)"
| shutdown_store: "y_spc y = ShIdle \<Longrightarrow>
    sink_step consume Shutter y ((stop_accepting y)\<lparr>y_spc := ShClose\<rparr>)"
| shutdown_close: "y_spc y = ShClose \<Longrightarrow>
    sink_step consume Shutter y ((set_queue (close (y_queue y)) y)\<lparr>y_spc := ShJoin\<rparr>)"
| shutdown_join: "y_spc y = ShJoin \<Longrightarrow> y_joinable y \<Longrightarrow> y_cpc y = CReturned \<Longrightarrow>
    sink_step consume Shutter y (y\<lparr>y_joinable := False, y_spc := ShIdle, y_shutdowns := Suc (y_shutdowns y)\<rparr>)"
| shutdown_joined: "y_spc y = ShJoin \<Longrightarrow> \<not> y_joinable y \<Longrightarrow>
    sink_step consume Shutter y (y\<lparr>y_spc := ShIdle, y_shutdowns := Suc (y_shutdowns y)\<rparr>)"

text \<open>A run, with the number of steps that the consumer thread makes in it.\<close>

inductive sink_run :: "('e \<Rightarrow> 'c \<Rightarrow> bool \<times> 'c) \<Rightarrow> ('e, 'c) pipeline \<Rightarrow> nat \<Rightarrow> ('e, 'c) pipeline \<Rightarrow> bool"
  for consume where
  run_refl: "sink_run consume y 0 y"
| run_step: "sink_run consume x n y \<Longrightarrow> sink_step consume t y z \<Longrightarrow>
    sink_run consume x (if t = Consumer then Suc n else n) z"

inductive_cases sink_stepE: "sink_step consume t y z"
inductive_simps sink_step_consumer: "sink_step consume Consumer y z"

text \<open>
  A scheduler: one step of a given thread, with \<open>e\<close> the event of a new \<^verbatim>\<open>try_accept\<close> call.  It is
  the step relation without the stale loads, and it computes.
\<close>

fun exec_step :: "('e \<Rightarrow> 'c \<Rightarrow> bool \<times> 'c) \<Rightarrow> thread_id \<Rightarrow> 'e \<Rightarrow> ('e, 'c) pipeline \<Rightarrow> ('e, 'c) pipeline option" where
  "exec_step consume (Producer p) e y =
     (case y_ppc y p of
        PIdle \<Rightarrow> Some (if s_accepting_events (y_sink y) then y\<lparr>y_ppc := (y_ppc y)(p := PPush e)\<rparr>
                        else y\<lparr>y_answers := y_answers y @ [(p, e, SinkUnavailable)]\<rparr>)
      | PPush e \<Rightarrow> (case try_push e (y_queue y) of (r, q) \<Rightarrow>
          Some ((set_queue q y)\<lparr>y_ppc := (y_ppc y)(p := PIdle), y_answers := y_answers y @ [(p, e, push_answer r)]\<rparr>)))"
| "exec_step consume Consumer e y =
     (case y_cpc y of
        CWaitPop \<Rightarrow> (case wait_pop (y_queue y) of
            None \<Rightarrow> None
          | Some (Some e, q) \<Rightarrow> Some ((set_queue q y)\<lparr>y_cpc := CConsume e\<rparr>)
          | Some (None, q) \<Rightarrow> Some ((set_queue q y)\<lparr>y_cpc := CReturned\<rparr>))
      | CConsume e \<Rightarrow> (case consume e (y_consumer y) of
            (True, c) \<Rightarrow> Some (y\<lparr>y_consumer := c, y_cpc := CCount, y_taken := y_taken y @ [e]\<rparr>)
          | (False, c) \<Rightarrow> Some (y\<lparr>y_consumer := c, y_cpc := CFailCount, y_failed := y_failed y @ [e]\<rparr>))
      | CCount \<Rightarrow> Some (y\<lparr>y_sink := (y_sink y)\<lparr>s_consumed_events := s_consumed_events (y_sink y) + 1\<rparr>, y_cpc := CWaitPop\<rparr>)
      | CFailCount \<Rightarrow> Some (y\<lparr>y_sink := (y_sink y)\<lparr>s_consumer_failures := s_consumer_failures (y_sink y) + 1\<rparr>, y_cpc := CFailStore\<rparr>)
      | CFailStore \<Rightarrow> Some ((stop_accepting y)\<lparr>y_cpc := CFailClose\<rparr>)
      | CFailClose \<Rightarrow> Some ((set_queue (close (y_queue y)) y)\<lparr>y_cpc := CReturned\<rparr>)
      | CReturned \<Rightarrow> None)"
| "exec_step consume Shutter e y =
     (case y_spc y of
        ShIdle \<Rightarrow> Some ((stop_accepting y)\<lparr>y_spc := ShClose\<rparr>)
      | ShClose \<Rightarrow> Some ((set_queue (close (y_queue y)) y)\<lparr>y_spc := ShJoin\<rparr>)
      | ShJoin \<Rightarrow> (if \<not> y_joinable y then Some (y\<lparr>y_spc := ShIdle, y_shutdowns := Suc (y_shutdowns y)\<rparr>)
                   else if y_cpc y = CReturned
                   then Some (y\<lparr>y_joinable := False, y_spc := ShIdle, y_shutdowns := Suc (y_shutdowns y)\<rparr>)
                   else None))"

fun exec :: "('e \<Rightarrow> 'c \<Rightarrow> bool \<times> 'c) \<Rightarrow> (thread_id \<times> 'e) list \<Rightarrow> ('e, 'c) pipeline \<Rightarrow> ('e, 'c) pipeline option" where
  "exec consume [] y = Some y"
| "exec consume ((t, e) # ts) y = (case exec_step consume t e y of None \<Rightarrow> None | Some z \<Rightarrow> exec consume ts z)"

lemma exec_step_sound: "exec_step consume t e y = Some z \<Longrightarrow> sink_step consume t y z"
  by (cases "(consume, t, e, y)" rule: exec_step.cases)
    (auto intro: sink_step.intros split: producer_pc.splits prod.splits consumer_pc.splits option.splits
      bool.splits shutdown_pc.splits if_splits)

lemma exec_sound:
  assumes "sink_run consume x n y" and "exec consume ts y = Some z"
  shows "\<exists>m. sink_run consume x m z"
  using assms
proof (induction consume ts y arbitrary: n rule: exec.induct)
  case (2 consume t e ts y)
  then obtain y1 where y1: "exec_step consume t e y = Some y1" "exec consume ts y1 = Some z"
    by (auto split: option.splits)
  show ?case
    by (rule "2.IH" [OF y1(1) run_step [OF "2.prems"(1) exec_step_sound [OF y1(1)]] y1(2)])
qed auto

section \<open>History\<close>

definition accepted_answers :: "(nat \<times> 'e \<times> sink_result) list \<Rightarrow> (nat \<times> 'e) list" where
  "accepted_answers as = map (\<lambda>(p, e, r). (p, e)) (filter (\<lambda>(p, e, r). r = SinkAccepted) as)"

text \<open>The events accepted so far, in the order in which they entered the queue.\<close>

definition pushed :: "('e, 'c) pipeline \<Rightarrow> 'e list" where
  "pushed y = map snd (accepted_answers (y_answers y))"

definition inflight :: "'e consumer_pc \<Rightarrow> 'e list" where
  "inflight pc = (case pc of CConsume e \<Rightarrow> [e] | _ \<Rightarrow> [])"

text \<open>Handing events to a consumer one after the other, until it fails.\<close>

fun feed :: "('e \<Rightarrow> 'c \<Rightarrow> bool \<times> 'c) \<Rightarrow> 'e list \<Rightarrow> 'c \<Rightarrow> bool list \<times> 'c" where
  "feed consume [] c = ([], c)"
| "feed consume (e # es) c =
     (case consume e c of (ok, c') \<Rightarrow> case feed consume es c' of (oks, c'') \<Rightarrow> (ok # oks, c''))"

lemma feed_snoc:
  "feed consume es c = (oks, c') \<Longrightarrow> consume e c' = (ok, c'') \<Longrightarrow> feed consume (es @ [e]) c = (oks @ [ok], c'')"
  by (induction es arbitrary: c oks) (auto split: prod.splits)

lemma accepted_answers_snoc:
  "accepted_answers (as @ [(p, e, r)]) = accepted_answers as @ (if r = SinkAccepted then [(p, e)] else [])"
  by (simp add: accepted_answers_def)

lemma push_answer_accepted: "push_answer r = SinkAccepted \<longleftrightarrow> r = PushAccepted"
  by (cases r) simp_all

section \<open>Invariants\<close>

text \<open>Where every accepted event is.\<close>

definition flow_inv :: "('e \<Rightarrow> 'c \<Rightarrow> bool \<times> 'c) \<Rightarrow> 'c \<Rightarrow> ('e, 'c) pipeline \<Rightarrow> bool" where
  "flow_inv consume c0 y \<longleftrightarrow> queue_inv (y_queue y) \<and>
     pushed y = y_taken y @ y_failed y @ inflight (y_cpc y) @ q_items (y_queue y) \<and>
     feed consume (y_taken y @ y_failed y) c0 =
       (replicate (length (y_taken y)) True @ replicate (length (y_failed y)) False, y_consumer y)"

text \<open>What the position of the threads implies.\<close>

definition thread_inv :: "('e, 'c) pipeline \<Rightarrow> bool" where
  "thread_inv y \<longleftrightarrow>
     length (y_failed y) = (case y_cpc y of CFailCount \<Rightarrow> 1 | CFailStore \<Rightarrow> 1 | CFailClose \<Rightarrow> 1
       | CReturned \<Rightarrow> length (y_failed y) | _ \<Rightarrow> 0) \<and> length (y_failed y) \<le> 1 \<and>
     (y_cpc y = CFailClose \<longrightarrow> \<not> s_accepting_events (y_sink y)) \<and>
     (y_cpc y = CReturned \<longrightarrow> q_closed (y_queue y) \<and>
        (if y_failed y = [] then q_items (y_queue y) = [] else \<not> s_accepting_events (y_sink y))) \<and>
     (y_spc y \<noteq> ShIdle \<longrightarrow> \<not> s_accepting_events (y_sink y)) \<and>
     (y_spc y = ShJoin \<longrightarrow> q_closed (y_queue y)) \<and>
     (\<not> y_joinable y \<longrightarrow> y_cpc y = CReturned \<and> \<not> s_accepting_events (y_sink y)) \<and>
     (0 < y_shutdowns y \<longleftrightarrow> \<not> y_joinable y)"

text \<open>What the counters say.\<close>

definition counter_inv :: "('e, 'c) pipeline \<Rightarrow> bool" where
  "counter_inv y \<longleftrightarrow>
     s_consumed_events (y_sink y) + (if y_cpc y = CCount then 1 else 0) = of_nat (length (y_taken y)) \<and>
     s_consumer_failures (y_sink y) + (if y_cpc y = CFailCount then 1 else 0) = of_nat (length (y_failed y)) \<and>
     q_accepted (y_queue y) = of_nat (length (pushed y))"

lemmas pipeline_inv_defs = flow_inv_def thread_inv_def counter_inv_def pushed_def inflight_def

lemma new_sink_Inr: "new_sink c = Inr s \<Longrightarrow> queue_inv (s_queue s) \<and> q_items (s_queue s) = [] \<and>
    q_accepted (s_queue s) = 0 \<and> q_capacity (s_queue s) = c \<and> \<not> q_closed (s_queue s) \<and> s_consumed_events s = 0 \<and> s_consumer_failures s = 0 \<and>
    s_accepting_events s"
  by (auto simp: new_sink_def new_queue_Inr queue_inv_def split: sum.splits)

lemma invs_init:
  assumes "new_sink c = Inr s"
  shows "flow_inv consume c0 (new_pipeline s c0)" "thread_inv (new_pipeline s c0)" "counter_inv (new_pipeline s c0)"
  using new_sink_Inr [OF assms] by (simp_all add: pipeline_inv_defs new_pipeline_def accepted_answers_def)

lemma push_pushed:
  assumes "try_push e q = (r, q')"
  shows "q_items q' = q_items q @ (if r = PushAccepted then [e] else [])" and "q_closed q' = q_closed q"
    and "queue_inv q \<Longrightarrow> queue_inv q'" and "q_accepted q' = q_accepted q + (if r = PushAccepted then 1 else 0)"
    and "q_closed q \<Longrightarrow> r = PushClosed"
  using assms bq.push_contents [of e q] bq.push_frame [of e q] bq.push_good [of q e] try_push_counts(1) [of e q]
  by (auto simp: try_push_def [of e q] split: if_splits)

lemma pop_cases:
  assumes "wait_pop q = Some (x, q')"
  shows "q_items q = (case x of Some e \<Rightarrow> e # q_items q' | None \<Rightarrow> [])" and "q_closed q' = q_closed q"
    and "queue_inv q \<Longrightarrow> queue_inv q'" and "q_accepted q' = q_accepted q"
    and "x = None \<Longrightarrow> q_closed q \<and> q' = q"
  using assms bq.pop_some [of q] bq.pop_none [of q] bq.pop_frame [of q x q'] bq.pop_good [of q x q'] wait_pop_counts [of q x q']
  by (auto split: option.splits)

lemma close_simps [simp]: "q_items (close q) = q_items q" "q_closed (close q)" "queue_inv (close q) = queue_inv q"
    "q_accepted (close q) = q_accepted q"
  by (simp_all add: close_def queue_inv_def)

lemma flow_step:
  assumes "sink_step consume t y z" and "flow_inv consume c0 y" and "thread_inv y"
  shows "flow_inv consume c0 z"
  using assms
proof (cases rule: sink_step.cases)
  case (accept_push p e r q)
  then show ?thesis using assms(2) push_pushed [OF accept_push(4)]
    by (auto simp: pipeline_inv_defs accepted_answers_snoc push_answer_accepted)
next
  case (pop_event e q)
  then show ?thesis using assms(2) pop_cases [OF pop_event(4)] by (auto simp: pipeline_inv_defs)
next
  case (pop_end q)
  then show ?thesis using assms(2) pop_cases [OF pop_end(4)] by (auto simp: pipeline_inv_defs)
next
  case (consume_true e c)
  then show ?thesis using assms(2,3) feed_snoc [of consume "y_taken y" c0 _ "y_consumer y" e True c]
    by (auto simp: pipeline_inv_defs replicate_append_same)
next
  case (consume_false e c)
  then show ?thesis using assms(2,3) feed_snoc [of consume "y_taken y" c0 _ "y_consumer y" e False c]
    by (auto simp: pipeline_inv_defs)
qed (auto simp: pipeline_inv_defs accepted_answers_snoc)

lemma thread_step:
  assumes "sink_step consume t y z" and "thread_inv y"
  shows "thread_inv z"
  using assms
proof (cases rule: sink_step.cases)
  case (accept_push p e r q)
  then show ?thesis using assms(2) push_pushed [OF accept_push(4)]
    by (auto simp: thread_inv_def split: consumer_pc.splits if_splits)
next
  case (pop_event e q)
  then show ?thesis using assms(2) pop_cases [OF pop_event(4)] by (auto simp: thread_inv_def)
next
  case (pop_end q)
  then show ?thesis using assms(2) pop_cases [OF pop_end(4)] by (auto simp: thread_inv_def)
qed (auto simp: thread_inv_def split: consumer_pc.splits if_splits)

lemma counter_step:
  assumes "sink_step consume t y z" and "counter_inv y"
  shows "counter_inv z"
  using assms
proof (cases rule: sink_step.cases)
  case (accept_push p e r q)
  then show ?thesis using assms(2) push_pushed [OF accept_push(4)]
    by (auto simp: pipeline_inv_defs accepted_answers_snoc push_answer_accepted)
next
  case (pop_event e q)
  then show ?thesis using assms(2) pop_cases [OF pop_event(4)] by (auto simp: pipeline_inv_defs)
next
  case (pop_end q)
  then show ?thesis using assms(2) pop_cases [OF pop_end(4)] by (auto simp: pipeline_inv_defs)
qed (auto simp: pipeline_inv_defs accepted_answers_snoc add.assoc [symmetric] algebra_simps)

lemma invs_run:
  assumes "sink_run consume y n z" and "flow_inv consume c0 y" and "thread_inv y" and "counter_inv y"
  shows "flow_inv consume c0 z \<and> thread_inv z \<and> counter_inv z"
  using assms by (induction rule: sink_run.induct) (auto intro: flow_step thread_step counter_step)

lemma pipeline_invs:
  assumes "new_sink cap = Inr s" and "sink_run consume (new_pipeline s c0) n y"
  shows "flow_inv consume c0 y" "thread_inv y" "counter_inv y"
  using invs_run [OF assms(2) invs_init [OF assms(1)]] by auto

section \<open>After the queue is closed\<close>

text \<open>How many steps the consumer thread can still make when nothing enters the queue any more.\<close>

definition steps_left :: "('e, 'c) pipeline \<Rightarrow> nat" where
  "steps_left y = (case y_cpc y of
     CWaitPop \<Rightarrow> 4 * length (q_items (y_queue y)) + 1
   | CConsume _ \<Rightarrow> 4 * length (q_items (y_queue y)) + 4
   | CCount \<Rightarrow> 4 * length (q_items (y_queue y)) + 2
   | CFailCount \<Rightarrow> 3 | CFailStore \<Rightarrow> 2 | CFailClose \<Rightarrow> 1 | CReturned \<Rightarrow> 0)"

lemma closed_step:
  assumes "sink_step consume t y z" and "q_closed (y_queue y)"
  shows "q_closed (y_queue z) \<and> pushed z = pushed y \<and>
    (if t = Consumer then steps_left z < steps_left y else steps_left z = steps_left y)"
  using assms
proof (cases rule: sink_step.cases)
  case (accept_push p e r q)
  then show ?thesis using assms(2) push_pushed [OF accept_push(4)]
    by (auto simp: pushed_def accepted_answers_snoc steps_left_def split: consumer_pc.split)
next
  case (pop_event e q)
  then show ?thesis using assms(2) pop_cases [OF pop_event(4)] by (auto simp: pushed_def steps_left_def)
next
  case (pop_end q)
  then show ?thesis using assms(2) pop_cases [OF pop_end(4)] by (auto simp: pushed_def steps_left_def)
qed (auto simp: pushed_def accepted_answers_snoc steps_left_def split: consumer_pc.split)

lemma closed_run:
  assumes "sink_run consume y n z" and "q_closed (y_queue y)"
  shows "q_closed (y_queue z) \<and> pushed z = pushed y \<and> n + steps_left z \<le> steps_left y"
  using assms
proof (induction rule: sink_run.induct)
  case (run_step x n y t z)
  then show ?case using closed_step [OF run_step.hyps(2)] by (auto split: if_splits)
qed simp

lemma consumer_enabled:
  assumes "q_closed (y_queue y)" and "y_cpc y \<noteq> CReturned"
  shows "\<exists>z. sink_step consume Consumer y z"
proof (cases "y_cpc y")
  case CWaitPop
  then show ?thesis using assms(1)
    by (cases "q_items (y_queue y)") (auto simp: sink_step_consumer wait_pop_def)
next
  case (CConsume e)
  then show ?thesis by (cases "consume e (y_consumer y)"; cases "fst (consume e (y_consumer y))")
    (auto simp: sink_step_consumer)
qed (use assms in \<open>auto simp: sink_step_consumer\<close>)

lemma drained_pipeline:
  assumes "new_sink cap = Inr s" and "sink_run consume (new_pipeline s c0) n y" and "0 < y_shutdowns y"
  shows "y_cpc y = CReturned \<and> \<not> st_accepting_events (sink_stats (y_sink y)) \<and> qs_closed (queue_stats (y_queue y)) \<and>
    (if st_consumer_failures (sink_stats (y_sink y)) = 0
     then y_taken y = pushed y \<and> q_items (y_queue y) = [] \<and>
       st_consumed_events (sink_stats (y_sink y)) = qs_accepted_items (queue_stats (y_queue y))
     else st_consumer_failures (sink_stats (y_sink y)) = 1 \<and>
       (\<exists>e. pushed y = y_taken y @ e # q_items (y_queue y) \<and> y_failed y = [e]))"
proof -
  note inv = pipeline_invs [OF assms(1,2)]
  have ret: "y_cpc y = CReturned" "q_closed (y_queue y)" "\<not> s_accepting_events (y_sink y)"
    using inv(2) assms(3) by (auto simp: thread_inv_def)
  show ?thesis
  proof (cases "y_failed y")
    case Nil
    then show ?thesis using inv ret
      by (simp add: flow_inv_def thread_inv_def counter_inv_def inflight_def sink_stats_def queue_stats_def)
  next
    case (Cons e es)
    then have "y_failed y = [e]" using inv(2) by (auto simp: thread_inv_def)
    then show ?thesis using inv ret
      by (simp add: flow_inv_def thread_inv_def counter_inv_def inflight_def sink_stats_def queue_stats_def)
  qed
qed

section \<open>The contract of a consumer\<close>

text \<open>
  A consumer that counts what it takes: every call that returns true adds one.  A call that
  returns false may or may not have stored its event.
\<close>

locale counting_consumer =
  fixes consume :: "'e \<Rightarrow> 'c \<Rightarrow> bool \<times> 'c"
    and taken_count :: "'c \<Rightarrow> u64"
  assumes consume_counts: "consume e c = (True, c') \<Longrightarrow> taken_count c' = taken_count c + 1"
    and failure_counts: "consume e c = (False, c') \<Longrightarrow> taken_count c' \<in> {taken_count c, taken_count c + 1}"
begin

lemma feed_counts:
  "feed consume es c = (replicate (length es) True, c') \<Longrightarrow> taken_count c' = taken_count c + of_nat (length es)"
proof (induction es arbitrary: c)
  case (Cons e es)
  then obtain c1 where "consume e c = (True, c1)" "feed consume es c1 = (replicate (length es) True, c')"
    by (auto split: prod.splits)
  then show ?case using Cons.IH consume_counts by simp
qed simp

text \<open>When no call failed and no count is in progress, the sink's counter agrees with the consumer's.\<close>

lemma counters_agree:
  assumes "new_sink cap = Inr s" and "sink_run consume (new_pipeline s c0) n y"
    and "y_failed y = []" and "y_cpc y \<noteq> CCount"
  shows "taken_count (y_consumer y) = taken_count c0 + s_consumed_events (y_sink y)"
  using pipeline_invs [OF assms(1,2)] assms(3,4) feed_counts [of "y_taken y" c0 "y_consumer y"]
  by (auto simp: flow_inv_def counter_inv_def)

end

text \<open>\<^verbatim>\<open>CountingConsumer\<close> of \<^verbatim>\<open>app/main.cpp\<close>; its delay has no effect on the state.\<close>

record counting_state =
  cc_delay :: int
  cc_accepted_events :: u64

definition counting_consume :: "collected_event \<Rightarrow> counting_state \<Rightarrow> bool \<times> counting_state" where
  "counting_consume e c = (True, c\<lparr>cc_accepted_events := cc_accepted_events c + 1\<rparr>)"

interpretation cc: counting_consumer counting_consume cc_accepted_events
  by unfold_locales (auto simp: counting_consume_def)

section \<open>Properties\<close>

text \<open>
  C9: Delivery.  In every interleaving of any number of callers, the consumer thread and shutdown,
  the events accepted so far are, in the order in which they were accepted, those the consumer took,
  the one it failed on (at most one), the one it is working on, and those still queued.  So no event
  is lost, duplicated or reordered on its way to the consumer, the consumer's state is the result of
  handing it exactly those events, and it is never called again after it returned false.
\<close>

theorem sink_delivers:
  assumes "new_sink cap = Inr s" and "sink_run consume (new_pipeline s c0) n y"
  shows "pushed y = y_taken y @ y_failed y @ inflight (y_cpc y) @ q_items (y_queue y) \<and>
    length (y_failed y) \<le> 1 \<and> (y_failed y \<noteq> [] \<longrightarrow> inflight (y_cpc y) = []) \<and>
    length (q_items (y_queue y)) \<le> q_capacity (y_queue y) \<and>
    feed consume (y_taken y @ y_failed y) c0 =
      (replicate (length (y_taken y)) True @ replicate (length (y_failed y)) False, y_consumer y)"
proof -
  note inv = pipeline_invs [OF assms]
  have "y_failed y \<noteq> [] \<longrightarrow> inflight (y_cpc y) = []"
    using inv(2) by (auto simp: thread_inv_def inflight_def split: consumer_pc.splits)
  then show ?thesis using inv bq.good_bound [of "y_queue y"] by (simp add: flow_inv_def thread_inv_def)
qed

text \<open>A consumer that fails on zero, and a schedule with two callers in which it succeeds twice.\<close>

definition sample_consume :: "nat \<Rightarrow> nat list \<Rightarrow> bool \<times> nat list" where
  "sample_consume e c = (e \<noteq> 0, c @ [e])"

definition sample_sink :: "nat sink" where
  "sample_sink = \<lparr>s_queue = \<lparr>q_capacity = 2, q_items = [], q_high_watermark = 0, q_accepted = 0, q_rejected = 0, q_closed = False\<rparr>,
     s_consumed_events = 0, s_consumer_failures = 0, s_accepting_events = True\<rparr>"

definition sample_schedule :: "nat \<Rightarrow> nat \<Rightarrow> (thread_id \<times> nat) list" where
  "sample_schedule a b = [(Producer 0, a), (Producer 1, b), (Producer 1, 9), (Producer 0, 9), (Shutter, 9), (Producer 0, 7),
     (Consumer, 9), (Consumer, 9), (Consumer, 9), (Shutter, 9)]"

definition sample_rest :: "(thread_id \<times> nat) list" where
  "sample_rest = [(Consumer, 9), (Consumer, 9), (Consumer, 9), (Consumer, 9), (Shutter, 9)]"

lemmas sample_sink_defs = sample_schedule_def sample_rest_def new_pipeline_def sample_sink_def sample_consume_def
  try_push_def wait_pop_def close_def Let_def pushed_def accepted_answers_def inflight_def queue_stats_def sink_stats_def

lemma sample_sink_new: "new_sink 2 = Inr sample_sink"
  by (simp add: new_sink_def new_queue_def sample_sink_def)

lemma sample_exec:
  "\<exists>n. sink_run sample_consume (new_pipeline sample_sink []) n
     (the (exec sample_consume (sample_schedule a b) (new_pipeline sample_sink [])))"
  if "exec sample_consume (sample_schedule a b) (new_pipeline sample_sink []) \<noteq> None"
  using exec_sound [OF run_refl] that by (metis option.exhaust_sel)

theorem sink_delivers_witness:
  "\<exists>y :: (nat, nat list) pipeline. pushed y = [5, 4] \<and> pushed y = y_taken y @ y_failed y @ inflight (y_cpc y) @ q_items (y_queue y)"
proof -
  let ?y = "the (exec sample_consume (sample_schedule 4 5) (new_pipeline sample_sink []))"
  obtain n where "sink_run sample_consume (new_pipeline sample_sink []) n ?y"
    using sample_exec [of 4 5] by (auto simp: sample_sink_defs)
  from sink_delivers [OF sample_sink_new this] show ?thesis
    by (intro exI [of _ ?y]) (simp add: sample_sink_defs)
qed

text \<open>
  C10: Shutdown drains.  Once a call of \<^verbatim>\<open>shutdown\<close> has returned, the consumer thread is gone, the
  sink refuses events, and: if the failure counter is zero, every event that was ever accepted has
  been taken by the consumer, and \<^verbatim>\<open>consumed_events\<close> equals the queue's \<^verbatim>\<open>accepted_items\<close>;
  otherwise the consumer failed exactly once, on the event after those it took.
\<close>

theorem shutdown_drains:
  assumes "new_sink cap = Inr s" and "sink_run consume (new_pipeline s c0) n y" and "0 < y_shutdowns y"
  shows "y_cpc y = CReturned \<and> \<not> st_accepting_events (sink_stats (y_sink y)) \<and> qs_closed (queue_stats (y_queue y)) \<and>
    (if st_consumer_failures (sink_stats (y_sink y)) = 0
     then y_taken y = pushed y \<and> q_items (y_queue y) = [] \<and>
       st_consumed_events (sink_stats (y_sink y)) = qs_accepted_items (queue_stats (y_queue y))
     else st_consumer_failures (sink_stats (y_sink y)) = 1 \<and>
       (\<exists>e. pushed y = y_taken y @ e # q_items (y_queue y) \<and> y_failed y = [e]))"
  by (rule drained_pipeline [OF assms])

theorem shutdown_drains_witness:
  "\<exists>y :: (nat, nat list) pipeline. 0 < y_shutdowns y \<and> y_cpc y = CReturned \<and> y_taken y = pushed y \<and> pushed y = [5, 4]"
proof -
  let ?y = "the (exec sample_consume (sample_schedule 4 5 @ sample_rest) (new_pipeline sample_sink []))"
  have "exec sample_consume (sample_schedule 4 5 @ sample_rest) (new_pipeline sample_sink []) = Some ?y"
    by (simp add: sample_sink_defs)
  then obtain n where "sink_run sample_consume (new_pipeline sample_sink []) n ?y"
    using exec_sound [OF run_refl] by blast
  from shutdown_drains [OF sample_sink_new this] show ?thesis
    by (intro exI [of _ ?y]) (simp add: sample_sink_defs)
qed

text \<open>
  C18: Joining terminates.  From any state in which the queue is closed, nothing more is accepted,
  however the run goes on; the consumer thread makes at most four steps per queued event and four
  more; and as long as it has not returned it can make a step.  So \<^verbatim>\<open>shutdown\<close> cannot wait forever
  for a consumer thread that is scheduled and whose \<^verbatim>\<open>consume\<close> calls return.
\<close>

theorem closed_queue_drains:
  assumes "q_closed (y_queue y)" and "sink_run consume y n z"
  shows "pushed z = pushed y \<and> q_closed (y_queue z) \<and> n \<le> 4 * length (q_items (y_queue y)) + 4 \<and>
    (y_cpc z \<noteq> CReturned \<longrightarrow> (\<exists>z'. sink_step consume Consumer z z'))"
proof -
  have "n + steps_left z \<le> steps_left y" "q_closed (y_queue z)" "pushed z = pushed y"
    using closed_run [OF assms(2,1)] by auto
  moreover have "steps_left y \<le> 4 * length (q_items (y_queue y)) + 4"
    by (simp add: steps_left_def split: consumer_pc.splits)
  ultimately show ?thesis using consumer_enabled by fastforce
qed

theorem closed_queue_drains_witness:
  "\<exists>y z n. q_closed (y_queue y) \<and> length (q_items (y_queue y)) = 1 \<and> sink_run sample_consume y n z \<and> n \<le> 8"
proof -
  let ?y = "the (exec sample_consume (sample_schedule 4 5) (new_pipeline sample_sink []))"
  let ?z = "the (exec sample_consume sample_rest ?y)"
  have y: "q_closed (y_queue ?y)" "length (q_items (y_queue ?y)) = 1" by (simp_all add: sample_sink_defs)
  have "exec sample_consume sample_rest ?y = Some ?z" by (simp add: sample_sink_defs)
  then obtain n where run: "sink_run sample_consume ?y n ?z" using exec_sound [OF run_refl] by blast
  from closed_queue_drains [OF y(1) run] y(2) have "n \<le> 8" by simp
  with y run show ?thesis by blast
qed

end
