(* ===== verification/TF_Collector.thy ===== *)
theory TF_Collector
  imports TF_Sink
begin

text \<open>
  The gRPC service of \<^verbatim>\<open>src/telemetry/collector_service.cpp\<close>.  gRPC calls \<^verbatim>\<open>OnReadDone\<close> once for
  every \<^verbatim>\<open>StartRead\<close>: with true after it has stored a message in \<^verbatim>\<open>event_\<close>, with false when the
  client half-closes or the call is cancelled.  After \<^verbatim>\<open>Finish\<close> no further read is started.

  The sink is any state \<open>'s\<close> with a \<open>try_accept\<close> operation, as in the source; what other streams and
  the consumer thread do to it between two callbacks is an arbitrary function of the input.  The
  locale \<open>telemetry_sink\<close> is the contract of \<^verbatim>\<open>TelemetrySink\<close>.
\<close>

section \<open>The reactor\<close>

datatype status_code = GrpcOK | GrpcInvalidArgument | GrpcResourceExhausted | GrpcUnavailable

record grpc_status =
  gs_code :: status_code
  gs_message :: string

record stream_reactor =
  sr_response :: stream_summary
  sr_validator :: stream_validator
  sr_event :: telemetry_event
  sr_reading :: bool
  sr_finished :: "grpc_status option"

definition StartRead :: "stream_reactor \<Rightarrow> stream_reactor" where
  "StartRead r = r\<lparr>sr_reading := True\<rparr>"

definition Finish :: "status_code \<Rightarrow> string \<Rightarrow> stream_reactor \<Rightarrow> stream_reactor" where
  "Finish code message r = r\<lparr>sr_finished := Some \<lparr>gs_code = code, gs_message = message\<rparr>\<rparr>"

definition new_reactor :: "stream_summary \<Rightarrow> stream_reactor" where
  "new_reactor response = StartRead \<lparr>sr_response = response, sr_validator = new_validator,
     sr_event = empty_event, sr_reading = False, sr_finished = None\<rparr>"

definition OnReadDone ::
  "(collected_event \<Rightarrow> 's \<Rightarrow> sink_result \<times> 's) \<Rightarrow> i64 \<Rightarrow> bool \<Rightarrow> stream_reactor \<Rightarrow> 's \<Rightarrow>
     (collected_event \<times> sink_result) option \<times> stream_reactor \<times> 's" where
  "OnReadDone offer now ok r s =
     (if \<not> ok
      then (None, Finish GrpcOK [] (r\<lparr>sr_response := populate_summary (sr_validator r) (sr_response r)\<rparr>), s)
      else case accept (sr_validator r) (sr_event r) of (validation, v) \<Rightarrow>
        let r = r\<lparr>sr_validator := v\<rparr>
        in if \<not> accepted validation
           then (None, Finish GrpcInvalidArgument (error validation) r, s)
           else let collected = \<lparr>ce_event = sr_event r, ce_arrival_ns = now\<rparr>
                in case offer collected s of
                     (SinkAccepted, s) \<Rightarrow>
                       (Some (collected, SinkAccepted), StartRead (r\<lparr>sr_event := empty_event\<rparr>), s)
                   | (SinkOverloaded, s) \<Rightarrow>
                       (Some (collected, SinkOverloaded),
                        Finish GrpcResourceExhausted ''telemetry queue reached its fixed capacity'' r, s)
                   | (SinkUnavailable, s) \<Rightarrow>
                       (Some (collected, SinkUnavailable),
                        Finish GrpcUnavailable ''telemetry ingestion pipeline is unavailable'' r, s))"

text \<open>What the client and the clock do next, and what happens to the sink before that.\<close>

record 's stream_input =
  si_message :: "telemetry_event option"
  si_now :: i64
  si_others :: "'s \<Rightarrow> 's"

text \<open>The gRPC runtime: it fills \<^verbatim>\<open>event_\<close> and calls \<^verbatim>\<open>OnReadDone\<close> as long as a read is pending.\<close>

definition grpc_read ::
  "(collected_event \<Rightarrow> 's \<Rightarrow> sink_result \<times> 's) \<Rightarrow> 's stream_input \<Rightarrow> stream_reactor \<Rightarrow> 's \<Rightarrow>
     (collected_event \<times> sink_result) option \<times> stream_reactor \<times> 's" where
  "grpc_read offer i r s =
     (let r = r\<lparr>sr_reading := False\<rparr>; s = si_others i s
      in case si_message i of
           Some m \<Rightarrow> OnReadDone offer (si_now i) True (r\<lparr>sr_event := m\<rparr>) s
         | None \<Rightarrow> OnReadDone offer (si_now i) False r s)"

fun StreamTelemetry ::
  "(collected_event \<Rightarrow> 's \<Rightarrow> sink_result \<times> 's) \<Rightarrow> 's stream_input list \<Rightarrow> stream_reactor \<Rightarrow> 's \<Rightarrow>
     (collected_event \<times> sink_result) list \<times> stream_reactor \<times> 's" where
  "StreamTelemetry offer [] r s = ([], r, s)"
| "StreamTelemetry offer (i # is) r s =
     (if \<not> sr_reading r then ([], r, s)
      else case grpc_read offer i r s of (call, r, s) \<Rightarrow>
           case StreamTelemetry offer is r s of (calls, r, s) \<Rightarrow>
             ((case call of None \<Rightarrow> [] | Some c \<Rightarrow> [c]) @ calls, r, s))"

section \<open>The contract of a sink\<close>

text \<open>A status that blames the sink tells the truth about it.\<close>

definition status_true :: "grpc_status option \<Rightarrow> bool \<Rightarrow> bool \<Rightarrow> bool" where
  "status_true f is_full is_stopped \<longleftrightarrow> (\<forall>st. f = Some st \<longrightarrow>
     (gs_code st = GrpcResourceExhausted \<longrightarrow> is_full) \<and> (gs_code st = GrpcUnavailable \<longrightarrow> is_stopped))"

locale telemetry_sink =
  fixes try_acc :: "collected_event \<Rightarrow> 's \<Rightarrow> sink_result \<times> 's"
    and received :: "'s \<Rightarrow> collected_event list"
    and full :: "'s \<Rightarrow> bool"
    and stopped :: "'s \<Rightarrow> bool"
  assumes received_accepted: "try_acc e s = (SinkAccepted, s') \<Longrightarrow> received s' = received s @ [e]"
    and received_rejected: "try_acc e s = (r, s') \<Longrightarrow> r \<noteq> SinkAccepted \<Longrightarrow> received s' = received s"
    and overloaded_full: "try_acc e s = (SinkOverloaded, s') \<Longrightarrow> full s'"
    and unavailable_stopped: "try_acc e s = (SinkUnavailable, s') \<Longrightarrow> stopped s'"
begin

text \<open>What a sink that nobody else uses has received from a stream is what it answered with accepted.\<close>

lemma OnReadDone_received:
  "OnReadDone try_acc now ok r s = (call, r', s') \<Longrightarrow>
     received s' = received s @ map fst (filter (\<lambda>c. snd c = SinkAccepted) (case call of None \<Rightarrow> [] | Some c \<Rightarrow> [c]))"
  using received_accepted [of _ s] received_rejected [of _ s]
  by (fastforce simp: OnReadDone_def Let_def split: if_splits prod.splits sink_result.splits)

lemma stream_received:
  assumes "StreamTelemetry try_acc is r s = (calls, r', s')" and "\<forall>i \<in> set is. \<forall>s. si_others i s = s"
  shows "received s' = received s @ map fst (filter (\<lambda>c. snd c = SinkAccepted) calls)"
  using assms
proof (induction "is" arbitrary: r s calls)
  case (Cons i "is")
  show ?case
  proof (cases "sr_reading r")
    case True
    obtain call r1 s1 where one: "grpc_read try_acc i r s = (call, r1, s1)" by (metis prod_cases3)
    then obtain calls1 where rest: "StreamTelemetry try_acc is r1 s1 = (calls1, r', s')"
        "calls = (case call of None \<Rightarrow> [] | Some c \<Rightarrow> [c]) @ calls1"
      using Cons.prems(1) True by (auto split: prod.splits)
    have "received s1 = received s @ map fst (filter (\<lambda>c. snd c = SinkAccepted) (case call of None \<Rightarrow> [] | Some c \<Rightarrow> [c]))"
      using one Cons.prems(2) OnReadDone_received by (auto simp: grpc_read_def Let_def split: option.splits)
    moreover have "\<forall>i \<in> set is. \<forall>s. si_others i s = s" using Cons.prems(2) by simp
    ultimately show ?thesis using Cons.IH [OF rest(1)] rest(2) by simp
  qed (use Cons.prems in auto)
qed auto

lemma grpc_read_status:
  "grpc_read try_acc i r s = (call, r', s') \<Longrightarrow> sr_finished r = None \<Longrightarrow>
     status_true (sr_finished r') (full s') (stopped s') \<and> (sr_finished r' = None) = sr_reading r'"
  using overloaded_full [of _ "si_others i s"] unavailable_stopped [of _ "si_others i s"]
  by (auto simp: status_true_def grpc_read_def OnReadDone_def Let_def Finish_def StartRead_def
      split: option.splits if_splits prod.splits sink_result.splits)

lemma stream_status:
  assumes "StreamTelemetry try_acc is r s = (calls, r', s')" and "status_true (sr_finished r) (full s) (stopped s)"
    and "(sr_finished r = None) = sr_reading r"
  shows "status_true (sr_finished r') (full s') (stopped s')"
  using assms
proof (induction "is" arbitrary: r s calls)
  case (Cons i "is")
  show ?case
  proof (cases "sr_reading r")
    case True
    obtain call r1 s1 where one: "grpc_read try_acc i r s = (call, r1, s1)" by (metis prod_cases3)
    then obtain calls1 where rest: "StreamTelemetry try_acc is r1 s1 = (calls1, r', s')"
      using Cons.prems(1) True by (auto split: prod.splits)
    have "sr_finished r = None" using Cons.prems(3) True by simp
    from grpc_read_status [OF one this] show ?thesis using Cons.IH [OF rest] by simp
  qed (use Cons.prems in auto)
qed auto

end

interpretation qs: telemetry_sink try_accept "\<lambda>s. q_items (s_queue s)"
  "\<lambda>s. length (q_items (s_queue s)) = q_capacity (s_queue s)" "\<lambda>s. \<not> s_accepting_events s \<or> q_closed (s_queue s)"
proof unfold_locales
  fix e s s' r
  show "length (q_items (s_queue s')) = q_capacity (s_queue s')" if "try_accept e s = (SinkOverloaded, s')"
    using that by (auto simp: try_accept_def try_push_def Let_def split: if_splits)
  show "\<not> s_accepting_events s' \<or> q_closed (s_queue s')" if "try_accept e s = (SinkUnavailable, s')"
    using that by (auto simp: try_accept_def try_push_def Let_def split: if_splits)
  show "q_items (s_queue s') = q_items (s_queue s) @ [e]" if "try_accept e s = (SinkAccepted, s')"
    using that push_pushed(1) [of e "s_queue s"]
    by (auto simp: try_accept_def push_answer_accepted split: if_splits prod.splits)
  show "q_items (s_queue s') = q_items (s_queue s)" if "try_accept e s = (r, s')" "r \<noteq> SinkAccepted"
    using that push_pushed(1) [of e "s_queue s"]
    by (auto simp: try_accept_def push_answer_accepted split: if_splits prod.splits)
qed

section \<open>The course of a stream\<close>

abbreviation all_accepted :: "(collected_event \<times> sink_result) list \<Rightarrow> bool" where
  "all_accepted calls \<equiv> \<forall>c \<in> set calls. snd c = SinkAccepted"

definition collected_at :: "'s stream_input \<Rightarrow> collected_event" where
  "collected_at i = \<lparr>ce_event = the (si_message i), ce_arrival_ns = si_now i\<rparr>"

text \<open>How a stream that began with the reactor \<open>r\<close> ended, by the status it finished with.\<close>

fun ends_with :: "grpc_status option \<Rightarrow> 's stream_input list \<Rightarrow> (collected_event \<times> sink_result) list \<Rightarrow>
    stream_validator \<Rightarrow> bool" where
  "ends_with None is calls v \<longleftrightarrow> all_accepted calls \<and> length calls = length is"
| "ends_with (Some st) is calls v \<longleftrightarrow>
     (case gs_code st of
        GrpcOK \<Rightarrow> all_accepted calls \<and> length calls < length is \<and> si_message (is ! length calls) = None
      | GrpcInvalidArgument \<Rightarrow> all_accepted calls \<and> length calls < length is \<and>
          (\<exists>m. si_message (is ! length calls) = Some m \<and> \<not> accepted (fst (accept v m)) \<and>
             gs_message st = error (fst (accept v m)))
      | GrpcResourceExhausted \<Rightarrow> calls \<noteq> [] \<and> all_accepted (butlast calls) \<and> snd (last calls) = SinkOverloaded
      | GrpcUnavailable \<Rightarrow> calls \<noteq> [] \<and> all_accepted (butlast calls) \<and> snd (last calls) = SinkUnavailable)"

definition stream_course :: "stream_reactor \<Rightarrow> 's stream_input list \<Rightarrow> (collected_event \<times> sink_result) list \<Rightarrow>
    stream_reactor \<Rightarrow> bool" where
  "stream_course r is calls r' \<longleftrightarrow> length calls \<le> length is \<and>
     map fst calls = map collected_at (take (length calls) is) \<and>
     (\<forall>i \<in> set (take (length calls) is). si_message i \<noteq> None) \<and>
     accept_all (sr_validator r) (map (ce_event \<circ> fst) calls) = Some (sr_validator r') \<and>
     ends_with (sr_finished r') is calls (sr_validator r') \<and>
     sr_reading r' = (sr_finished r' = None) \<and>
     sr_response r' = (if (\<exists>st. sr_finished r' = Some st \<and> gs_code st = GrpcOK)
                       then populate_summary (sr_validator r') (sr_response r) else sr_response r)"

lemma not_reading: "\<not> sr_reading r \<Longrightarrow> StreamTelemetry offer is r s = ([], r, s)"
  by (cases "is") auto

text \<open>One callback: the stream goes on after an accepted event, and is over otherwise.\<close>

lemma grpc_read_cases:
  assumes "grpc_read offer i r s = (call, r', s')" and "sr_finished r = None"
  obtains
    (more) m where "si_message i = Some m" "accept (sr_validator r) m = (accept_ok, sr_validator r')"
      "call = Some (collected_at i, SinkAccepted)" "sr_reading r'" "sr_finished r' = None" "sr_response r' = sr_response r"
  | (over) "stream_course r [i] (case call of None \<Rightarrow> [] | Some c \<Rightarrow> [c]) r'" "\<not> sr_reading r'" "sr_finished r' \<noteq> None"
proof (cases "si_message i")
  case None
  then show ?thesis using assms
    by (intro over) (auto simp: grpc_read_def Let_def OnReadDone_def Finish_def stream_course_def)
next
  case (Some m)
  obtain x v where acc: "accept (sr_validator r) m = (x, v)" by (metis surj_pair)
  show ?thesis
  proof (cases "accepted x")
    case False
    then show ?thesis using assms Some acc accept_state [of "sr_validator r" m]
      by (intro over) (auto simp: grpc_read_def Let_def OnReadDone_def Finish_def stream_course_def)
  next
    case True
    then have x: "x = accept_ok" using acc by (auto simp: accept_def Let_def split: if_splits)
    obtain a s1 where a: "offer (collected_at i) (si_others i s) = (a, s1)" by (metis surj_pair)
    note defs = grpc_read_def Let_def OnReadDone_def Finish_def StartRead_def stream_course_def collected_at_def
    show ?thesis
    proof (cases "a = SinkAccepted")
      case True
      then show ?thesis using assms Some acc x a by (intro more [OF Some]) (auto simp: defs)
    next
      case False
      then show ?thesis using assms Some acc x a by (cases a) (auto simp: defs intro!: over)
    qed
  qed
qed

lemma ends_with_Cons:
  "snd c = SinkAccepted \<Longrightarrow> ends_with f is calls v \<Longrightarrow> ends_with f (i # is) (c # calls) v"
  by (cases f) (auto split: status_code.splits)

lemma stream_course_Cons:
  assumes "si_message i = Some m" and "accept (sr_validator r) m = (accept_ok, sr_validator r1)"
    and "sr_response r1 = sr_response r" and "stream_course r1 is calls r'"
  shows "stream_course r (i # is) ((collected_at i, SinkAccepted) # calls) r'"
  using assms ends_with_Cons [of "(collected_at i, SinkAccepted)" "sr_finished r'" "is" calls "sr_validator r'" i]
  by (auto simp: stream_course_def collected_at_def)

lemma stream_course_over:
  assumes "stream_course r [i] calls r'" and "sr_finished r' \<noteq> None"
  shows "stream_course r (i # is) calls r'"
proof -
  have "length calls \<le> 1" using assms(1) by (auto simp: stream_course_def)
  moreover from this have "length calls \<le> Suc (length is)" by simp
  moreover have "ends_with (sr_finished r') (i # is) calls (sr_validator r')"
    using assms calculation(1) by (auto simp: stream_course_def le_Suc_eq split: status_code.splits)
  ultimately show ?thesis using assms(1) by (auto simp: stream_course_def le_Suc_eq)
qed

lemma stream_course_run:
  assumes "StreamTelemetry offer is r s = (calls, r', s')" and "sr_reading r" and "sr_finished r = None"
  shows "stream_course r is calls r'"
  using assms
proof (induction "is" arbitrary: r s calls)
  case Nil
  then show ?case by (simp add: stream_course_def)
next
  case (Cons i "is")
  obtain call r1 s1 where one: "grpc_read offer i r s = (call, r1, s1)" by (metis prod_cases3)
  then obtain calls1 where rest: "StreamTelemetry offer is r1 s1 = (calls1, r', s')"
      "calls = (case call of None \<Rightarrow> [] | Some c \<Rightarrow> [c]) @ calls1"
    using Cons.prems by (auto split: prod.splits)
  from one Cons.prems(3) show ?case
  proof (cases rule: grpc_read_cases)
    case (more m)
    then show ?thesis using stream_course_Cons [OF more(1,2,6) Cons.IH [OF rest(1)]] rest(2) by simp
  next
    case over
    then have "r' = r1" "calls1 = []" using rest(1) not_reading [of r1 offer "is" s1] by auto
    then show ?thesis using stream_course_over [OF over(1,3)] rest(2) by simp
  qed
qed

lemma new_reactor_simps: "sr_response (new_reactor response) = response" "sr_validator (new_reactor response) = new_validator"
    "sr_reading (new_reactor response)" "sr_finished (new_reactor response) = None"
  by (simp_all add: new_reactor_def StartRead_def)

section \<open>Properties\<close>

text \<open>
  C11: A stream of telemetry, whatever the client sends, whatever the sink answers and whatever
  happens to the sink in between.  The events offered to the sink are the messages received so far,
  in order, each with the time of its arrival, and every one of them passed validation.  As long as
  the call has no status, all messages were offered and accepted.  Status \<^verbatim>\<open>OK\<close> means that the client
  ended the stream and everything before was accepted, and only then is the response filled in, with
  the summary of exactly these events.  \<^verbatim>\<open>INVALID_ARGUMENT\<close> carries the validator's message about the
  first invalid message, which is not offered to the sink.  \<^verbatim>\<open>RESOURCE_EXHAUSTED\<close> and \<^verbatim>\<open>UNAVAILABLE\<close>
  mean that the sink refused the last event offered.
\<close>

theorem stream_telemetry_course:
  assumes "StreamTelemetry offer is (new_reactor response) s = (calls, r, s')"
  shows "map fst calls = map collected_at (take (length calls) is) \<and>
    (\<forall>i \<in> set (take (length calls) is). si_message i \<noteq> None) \<and>
    accept_all new_validator (map (ce_event \<circ> fst) calls) = Some (sr_validator r) \<and>
    ends_with (sr_finished r) is calls (sr_validator r) \<and>
    sr_response r = (if (\<exists>st. sr_finished r = Some st \<and> gs_code st = GrpcOK)
                     then populate_summary (sr_validator r) response else response)"
  using stream_course_run [OF assms] unfolding stream_course_def by (simp add: new_reactor_simps cong: if_cong)

text \<open>A client that sends two messages and ends the stream, and one whose second message is stale.\<close>

definition sample_stream :: "telemetry_event option list \<Rightarrow> 's stream_input list" where
  "sample_stream ms = map (\<lambda>m. \<lparr>si_message = m, si_now = 500, si_others = id\<rparr>) ms"

definition sample_queued_sink :: "nat \<Rightarrow> collected_event sink" where
  "sample_queued_sink cap = \<lparr>s_queue = \<lparr>q_capacity = cap, q_items = [], q_high_watermark = 0, q_accepted = 0, q_rejected = 0, q_closed = False\<rparr>,
     s_consumed_events = 0, s_consumer_failures = 0, s_accepting_events = True\<rparr>"

lemmas sample_stream_defs = sample_stream_def sample_queued_sink_def new_reactor_def StartRead_def grpc_read_def OnReadDone_def
  Let_def Finish_def try_accept_def try_push_def accept_def new_validator_def record_event_def sample_event_def
  ClockDomain_IsValid_def f64_isfinite_def f64_magnitude_def

theorem stream_telemetry_course_witness:
  "let (calls, r, s) = StreamTelemetry try_accept (sample_stream [Some (sample_event 7 100), Some (sample_event 7 200), None])
         (new_reactor empty_summary) (sample_queued_sink 4)
   in accept_all new_validator (map (ce_event \<circ> fst) calls) = Some (sr_validator r) \<and> length calls = 1 \<and>
      map_option gs_code (sr_finished r) = Some GrpcInvalidArgument"
proof -
  let ?run = "StreamTelemetry try_accept (sample_stream [Some (sample_event 7 100), Some (sample_event 7 200), None])
         (new_reactor empty_summary) (sample_queued_sink 4)"
  obtain calls r s where run: "?run = (calls, r, s)" by (metis prod_cases3)
  have "length (fst ?run) = 1" "map_option gs_code (sr_finished (fst (snd ?run))) = Some GrpcInvalidArgument"
    by (simp_all add: sample_stream_defs)
  then show ?thesis using stream_telemetry_course [OF run] by (simp add: run)
qed

text \<open>
  C19: A stream on the \<^verbatim>\<open>QueuedTelemetrySink\<close> while nobody else touches the sink.  Behind what was
  in the queue before stand exactly the events that were accepted, in the order received.  If the
  call ends with \<^verbatim>\<open>RESOURCE_EXHAUSTED\<close> then the queue is filled to its capacity, and if it ends with
  \<^verbatim>\<open>UNAVAILABLE\<close> then the sink has stopped accepting or its queue is closed.
\<close>

theorem stream_fills_queue:
  assumes "StreamTelemetry try_accept is (new_reactor response) s = (calls, r, s')"
    and "\<forall>i \<in> set is. \<forall>s. si_others i s = s"
  shows "q_items (s_queue s') = q_items (s_queue s) @ map fst (filter (\<lambda>c. snd c = SinkAccepted) calls) \<and>
    (map_option gs_code (sr_finished r) = Some GrpcResourceExhausted \<longrightarrow>
       length (q_items (s_queue s')) = q_capacity (s_queue s')) \<and>
    (map_option gs_code (sr_finished r) = Some GrpcUnavailable \<longrightarrow>
       \<not> s_accepting_events s' \<or> q_closed (s_queue s'))"
  using qs.stream_received [OF assms] qs.stream_status [OF assms(1)]
  by (auto simp: status_true_def new_reactor_simps)

theorem stream_fills_queue_witness:
  "let (calls, r, s) = StreamTelemetry try_accept (sample_stream [Some (sample_event 7 100), Some (sample_event 8 200)])
         (new_reactor empty_summary) (sample_queued_sink 1)
   in map_option gs_code (sr_finished r) = Some GrpcResourceExhausted \<and> length (q_items (s_queue s)) = q_capacity (s_queue s)"
proof -
  let ?run = "StreamTelemetry try_accept (sample_stream [Some (sample_event 7 100), Some (sample_event 8 200)])
         (new_reactor empty_summary) (sample_queued_sink 1)"
  obtain calls r s where run: "?run = (calls, r, s)" by (metis prod_cases3)
  have "map_option gs_code (sr_finished (fst (snd ?run))) = Some GrpcResourceExhausted"
    by (simp add: sample_stream_defs)
  moreover have others: "\<forall>i \<in> set (sample_stream [Some (sample_event 7 100), Some (sample_event 8 200)]). \<forall>s. si_others i s = s"
    by (simp add: sample_stream_def)
  ultimately show ?thesis unfolding run Let_def using conjunct2 [OF stream_fills_queue [OF run others]]
    by (simp add: run del: One_nat_def)
qed

end
