(* ===== verification/TF_Reader.thy ===== *)
theory TF_Reader
  imports TF_Writer
begin

text \<open>
  \<^verbatim>\<open>read_log\<close> and \<^verbatim>\<open>recover_truncated_tail\<close> of \<^verbatim>\<open>src/recording/log.cpp\<close>.  The \<^verbatim>\<open>while\<close>
  loop is \<open>read_records\<close>; \<open>read_record\<close> is its body, with \<open>Inl\<close> for the early returns.  Offsets and
  sizes keep their 64 bits, and the termination proof shows that \<open>offset\<close> never wraps.
  \<^verbatim>\<open>ParseFromArray\<close> is the argument \<open>parse\<close>.
\<close>

section \<open>Results\<close>

datatype log_read_status = Complete | TruncatedTail | Corrupt | IoError | ResourceLimit

record log_record =
  lr_record_index :: u64
  lr_file_offset :: u64
  lr_collector_arrival_timestamp_ns :: i64
  lr_event :: telemetry_event

record log_index_entry =
  ix_record_index :: u64
  ix_file_offset :: u64
  ix_payload_size :: u32
  ix_payload_crc32c :: u32
  ix_collector_arrival_timestamp_ns :: i64
  ix_source_timestamp_ns :: i64

record log_read_options =
  maximum_records :: nat
  retain_records :: bool

record log_read_result =
  rr_status :: log_read_status
  rr_created_unix_ns :: i64
  rr_file_size :: u64
  rr_valid_bytes :: u64
  rr_error_offset :: u64
  rr_message :: string
  rr_index :: "log_index_entry list"
  rr_records :: "log_record list"

definition new_read_result :: log_read_result where
  "new_read_result = \<lparr>rr_status = IoError, rr_created_unix_ns = 0, rr_file_size = 0, rr_valid_bytes = 0,
     rr_error_offset = 0, rr_message = [], rr_index = [], rr_records = []\<rparr>"

definition make_failure :: "log_read_result \<Rightarrow> log_read_status \<Rightarrow> u64 \<Rightarrow> string \<Rightarrow> log_read_result" where
  "make_failure result status offset message =
     result\<lparr>rr_status := status, rr_error_offset := offset, rr_message := message\<rparr>"

definition status_name :: "log_read_status \<Rightarrow> string" where
  "status_name status = (case status of Complete \<Rightarrow> ''complete'' | TruncatedTail \<Rightarrow> ''truncated_tail''
     | Corrupt \<Rightarrow> ''corrupt'' | IoError \<Rightarrow> ''io_error'' | ResourceLimit \<Rightarrow> ''resource_limit'')"

section \<open>The loop\<close>

type_synonym parser = "bytes \<Rightarrow> telemetry_event option"

definition finish_record :: "parser \<Rightarrow> log_read_options \<Rightarrow> u64 \<Rightarrow> u64 \<Rightarrow> log_read_result \<Rightarrow> bytes \<Rightarrow> bytes \<Rightarrow>
    log_read_result + (u64 \<times> u64 \<times> log_read_result)" where
  "finish_record parse options offset expected_record_index result record_header payload =
     (if decode_little_endian record_header 12 \<noteq> crc32c payload
      then Inl (make_failure result Corrupt offset ''record payload checksum mismatch'')
      else if decode_little_endian record_header 16 \<noteq> expected_record_index
      then Inl (make_failure result Corrupt offset ''record index is not contiguous'')
      else case parse payload of
             None \<Rightarrow> Inl (make_failure result Corrupt offset ''telemetry payload is not valid Protobuf'')
           | Some event \<Rightarrow>
               if schema_version event \<noteq> kTelemetrySchemaVersion
               then Inl (make_failure result Corrupt offset ''unsupported telemetry schema version'')
               else
                 let payload_size = decode_little_endian record_header 8 :: u32;
                     record = \<lparr>lr_record_index = decode_little_endian record_header 16,
                               lr_file_offset = offset,
                               lr_collector_arrival_timestamp_ns = decode_little_endian record_header 24,
                               lr_event = event\<rparr>;
                     entry = \<lparr>ix_record_index = lr_record_index record, ix_file_offset = offset,
                              ix_payload_size = payload_size,
                              ix_payload_crc32c = decode_little_endian record_header 12,
                              ix_collector_arrival_timestamp_ns = lr_collector_arrival_timestamp_ns record,
                              ix_source_timestamp_ns = source_timestamp_ns event\<rparr>;
                     offset' = offset + (of_nat kRecordHeaderSize + ucast payload_size);
                     result = result\<lparr>rr_index := rr_index result @ [entry],
                        rr_records := (if retain_records options then rr_records result @ [record]
                                       else rr_records result),
                        rr_valid_bytes := offset'\<rparr>
                 in Inr (offset', expected_record_index + 1, result))"

definition read_record :: "parser \<Rightarrow> log_read_options \<Rightarrow> ifstream \<Rightarrow> u64 \<Rightarrow> u64 \<Rightarrow> log_read_result \<Rightarrow>
    log_read_result + (ifstream \<times> u64 \<times> u64 \<times> log_read_result)" where
  "read_record parse options input offset expected_record_index result =
     (if length (rr_index result) = maximum_records options
      then Inl (make_failure result ResourceLimit offset ''record-count limit reached'')
      else if rr_file_size result - offset < of_nat kRecordHeaderSize
      then Inl (make_failure result TruncatedTail offset ''final record header is incomplete'')
      else case read_exact kRecordHeaderSize input of (ok, record_header, input) \<Rightarrow>
        if \<not> ok then Inl (make_failure result IoError offset ''failed to read record header'')
        else if take 4 record_header \<noteq> kRecordMagic
        then Inl (make_failure result Corrupt offset ''invalid record magic'')
        else if decode_little_endian record_header 4 \<noteq> (of_nat kRecordHeaderSize :: u16) \<or>
            decode_little_endian record_header 6 \<noteq> kRecordFormatVersion
        then Inl (make_failure result Corrupt offset ''unsupported record header version or size'')
        else if decode_little_endian record_header 32 \<noteq> crc32c (take 32 record_header)
        then Inl (make_failure result Corrupt offset ''record header checksum mismatch'')
        else let payload_size = decode_little_endian record_header 8 :: u32
          in if unat payload_size > kMaximumPayloadSize
             then Inl (make_failure result ResourceLimit offset ''record payload exceeds format limit'')
             else if rr_file_size result - offset - of_nat kRecordHeaderSize < ucast payload_size
             then Inl (make_failure result TruncatedTail offset ''final record payload is incomplete'')
             else case read_exact (unat payload_size) input of (ok, payload, input) \<Rightarrow>
               if \<not> ok then Inl (make_failure result IoError offset ''failed to read record payload'')
               else map_sum id (Pair input)
                 (finish_record parse options offset expected_record_index result record_header payload))"

lemma finish_record_Inr:
  assumes "finish_record parse options offset k result h p = Inr (offset', k', result')"
  shows "offset' = offset + (36 + ucast (decode_little_endian h 8 :: u32))" and "rr_file_size result' = rr_file_size result"
  using assms by (auto simp: finish_record_def Let_def split: if_splits option.splits)

lemma offset_advances:
  fixes offset size :: u64 and p :: u32
  assumes "offset < size" and "\<not> size - offset < 36" and "\<not> size - offset - 36 < ucast p"
  shows "unat (offset + (36 + ucast p)) = unat offset + 36 + unat p" and "unat offset + 36 + unat p \<le> unat size"
proof -
  have d: "unat (size - offset) = unat size - unat offset" using assms(1) by (intro unat_sub) simp
  have "36 \<le> size - offset" using assms(2) by simp
  then have d36: "unat (size - offset - 36) = unat size - unat offset - 36" and "36 \<le> unat size - unat offset"
    using d by (simp_all add: unat_sub word_le_nat_alt)
  moreover have p: "unat (ucast p :: u64) = unat p" by simp
  ultimately show le: "unat offset + 36 + unat p \<le> unat size"
    using assms(3) by (simp add: word_less_nat_alt)
  have lt: "unat size < 2 ^ 64" using unat_bound [of size] by simp
  then have "unat (36 + ucast p :: u64) = 36 + unat p" using le p by (subst unat_add_no_wrap) auto
  then show "unat (offset + (36 + ucast p)) = unat offset + 36 + unat p"
    using le lt by (subst unat_add_no_wrap) auto
qed

lemma read_record_progress:
  assumes "read_record parse options input offset k result = Inr (input', offset', k', result')"
    and "offset < rr_file_size result"
  shows "unat offset < unat offset'" and "unat offset' \<le> unat (rr_file_size result)"
    and "rr_file_size result' = rr_file_size result"
proof -
  from assms(1) obtain h p where "\<not> rr_file_size result - offset < 36"
      and "\<not> rr_file_size result - offset - 36 < ucast (decode_little_endian h 8 :: u32)"
      and "finish_record parse options offset k result h p = Inr (offset', k', result')"
    by (auto simp: read_record_def Let_def map_sum_def split: if_splits prod.splits sum.splits)
  note h = this
  show "unat offset < unat offset'" and "unat offset' \<le> unat (rr_file_size result)"
    using offset_advances [OF assms(2) h(1,2)] finish_record_Inr(1) [OF h(3)] by simp_all
  show "rr_file_size result' = rr_file_size result" by (rule finish_record_Inr(2) [OF h(3)])
qed

function read_records :: "parser \<Rightarrow> log_read_options \<Rightarrow> ifstream \<Rightarrow> u64 \<Rightarrow> u64 \<Rightarrow> log_read_result \<Rightarrow> log_read_result" where
  "read_records parse options input offset expected_record_index result =
     (if offset < rr_file_size result
      then case read_record parse options input offset expected_record_index result of
             Inl failure \<Rightarrow> failure
           | Inr (input', offset', expected', result') \<Rightarrow>
               read_records parse options input' offset' expected' result'
      else result\<lparr>rr_status := Complete, rr_message := ''log is complete''\<rparr>)"
  by pat_completeness auto
termination
proof (relation "measure (\<lambda>(parse, options, input, offset, k, result). unat (rr_file_size result) - unat offset)")
  fix parse options input offset k and result :: log_read_result and b r i r' offset' r'' k' result'
  assume "offset < rr_file_size result" "read_record parse options input offset k result = Inr r"
    "(i, r') = r" "(offset', r'') = r'" "(k', result') = r''"
  then have *: "read_record parse options input offset k result = Inr (i, offset', k', result')" by simp
  show "((parse, options, i, offset', k', result'), parse, options, input, offset, k, result)
      \<in> measure (\<lambda>(parse, options, input, offset, k, result). unat (rr_file_size result) - unat offset)"
    using read_record_progress [OF * \<open>offset < rr_file_size result\<close>] by auto
qed simp

declare read_records.simps [simp del]

section \<open>read\_log and recovery\<close>

text \<open>When \<^verbatim>\<open>std::filesystem::file_size\<close> fails it returns \<^verbatim>\<open>static_cast<std::uintmax_t>(-1)\<close>.\<close>

definition read_log :: "parser \<Rightarrow> file_view \<Rightarrow> log_read_options \<Rightarrow> log_read_result" where
  "read_log parse file options =
     (let result = new_read_result
      in case fv_size file of
           None \<Rightarrow> make_failure (result\<lparr>rr_file_size := - 1\<rparr>) IoError 0 ''failed to determine log file size''
         | Some file_size \<Rightarrow>
             let result = result\<lparr>rr_file_size := file_size\<rparr>
             in if \<not> fv_open file then make_failure result IoError 0 ''failed to open log file''
                else if file_size < of_nat kFileHeaderSize
                then make_failure result Corrupt 0 ''file header is incomplete''
                else case read_exact kFileHeaderSize (is_opened (fv_bytes file)) of (ok, file_header, input) \<Rightarrow>
                  if \<not> ok then make_failure result IoError 0 ''failed to read file header''
                  else if take 8 file_header \<noteq> kFileMagic
                  then make_failure result Corrupt 0 ''invalid log magic''
                  else if decode_little_endian file_header 8 \<noteq> kLogFormatVersion \<or>
                      decode_little_endian file_header 10 \<noteq> (of_nat kFileHeaderSize :: u16)
                  then make_failure result Corrupt 0 ''unsupported log header version or size''
                  else if decode_little_endian file_header 28 \<noteq> crc32c (take 28 file_header)
                  then make_failure result Corrupt 0 ''file header checksum mismatch''
                  else read_records parse options input (of_nat kFileHeaderSize) 0
                         (result\<lparr>rr_created_unix_ns := decode_little_endian file_header 16,
                                 rr_valid_bytes := of_nat kFileHeaderSize\<rparr>))"

lemma read_log_no_size:
  "fv_size file = None \<Longrightarrow> rr_status (read_log parse file options) = IoError \<and> unat (rr_file_size (read_log parse file options)) = 2 ^ 64 - 1"
  by (simp add: read_log_def make_failure_def unsigned_minus_1_eq_mask mask_eq_exp_minus_1)

record recovery_result =
  rc_succeeded :: bool
  rc_changed :: bool
  rc_original_size :: u64
  rc_recovered_size :: u64
  rc_message :: string

text \<open>Recovery also returns the bytes of the file afterwards; \<open>resizes\<close> tells whether
  \<^verbatim>\<open>std::filesystem::resize_file\<close> succeeds.\<close>

definition recover_truncated_tail :: "parser \<Rightarrow> file_view \<Rightarrow> bool \<Rightarrow> log_read_options \<Rightarrow> recovery_result \<times> bytes" where
  "recover_truncated_tail parse file resizes options =
     (let read_result = read_log parse file options;
          recovery = \<lparr>rc_succeeded = False, rc_changed = False, rc_original_size = rr_file_size read_result,
                      rc_recovered_size = rr_file_size read_result, rc_message = []\<rparr>
      in if rr_status read_result = Complete
         then (recovery\<lparr>rc_succeeded := True, rc_message := ''log was already complete''\<rparr>, fv_bytes file)
         else if rr_status read_result \<noteq> TruncatedTail \<or> rr_valid_bytes read_result < of_nat kFileHeaderSize
         then (recovery\<lparr>rc_message :=
                 ''refusing recovery because the log is not a recoverable truncated tail: '' @ rr_message read_result\<rparr>,
               fv_bytes file)
         else if \<not> resizes
         then (recovery\<lparr>rc_message := ''failed to truncate incomplete tail''\<rparr>, fv_bytes file)
         else (recovery\<lparr>rc_succeeded := True, rc_changed := True, rc_recovered_size := rr_valid_bytes read_result,
                 rc_message := ''removed incomplete final record''\<rparr>,
               take (unat (rr_valid_bytes read_result)) (fv_bytes file)))"

end
