(* ===== verification/TF_Recording.thy ===== *)
theory TF_Recording
  imports TF_Reader
begin

text \<open>
  How the reader and the writer of \<^verbatim>\<open>src/recording/log.cpp\<close> fit together: what \<^verbatim>\<open>read_log\<close> returns on
  the bytes of a log, of a log cut off anywhere, and of a log with one damaged byte.
\<close>

section \<open>Expected contents\<close>

text \<open>An entry the reader accepts.\<close>

definition valid_entry :: "parser \<Rightarrow> log_entry \<Rightarrow> bool" where
  "valid_entry parse e \<longleftrightarrow> length (le_payload e) \<le> kMaximumPayloadSize \<and>
     parse (le_payload e) = Some (le_event e) \<and> schema_version (le_event e) = kTelemetrySchemaVersion"

definition entry_record :: "u64 \<Rightarrow> u64 \<Rightarrow> log_entry \<Rightarrow> log_record" where
  "entry_record k off e = \<lparr>lr_record_index = k, lr_file_offset = off,
     lr_collector_arrival_timestamp_ns = le_timestamp e, lr_event = le_event e\<rparr>"

definition entry_index :: "u64 \<Rightarrow> u64 \<Rightarrow> log_entry \<Rightarrow> log_index_entry" where
  "entry_index k off e = \<lparr>ix_record_index = k, ix_file_offset = off,
     ix_payload_size = of_nat (length (le_payload e)), ix_payload_crc32c = crc32c (le_payload e),
     ix_collector_arrival_timestamp_ns = le_timestamp e,
     ix_source_timestamp_ns = source_timestamp_ns (le_event e)\<rparr>"

fun entries_at :: "(u64 \<Rightarrow> u64 \<Rightarrow> log_entry \<Rightarrow> 'r) \<Rightarrow> u64 \<Rightarrow> u64 \<Rightarrow> log_entry list \<Rightarrow> 'r list" where
  "entries_at f k off [] = []"
| "entries_at f k off (e # es) = f k off e # entries_at f (k + 1) (off + of_nat (length (record_image k e))) es"

lemma length_entries_at [simp]: "length (entries_at f k off es) = length es"
  by (induction es arbitrary: k off) auto

lemma entries_at_append: "entries_at f k off (es @ fs) =
    entries_at f k off es @ entries_at f (k + of_nat (length es)) (off + of_nat (length (images k es))) fs"
  by (induction es arbitrary: k off) (simp_all add: algebra_simps)

lemma map_entries_at: "(\<And>k off e. g (f k off e) = h e) \<Longrightarrow> map g (entries_at f k off es) = map h es"
  by (induction es arbitrary: k off) auto

text \<open>The result of a scan after the entries \<open>es\<close>, before the loop decides how it ends.\<close>

definition advance :: "log_read_options \<Rightarrow> u64 \<Rightarrow> u64 \<Rightarrow> log_entry list \<Rightarrow> log_read_result \<Rightarrow> log_read_result" where
  "advance options k off es r = r\<lparr>
     rr_index := rr_index r @ entries_at entry_index k off es,
     rr_records := (if retain_records options then rr_records r @ entries_at entry_record k off es else rr_records r),
     rr_valid_bytes := off + of_nat (length (images k es))\<rparr>"

lemma advance_Nil: "rr_valid_bytes r = off \<Longrightarrow> advance options k off [] r = r"
  by (simp add: advance_def)

lemma advance_Cons:
  "advance options (k + 1) (off + of_nat (length (record_image k e))) es (advance options k off [e] r) =
     advance options k off (e # es) r"
  by (simp add: advance_def algebra_simps)

lemma advance_simps [simp]:
  "rr_file_size (advance options k off es r) = rr_file_size r"
  "rr_valid_bytes (advance options k off es r) = off + of_nat (length (images k es))"
  "length (rr_index (advance options k off es r)) = length (rr_index r) + length es"
  by (simp_all add: advance_def)

section \<open>One record\<close>

lemma header_checks:
  assumes "length p \<le> kMaximumPayloadSize"
  shows "unat (of_nat (length p) :: u32) = length p"
  using assms by (intro unat_of_nat_less) simp

lemma file_size_arith:
  fixes off size :: u64
  assumes "unat off + n \<le> unat size" and "36 + m \<le> n"
  shows "\<not> size - off < 36" and "unat (size - off - 36) = unat size - unat off - 36"
proof -
  have "off \<le> size" using assms(1) by (simp add: word_le_nat_alt)
  then have d: "unat (size - off) = unat size - unat off" by (rule unat_sub)
  then show lt: "\<not> size - off < 36" using assms by (simp add: word_less_nat_alt)
  then show "unat (size - off - 36) = unat size - unat off - 36"
    using d by (simp add: unat_sub not_less)
qed

lemma read_record_image:
  assumes stream: "stream_good input" "drop (is_pos input) (is_bytes input) = record_image k e @ rest"
    and valid: "valid_entry parse e"
    and size: "unat off + length (record_image k e) \<le> unat (rr_file_size r)"
    and limit: "length (rr_index r) \<noteq> maximum_records options"
  shows "\<exists>input'. read_record parse options input off k r =
      Inr (input', off + of_nat (length (record_image k e)), k + 1, advance options k off [e] r) \<and>
      stream_good input' \<and> drop (is_pos input') (is_bytes input') = rest"
proof -
  let ?h = "record_header_bytes k (le_timestamp e) (le_payload e)"
  let ?p = "le_payload e"
  have len: "length ?p \<le> kMaximumPayloadSize" using valid by (simp add: valid_entry_def)
  note n = header_checks [OF len]
  have sz: "\<not> rr_file_size r - off < 36" "unat (rr_file_size r - off - 36) = unat (rr_file_size r) - unat off - 36"
    using file_size_arith [OF size, of "length ?p"] by simp_all
  have "drop (is_pos input) (is_bytes input) = ?h @ ?p @ rest" using stream(2) by (simp add: record_image_def)
  from read_exact_available [OF stream(1) this] obtain i1 where
    i1: "read_exact 36 input = (True, ?h, i1)" "stream_good i1" "drop (is_pos i1) (is_bytes i1) = ?p @ rest"
    by auto
  from read_exact_available [OF i1(2,3)] obtain i2 where
    i2: "read_exact (length ?p) i1 = (True, ?p, i2)" "stream_good i2" "drop (is_pos i2) (is_bytes i2) = rest"
    by auto
  have "\<not> rr_file_size r - off - 36 < ucast (of_nat (length ?p) :: u32)"
    using size n sz(2) by (simp add: word_less_nat_alt)
  moreover have "finish_record parse options off k r ?h ?p =
      Inr (off + of_nat (length (record_image k e)), k + 1, advance options k off [e] r)"
  proof -
    have "unat (of_nat (length ?p) :: u64) = length ?p" using len by (intro unat_of_nat_less) simp
    then have "(ucast (of_nat (length ?p) :: u32) :: u64) = of_nat (length ?p)"
      by (simp only: word_unat_eq_iff unat_ucast_u32_u64 n)
    then show ?thesis using valid
      by (simp add: finish_record_def codec valid_entry_def Let_def advance_def entry_record_def entry_index_def)
  qed
  ultimately have "read_record parse options input off k r =
      Inr (i2, off + of_nat (length (record_image k e)), k + 1, advance options k off [e] r)"
    using limit sz(1) i1(1) i2(1) n len by (simp add: read_record_def codec)
  with i2 show ?thesis by blast
qed

section \<open>A run of records\<close>

lemma read_records_images:
  assumes "stream_good input" and "drop (is_pos input) (is_bytes input) = images k es @ rest"
    and "\<forall>e \<in> set es. valid_entry parse e"
    and "unat off + length (images k es) \<le> unat (rr_file_size r)"
    and "length (rr_index r) + length es \<le> maximum_records options"
    and "rr_valid_bytes r = off"
  shows "\<exists>input'. read_records parse options input off k r =
      read_records parse options input' (off + of_nat (length (images k es))) (k + of_nat (length es)) (advance options k off es r) \<and>
      stream_good input' \<and> drop (is_pos input') (is_bytes input') = rest"
  using assms
proof (induction es arbitrary: input k off r)
  case Nil
  then show ?case by (auto simp: advance_Nil)
next
  case (Cons e es)
  let ?n = "length (record_image k e)"
  have stream: "drop (is_pos input) (is_bytes input) = record_image k e @ (images (k + 1) es @ rest)"
    using Cons.prems(2) by simp
  have sz: "unat off + ?n \<le> unat (rr_file_size r)" using Cons.prems(4) by simp
  have bound: "unat (rr_file_size r) < 2 ^ 64" using unat_bound [of "rr_file_size r"] by simp
  have off': "unat (off + of_nat ?n) = unat off + ?n"
  proof -
    have n: "unat (of_nat ?n :: u64) = ?n" using sz bound by (intro unat_of_nat_less) simp
    then show ?thesis using sz bound by (subst unat_add_no_wrap) simp_all
  qed
  have lt: "off < rr_file_size r" using sz by (simp add: word_less_nat_alt)
  have v: "valid_entry parse e" and l: "length (rr_index r) \<noteq> maximum_records options"
    using Cons.prems(3,5) by auto
  obtain i1 where i1: "read_record parse options input off k r =
      Inr (i1, off + of_nat ?n, k + 1, advance options k off [e] r)"
      "stream_good i1" "drop (is_pos i1) (is_bytes i1) = images (k + 1) es @ rest"
    using read_record_image [OF Cons.prems(1) stream v sz l] by blast
  have step: "read_records parse options input off k r =
      read_records parse options i1 (off + of_nat ?n) (k + 1) (advance options k off [e] r)"
    using lt i1(1) by (subst read_records.simps) simp
  have "unat (off + of_nat ?n) + length (images (k + 1) es) \<le> unat (rr_file_size (advance options k off [e] r))"
    using Cons.prems(4) off' by simp
  from Cons.IH [OF i1(2,3) _ this] obtain i2 where
    "read_records parse options i1 (off + of_nat ?n) (k + 1) (advance options k off [e] r) =
      read_records parse options i2 (off + of_nat ?n + of_nat (length (images (k + 1) es)))
        (k + 1 + of_nat (length es)) (advance options (k + 1) (off + of_nat ?n) es (advance options k off [e] r))"
    "stream_good i2" "drop (is_pos i2) (is_bytes i2) = rest"
    using Cons.prems(3,5) by auto
  moreover have "off + of_nat ?n + of_nat (length (images (k + 1) es)) = off + of_nat (length (images k (e # es)))"
    and "k + 1 + of_nat (length es) = k + of_nat (length (e # es))" by simp_all
  ultimately show ?case using step by (simp only: advance_Cons) metis
qed

section \<open>Whole files\<close>

text \<open>A file header the reader accepts (it does not look at the two reserved fields).\<close>

definition header_ok :: "bytes \<Rightarrow> bool" where
  "header_ok h \<longleftrightarrow> length h = 32 \<and> take 8 h = kFileMagic \<and>
     decode_little_endian h 8 = kLogFormatVersion \<and> decode_little_endian h 10 = (32 :: u16) \<and>
     decode_little_endian h 28 = crc32c (take 28 h)"

lemma header_ok_file_header: "header_ok (file_header_bytes h)"
  by (simp add: header_ok_def codec)

definition log_bytes :: "bytes \<Rightarrow> log_entry list \<Rightarrow> bytes" where
  "log_bytes h es = h @ images 0 es"

definition scanned :: "log_read_options \<Rightarrow> bytes \<Rightarrow> nat \<Rightarrow> log_entry list \<Rightarrow> log_read_result" where
  "scanned options h n es = advance options 0 32 es
     (new_read_result\<lparr>rr_file_size := of_nat n, rr_created_unix_ns := decode_little_endian h 16, rr_valid_bytes := 32\<rparr>)"

lemma length_log_bytes: "length h = 32 \<Longrightarrow> length (log_bytes h es) = 32 + length (images 0 es)"
  by (simp add: log_bytes_def)

lemma scanned_simps [simp]:
  "rr_file_size (scanned options h n es) = of_nat n"
  "length (rr_index (scanned options h n es)) = length es"
  "rr_created_unix_ns (scanned options h n es) = decode_little_endian h 16"
  "rr_index (scanned options h n es) = entries_at entry_index 0 32 es"
  "rr_records (scanned options h n es) = (if retain_records options then entries_at entry_record 0 32 es else [])"
  by (simp_all add: scanned_def new_read_result_def advance_def)

lemma scanned_valid_bytes:
  "length h = 32 \<Longrightarrow> rr_valid_bytes (scanned options h n es) = of_nat (length (log_bytes h es))"
  by (simp add: scanned_def length_log_bytes)

text \<open>What the scan sees of a file that starts with a log of \<open>es\<close>.\<close>

definition scan_ready :: "parser \<Rightarrow> log_read_options \<Rightarrow> bytes \<Rightarrow> log_entry list \<Rightarrow> nat \<Rightarrow> bool" where
  "scan_ready parse options h es n \<longleftrightarrow> header_ok h \<and> n < 2 ^ 64 \<and> (\<forall>e \<in> set es. valid_entry parse e) \<and> length es \<le> maximum_records options"

lemma read_log_prefix:
  assumes ready: "scan_ready parse options h es (length (log_bytes h es @ rest))"
  shows "\<exists>input'. read_log parse (stored (log_bytes h es @ rest)) options =
      read_records parse options input' (of_nat (length (log_bytes h es))) (of_nat (length es))
        (scanned options h (length (log_bytes h es @ rest)) es) \<and>
      stream_good input' \<and> drop (is_pos input') (is_bytes input') = rest"
proof -
  let ?bs = "log_bytes h es @ rest"
  let ?r = "new_read_result\<lparr>rr_file_size := of_nat (length ?bs), rr_created_unix_ns := decode_little_endian h 16, rr_valid_bytes := 32\<rparr>"
  have bound: "length ?bs < 2 ^ 64" and valid: "\<forall>e \<in> set es. valid_entry parse e"
    and limit: "length es \<le> maximum_records options" and len: "length h = 32"
    using ready by (simp_all add: scan_ready_def header_ok_def)
  have n: "unat (of_nat (length ?bs) :: u64) = length ?bs" using bound by (intro unat_of_nat_less) simp
  have "drop (is_pos (is_opened ?bs)) (is_bytes (is_opened ?bs)) = h @ (images 0 es @ rest)"
    by (simp add: log_bytes_def)
  from read_exact_available [OF stream_good_opened(1) this] obtain i1 where
    i1: "read_exact 32 (is_opened ?bs) = (True, h, i1)" "stream_good i1"
      "drop (is_pos i1) (is_bytes i1) = images 0 es @ rest"
    using len by auto
  have "\<not> (of_nat (length ?bs) :: u64) < 32"
    using n len by (simp add: word_less_nat_alt log_bytes_def)
  then have "read_log parse (stored ?bs) options = read_records parse options i1 32 0 ?r"
    using i1(1) ready by (simp add: read_log_def stored_def scan_ready_def header_ok_def)
  moreover obtain i2 where "read_records parse options i1 32 0 ?r =
      read_records parse options i2 (32 + of_nat (length (images 0 es))) (0 + of_nat (length es)) (advance options 0 32 es ?r)"
      "stream_good i2" "drop (is_pos i2) (is_bytes i2) = rest"
    using read_records_images [OF i1(2,3) valid, of 32 ?r options] n limit len
    by (auto simp: log_bytes_def new_read_result_def)
  ultimately show ?thesis using len by (auto simp: scanned_def log_bytes_def)
qed

lemma read_log_whole:
  assumes "scan_ready parse options h es (length (log_bytes h es))"
  shows "read_log parse (stored (log_bytes h es)) options =
    (scanned options h (length (log_bytes h es)) es)\<lparr>rr_status := Complete, rr_message := ''log is complete''\<rparr>"
proof -
  obtain i where "read_log parse (stored (log_bytes h es @ [])) options =
      read_records parse options i (of_nat (length (log_bytes h es))) (of_nat (length es))
        (scanned options h (length (log_bytes h es)) es)"
    using read_log_prefix [of parse options h es "[]"] assms by auto
  then show ?thesis by (simp add: read_records.simps [of parse options i])
qed

lemma read_log_next_record:
  assumes "scan_ready parse options h es (length (log_bytes h es @ rest))" and "rest \<noteq> []"
  shows "\<exists>input'. stream_good input' \<and> drop (is_pos input') (is_bytes input') = rest \<and>
    read_log parse (stored (log_bytes h es @ rest)) options =
      (case read_record parse options input' (of_nat (length (log_bytes h es))) (of_nat (length es))
          (scanned options h (length (log_bytes h es @ rest)) es) of
         Inl failure \<Rightarrow> failure
       | Inr (i, off, k, r) \<Rightarrow> read_records parse options i off k r)"
proof -
  let ?n = "length (log_bytes h es @ rest)"
  obtain i where i: "read_log parse (stored (log_bytes h es @ rest)) options =
      read_records parse options i (of_nat (length (log_bytes h es))) (of_nat (length es)) (scanned options h ?n es)"
      "stream_good i" "drop (is_pos i) (is_bytes i) = rest"
    using read_log_prefix [OF assms(1)] by blast
  have "?n < 2 ^ 64" using assms(1) by (simp add: scan_ready_def)
  then have "unat (of_nat (length (log_bytes h es)) :: u64) = length (log_bytes h es)" and "unat (of_nat ?n :: u64) = ?n"
    by (auto intro!: unat_of_nat_u64 simp del: of_nat_add length_append) (simp add: length_append)
  then have "(of_nat (length (log_bytes h es)) :: u64) < of_nat ?n"
    using assms(2) by (simp add: word_less_nat_alt)
  then show ?thesis using i by (intro exI [of _ i]) (simp add: read_records.simps [of parse options i])
qed

section \<open>A file that is cut off\<close>

lemma rest_size:
  assumes "length (log_bytes h es @ rest) < 2 ^ 64"
  shows "unat (of_nat (length (log_bytes h es @ rest)) - of_nat (length (log_bytes h es)) :: u64) = length rest"
proof -
  have "(of_nat (length (log_bytes h es @ rest)) - of_nat (length (log_bytes h es)) :: u64) = of_nat (length rest)"
    by simp
  then show ?thesis using assms by (simp add: unat_of_nat_u64)
qed

lemma rest_size_36:
  assumes "length (log_bytes h es @ rest) < 2 ^ 64" and "36 \<le> length rest"
  shows "unat (of_nat (length (log_bytes h es @ rest)) - of_nat (length (log_bytes h es)) - 36 :: u64) = length rest - 36"
  using rest_size [OF assms(1)] assms(2) by (subst unat_sub) (simp_all add: word_le_nat_alt)

lemma take_record_image: "36 \<le> m \<Longrightarrow> take m (record_image k e) = record_header_bytes k (le_timestamp e) (le_payload e) @ take (m - 36) (le_payload e)"
  by (simp add: record_image_def)

lemma read_log_cut:
  assumes ready: "scan_ready parse options h es (length (log_bytes h es @ rest))"
    and rest: "rest = take m (record_image (of_nat (length es)) e)" "0 < m" "m < length (record_image (of_nat (length es)) e)"
    and len: "length (le_payload e) \<le> kMaximumPayloadSize" and limit: "length es < maximum_records options"
  shows "read_log parse (stored (log_bytes h es @ rest)) options =
    make_failure (scanned options h (length (log_bytes h es @ rest)) es) TruncatedTail (of_nat (length (log_bytes h es)))
      (if m < 36 then ''final record header is incomplete'' else ''final record payload is incomplete'')"
proof -
  let ?k = "of_nat (length es) :: u64"
  let ?rh = "record_header_bytes ?k (le_timestamp e) (le_payload e)"
  have bound: "length (log_bytes h es @ rest) < 2 ^ 64" using ready by (simp add: scan_ready_def)
  have lenr: "length rest = m" using rest by simp
  then have "rest \<noteq> []" using rest(2) by auto
  then obtain i where i: "stream_good i" "drop (is_pos i) (is_bytes i) = rest"
    and log: "read_log parse (stored (log_bytes h es @ rest)) options =
      (case read_record parse options i (of_nat (length (log_bytes h es))) ?k
          (scanned options h (length (log_bytes h es @ rest)) es) of
         Inl failure \<Rightarrow> failure
       | Inr (i, off, k, r) \<Rightarrow> read_records parse options i off k r)"
    using read_log_next_record [OF ready] by blast
  show ?thesis
  proof (cases "m < 36")
    case True
    then show ?thesis using log rest_size [OF bound] limit lenr
      by (simp add: read_record_def word_less_nat_alt del: of_nat_add length_append)
  next
    case False
    then have "drop (is_pos i) (is_bytes i) = ?rh @ take (m - 36) (le_payload e)"
      using i(2) rest(1) by (simp add: take_record_image)
    from read_exact_available [OF i(1) this] obtain i' where "read_exact 36 i = (True, ?rh, i')" by auto
    then show ?thesis using False log rest_size [OF bound] rest_size_36 [OF bound] limit lenr header_checks [OF len] len rest(3)
      by (simp add: read_record_def codec word_less_nat_alt del: of_nat_add length_append)
  qed
qed

section \<open>A file with one damaged byte\<close>

lemma damaged_header_rejected:
  assumes "length h = 36" and "decode_little_endian h 32 = crc32c (take 32 h)" and "i < 36" and "b \<noteq> h ! i"
  shows "decode_little_endian (h[i := b]) 32 \<noteq> crc32c (take 32 (h[i := b]))"
proof (cases "i < 32")
  case True
  then have "decode_little_endian (h[i := b]) 32 = (decode_little_endian h 32 :: u32)"
    by (simp add: le32.get_update_other)
  moreover have "crc32c ((take 32 h)[i := b]) \<noteq> crc32c (take 32 h)"
    using True assms by (intro crc32c_one_byte) auto
  ultimately show ?thesis using assms(2) True by (simp add: take_update_swap)
next
  case False
  have "(decode_little_endian (h[i := b]) 32 :: u32) \<noteq> decode_little_endian h 32"
  proof
    assume "(decode_little_endian (h[i := b]) 32 :: u32) = decode_little_endian h 32"
    from field_eqI [OF this, of i] have "h[i := b] ! i = h ! i" using False assms(3) by simp
    with assms show False by simp
  qed
  then show ?thesis using assms(2) False by simp
qed

lemma read_record_bad_header:
  assumes "read_exact 36 input = (True, h, input')" and "decode_little_endian h 32 \<noteq> crc32c (take 32 h)"
    and "length (rr_index r) \<noteq> maximum_records options" and "\<not> rr_file_size r - off < 36"
  shows "\<exists>msg. read_record parse options input off k r = Inl (make_failure r Corrupt off msg)"
  using assms by (auto simp: read_record_def)

lemma read_record_damaged:
  assumes stream: "stream_good input" "drop (is_pos input) (is_bytes input) = (record_image k e)[i := b] @ tail"
    and i: "i < length (record_image k e)" "b \<noteq> record_image k e ! i"
    and len: "length (le_payload e) \<le> kMaximumPayloadSize"
    and size: "unat off + length (record_image k e) \<le> unat (rr_file_size r)"
    and limit: "length (rr_index r) \<noteq> maximum_records options"
  shows "\<exists>msg. read_record parse options input off k r = Inl (make_failure r Corrupt off msg)"
proof -
  let ?p = "le_payload e"
  let ?rh = "record_header_bytes k (le_timestamp e) ?p"
  have sz: "\<not> rr_file_size r - off < 36" "unat (rr_file_size r - off - 36) = unat (rr_file_size r) - unat off - 36"
    using file_size_arith [OF size, of "length ?p"] by simp_all
  show ?thesis
  proof (cases "i < 36")
    case True
    then have "drop (is_pos input) (is_bytes input) = ?rh[i := b] @ (?p @ tail)"
      using stream(2) by (simp add: record_image_def list_update_append1)
    from read_exact_available [OF stream(1) this] obtain i1 where "read_exact 36 input = (True, ?rh[i := b], i1)" by auto
    moreover have "decode_little_endian (?rh[i := b]) 32 \<noteq> crc32c (take 32 (?rh[i := b]))"
      using True i(2) by (intro damaged_header_rejected) (auto simp: codec record_image_def nth_append)
    ultimately show ?thesis using limit sz(1) by (rule read_record_bad_header)
  next
    case False
    let ?p' = "?p[i - 36 := b]"
    have "drop (is_pos input) (is_bytes input) = ?rh @ (?p' @ tail)"
      using stream(2) False by (simp add: record_image_def list_update_append)
    from read_exact_available [OF stream(1) this] obtain i1 where
      i1: "read_exact 36 input = (True, ?rh, i1)" "stream_good i1" "drop (is_pos i1) (is_bytes i1) = ?p' @ tail" by auto
    from read_exact_available [OF i1(2,3)] obtain i2 where i2: "read_exact (length ?p) i1 = (True, ?p', i2)" by auto
    have "crc32c ?p' \<noteq> crc32c ?p"
      using False i by (intro crc32c_one_byte) (auto simp: record_image_def nth_append)
    then have "finish_record parse options off k r ?rh ?p' = Inl (make_failure r Corrupt off ''record payload checksum mismatch'')"
      by (simp add: finish_record_def codec)
    moreover have "\<not> rr_file_size r - off - 36 < ucast (of_nat (length ?p) :: u32)"
      using size header_checks [OF len] sz(2) by (simp add: word_less_nat_alt)
    ultimately show ?thesis using limit sz(1) i1(1) i2 header_checks [OF len] len
      by (auto simp: read_record_def codec)
  qed
qed

section \<open>Only logs are complete\<close>

text \<open>A record the loop accepts is the image of a valid entry, so what it consumed is determined by
  what it stored.\<close>

lemma read_record_accepts:
  assumes rec: "read_record parse options input off k r = Inr (input', off', k', r')"
    and stream: "stream_good input" and lt: "off < rr_file_size r"
  shows "\<exists>e. valid_entry parse e \<and> stream_good input' \<and> is_bytes input' = is_bytes input \<and>
    drop (is_pos input) (is_bytes input) = record_image k e @ drop (is_pos input') (is_bytes input') \<and>
    off' = off + of_nat (length (record_image k e)) \<and> unat off' = unat off + length (record_image k e) \<and>
    k' = k + 1 \<and> r' = advance options k off [e] r \<and> length (rr_index r) \<noteq> maximum_records options"
proof -
  from rec obtain h i1 p where
    h: "read_exact 36 input = (True, h, i1)" and magic: "take 4 h = kRecordMagic"
    and f4: "decode_little_endian h 4 = (36 :: u16)" "decode_little_endian h 6 = kRecordFormatVersion"
    and f32: "decode_little_endian h 32 = crc32c (take 32 h)"
    and len: "unat (decode_little_endian h 8 :: u32) \<le> kMaximumPayloadSize"
    and p: "read_exact (unat (decode_little_endian h 8 :: u32)) i1 = (True, p, input')"
    and sz: "\<not> rr_file_size r - off < 36" "\<not> rr_file_size r - off - 36 < ucast (decode_little_endian h 8 :: u32)"
    and limit: "length (rr_index r) \<noteq> maximum_records options"
    and fin: "finish_record parse options off k r h p = Inr (off', k', r')"
    by (auto simp: read_record_def Let_def map_sum_def not_less split: if_splits prod.splits sum.splits)
  note g1 = read_exact_good [OF h stream] 
  then have i1: "stream_good i1" by simp
  note g2 = read_exact_good [OF p i1]
  from fin obtain ev where ev: "parse p = Some ev" "schema_version ev = kTelemetrySchemaVersion"
      "decode_little_endian h 12 = crc32c p" "decode_little_endian h 16 = k" "k' = k + 1"
    by (auto simp: finish_record_def Let_def split: if_splits option.splits)
  let ?e = "\<lparr>le_timestamp = decode_little_endian h 24, le_event = ev, le_payload = p\<rparr>"
  have psz: "decode_little_endian h 8 = (of_nat (length p) :: u32)" using g2 by simp
  have hdr: "h = record_header_bytes k (decode_little_endian h 24) p"
    using g1 magic f4 f32 psz ev by (intro record_header_unique) simp_all
  have img: "record_image k ?e = h @ p" using hdr by (simp add: record_image_def)
  have off': "off' = off + (36 + ucast (decode_little_endian h 8 :: u32))" by (rule finish_record_Inr(1) [OF fin])
  have n: "unat (decode_little_endian h 8 :: u32) = length p" using g2 by simp
  have uoff: "unat off' = unat off + length (record_image k ?e)"
    using offset_advances(1) [OF lt sz] off' n g1 by (simp add: img)
  have "length p < 2 ^ 64" using len n by simp
  then have "(ucast (decode_little_endian h 8 :: u32) :: u64) = of_nat (length p)"
    using n by (simp add: word_unat_eq_iff unat_of_nat_u64)
  then have off'': "off' = off + of_nat (length (record_image k ?e))" using off' by simp
  have valid: "valid_entry parse ?e" using ev len n by (simp add: valid_entry_def)
  have "r' = advance options k off [?e] r"
    using fin ev off'' psz by (auto simp: finish_record_def Let_def advance_def entry_record_def entry_index_def)
  with valid uoff off'' ev(5) limit g1 g2 img show ?thesis by (intro exI [of _ ?e]) simp
qed

lemma read_record_failure:
  "read_record parse options input off k r = Inl f \<Longrightarrow> \<exists>st msg. f = make_failure r st off msg \<and> st \<noteq> Complete"
  by (auto simp: read_record_def finish_record_def Let_def map_sum_def
      split: if_splits prod.splits sum.splits option.splits)

text \<open>How the loop can end: after some valid records, either at the end of the file or with a failure
  at the offset of the next record.\<close>

definition loop_end :: "log_read_result \<Rightarrow> log_read_result \<Rightarrow> u64 \<Rightarrow> nat \<Rightarrow> bool" where
  "loop_end out r off n \<longleftrightarrow>
     out = r\<lparr>rr_status := Complete, rr_message := ''log is complete''\<rparr> \<and> n = unat (rr_file_size r) \<or>
     (\<exists>st msg. out = make_failure r st off msg \<and> st \<noteq> Complete)"

lemma read_records_outcome:
  assumes "stream_good input" and "rr_valid_bytes r = off" and "unat off \<le> unat (rr_file_size r)"
    and "length (rr_index r) \<le> maximum_records options"
  shows "\<exists>es tl. (\<forall>e \<in> set es. valid_entry parse e) \<and> drop (is_pos input) (is_bytes input) = images k es @ tl \<and>
    unat off + length (images k es) \<le> unat (rr_file_size r) \<and>
    length (rr_index r) + length es \<le> maximum_records options \<and>
    loop_end (read_records parse options input off k r) (advance options k off es r)
      (off + of_nat (length (images k es))) (unat off + length (images k es))"
  using assms
proof (induction parse options input off k r rule: read_records.induct)
  case (1 parse options input off k r)
  have here: ?case if "loop_end (read_records parse options input off k r) (advance options k off [] r) off (unat off)"
    using that "1.prems" by (intro exI [of _ "[]"] exI [of _ "drop (is_pos input) (is_bytes input)"]) simp
  consider "\<not> off < rr_file_size r" | f where "off < rr_file_size r" "read_record parse options input off k r = Inl f"
    | i o' k' r' where "off < rr_file_size r" "read_record parse options input off k r = Inr (i, o', k', r')"
    by (metis old.sum.exhaust prod_cases4)
  then show ?case
  proof cases
    case 1
    then have "unat off = unat (rr_file_size r)" using "1.prems"(3) by (simp add: word_less_nat_alt)
    with 1 "1.prems"(2) show ?thesis
      by (intro here) (simp add: loop_end_def advance_Nil read_records.simps [of parse options input])
  next
    case 2
    with "1.prems"(2) show ?thesis using read_record_failure [OF 2(2)]
      by (intro here) (auto simp: loop_end_def advance_Nil read_records.simps [of parse options input])
  next
    case 3
    then have run: "read_records parse options input off k r = read_records parse options i o' k' r'"
      by (simp add: read_records.simps [of parse options input])
    obtain e where e: "valid_entry parse e" "stream_good i"
        "drop (is_pos input) (is_bytes input) = record_image k e @ drop (is_pos i) (is_bytes i)"
        "o' = off + of_nat (length (record_image k e))" "unat o' = unat off + length (record_image k e)" "k' = k + 1"
        "r' = advance options k off [e] r" "length (rr_index r) \<noteq> maximum_records options"
      using read_record_accepts [OF 3(2) "1.prems"(1) 3(1)] by blast
    have "\<exists>es tl. (\<forall>e \<in> set es. valid_entry parse e) \<and> drop (is_pos i) (is_bytes i) = images k' es @ tl \<and>
        unat o' + length (images k' es) \<le> unat (rr_file_size r') \<and>
        length (rr_index r') + length es \<le> maximum_records options \<and>
        loop_end (read_records parse options i o' k' r') (advance options k' o' es r')
          (o' + of_nat (length (images k' es))) (unat o' + length (images k' es))"
      using read_record_progress [OF 3(2,1)] e "1.prems"(4)
      by (intro "1.IH" [OF 3 refl refl refl]) simp_all
    then obtain es tl where es: "\<forall>e \<in> set es. valid_entry parse e" "drop (is_pos i) (is_bytes i) = images k' es @ tl"
        "unat o' + length (images k' es) \<le> unat (rr_file_size r')"
        "length (rr_index r') + length es \<le> maximum_records options"
        "loop_end (read_records parse options i o' k' r') (advance options k' o' es r')
          (o' + of_nat (length (images k' es))) (unat o' + length (images k' es))"
      by blast
    have "advance options k' o' es r' = advance options k off (e # es) r"
      using e by (simp only: advance_Cons)
    moreover have "o' + of_nat (length (images k' es)) = off + of_nat (length (images k (e # es)))"
      using e by simp
    moreover have "unat o' + length (images k' es) = unat off + length (images k (e # es))"
      using e by simp
    ultimately have "loop_end (read_records parse options input off k r) (advance options k off (e # es) r)
        (off + of_nat (length (images k (e # es)))) (unat off + length (images k (e # es)))"
      using es(5) unfolding run by metis
    then show ?thesis using e es by (intro exI [of _ "e # es"] exI [of _ tl]) auto
  qed
qed

text \<open>The same for a whole file; a file header that does not pass is reported without any record.\<close>

lemma read_log_outcome:
  assumes "length bs < 2 ^ 64"
  obtains
    (rejected) "rr_status (read_log parse (stored bs) options) = Corrupt"
      "rr_index (read_log parse (stored bs) options) = []"
      "\<forall>h es rest. bs = log_bytes h es @ rest \<longrightarrow> \<not> header_ok h"
  | (scanned) h es rest where "bs = log_bytes h es @ rest" "scan_ready parse options h es (length bs)"
      "loop_end (read_log parse (stored bs) options) (scanned options h (length bs) es)
        (of_nat (length (log_bytes h es))) (length (log_bytes h es))"
proof (cases "\<exists>h i. read_exact 32 (is_opened bs) = (True, h, i) \<and> header_ok h")
  case False
  have n: "unat (of_nat (length bs) :: u64) = length bs" using assms by (rule unat_of_nat_u64)
  have bad: "\<not> header_ok h" if bs: "bs = log_bytes h es @ rest" for h es rest
  proof
    assume "header_ok h"
    moreover have "drop (is_pos (is_opened bs)) (is_bytes (is_opened bs)) = h @ (images 0 es @ rest)"
      using bs by (simp add: log_bytes_def)
    ultimately show False
      using read_exact_available [OF stream_good_opened(1), of bs h] False by (auto simp: header_ok_def)
  qed
  have "rr_status (read_log parse (stored bs) options) = Corrupt \<and> rr_index (read_log parse (stored bs) options) = []"
  proof (cases "length bs < 32")
    case True
    then show ?thesis
      using n by (simp add: read_log_def stored_def make_failure_def new_read_result_def word_less_nat_alt)
  next
    case ge: False
    then have "drop (is_pos (is_opened bs)) (is_bytes (is_opened bs)) = take 32 bs @ drop 32 bs" by simp
    from read_exact_available [OF stream_good_opened(1) this] obtain i where
      r: "read_exact 32 (is_opened bs) = (True, take 32 bs, i)" using ge by auto
    then have "\<not> header_ok (take 32 bs)" using False by blast
    then show ?thesis using ge n r
      by (auto simp: read_log_def stored_def make_failure_def new_read_result_def header_ok_def word_less_nat_alt Let_def)
  qed
  then show ?thesis using bad rejected by blast
next
  case True
  then obtain h i where h: "read_exact 32 (is_opened bs) = (True, h, i)" and ok: "header_ok h" by blast
  have g: "stream_good i" "drop (is_pos (is_opened bs)) (is_bytes (is_opened bs)) = h @ drop (is_pos i) (is_bytes i)"
    using read_exact_good [OF h stream_good_opened(1)] by blast+
  have n: "unat (of_nat (length bs) :: u64) = length bs" using assms by (rule unat_of_nat_u64)
  have len: "length h = 32" using ok by (simp add: header_ok_def)
  have "length (drop (is_pos (is_opened bs)) (is_bytes (is_opened bs))) \<ge> 32" unfolding g(2) using len by simp
  then have ge: "32 \<le> length bs" by simp
  let ?r = "new_read_result\<lparr>rr_file_size := of_nat (length bs), rr_created_unix_ns := decode_little_endian h 16,
    rr_valid_bytes := 32\<rparr>"
  have log: "read_log parse (stored bs) options = read_records parse options i 32 0 ?r"
    using h ok n ge by (simp add: read_log_def stored_def header_ok_def word_less_nat_alt)
  obtain es tl where es: "\<forall>e \<in> set es. valid_entry parse e" "drop (is_pos i) (is_bytes i) = images 0 es @ tl"
      "length es \<le> maximum_records options"
      "loop_end (read_records parse options i 32 0 ?r) (advance options 0 32 es ?r)
        (32 + of_nat (length (images 0 es))) (32 + length (images 0 es))"
    using read_records_outcome [OF g(1), of ?r 32 options parse 0] n ge by (auto simp: new_read_result_def)
  have bs: "bs = log_bytes h es @ tl" using g(2) unfolding es(2) by (simp add: log_bytes_def)
  moreover have "scan_ready parse options h es (length bs)"
    using es assms ok by (simp add: scan_ready_def)
  moreover have "loop_end (read_log parse (stored bs) options) (scanned options h (length bs) es)
        (of_nat (length (log_bytes h es))) (length (log_bytes h es))"
    using es(4) len unfolding log scanned_def by (simp add: log_bytes_def)
  ultimately show ?thesis by (rule scanned)
qed

lemma read_log_complete_imp:
  assumes "rr_status (read_log parse (stored bs) options) = Complete" and "length bs < 2 ^ 64"
  shows "\<exists>h es. bs = log_bytes h es \<and> scan_ready parse options h es (length bs)"
  using assms(2)
proof (cases rule: read_log_outcome [where parse = parse and options = options])
  case rejected
  with assms(1) show ?thesis by auto
next
  case (scanned h es rest)
  then have "length (log_bytes h es) = unat (of_nat (length bs) :: u64)"
    using assms(1) by (auto simp: loop_end_def make_failure_def simp del: of_nat_add length_append)
  then have "length (log_bytes h es) = length bs" using assms(2) by (simp add: unat_of_nat_u64)
  then have "length (log_bytes h es @ rest) = length (log_bytes h es)" unfolding scanned(1) [symmetric] by (rule sym)
  then have "bs = log_bytes h es" using scanned(1) by simp
  with scanned(2) show ?thesis by blast
qed

end
