(* ===== verification/TF_Recovery.thy ===== *)
theory TF_Recovery
  imports TF_Recording
begin

text \<open>
  The guarantees of the recording format: exactly the well-formed files are complete, any part of a
  log recovers to its complete records, recovery of an arbitrary file is safe, and no single damaged
  byte goes unnoticed.
\<close>

section \<open>Cutting a log\<close>

text \<open>The records that lie wholly inside the first \<open>n\<close> bytes of the record area.\<close>

fun fitting :: "nat \<Rightarrow> log_entry list \<Rightarrow> log_entry list" where
  "fitting n [] = []"
| "fitting n (e # es) =
     (if 36 + length (le_payload e) \<le> n then e # fitting (n - (36 + length (le_payload e))) es else [])"

lemma fitting_prefix: "\<exists>fs. es = fitting n es @ fs"
  by (induction n es rule: fitting.induct) auto

lemma set_fitting: "set (fitting n es) \<subseteq> set es"
  by (metis Un_iff set_append subsetI fitting_prefix)

lemma fitting_all: "length (images k es) \<le> n \<Longrightarrow> fitting n es = es"
proof (induction n es arbitrary: k rule: fitting.induct)
  case (2 n e es)
  then have le: "36 + length (le_payload e) \<le> n" and "length (images (k + 1) es) \<le> n - (36 + length (le_payload e))"
    by simp_all
  then show ?case using "2.IH" [OF le, of "k + 1"] by simp
qed simp

lemma fitting_take: "length (images k (take c es)) \<le> n \<Longrightarrow> take c (fitting n es) = take c es"
proof (induction n es arbitrary: k c rule: fitting.induct)
  case (2 n e es)
  show ?case
  proof (cases c)
    case (Suc d)
    with "2.prems" have le: "36 + length (le_payload e) \<le> n"
        and "length (images (k + 1) (take d es)) \<le> n - (36 + length (le_payload e))"
      by simp_all
    then show ?thesis using "2.IH" [OF le, of "k + 1" d] Suc by simp
  qed simp
qed simp

text \<open>What is left after them is a proper, non-empty part of the next record, or nothing.\<close>

definition partial_record :: "u64 \<Rightarrow> log_entry list \<Rightarrow> bytes \<Rightarrow> bool" where
  "partial_record k es rest \<longleftrightarrow>
     rest = [] \<or> (\<exists>e \<in> set es. \<exists>m. rest = take m (record_image k e) \<and> 0 < m \<and> m < length (record_image k e))"

lemma take_images:
  "\<exists>rest. take n (images k es) = images k (fitting n es) @ rest \<and>
     partial_record (k + of_nat (length (fitting n es))) es rest \<and> (rest \<noteq> [] \<longrightarrow> length (fitting n es) < length es)"
proof (induction n es arbitrary: k rule: fitting.induct)
  case (1 n)
  then show ?case by (simp add: partial_record_def)
next
  case (2 n e es)
  let ?n = "36 + length (le_payload e)"
  show ?case
  proof (cases "?n \<le> n")
    case True
    from "2.IH" [OF True, of "k + 1"] obtain rest where
      "take (n - ?n) (images (k + 1) es) = images (k + 1) (fitting (n - ?n) es) @ rest"
      "partial_record (k + 1 + of_nat (length (fitting (n - ?n) es))) es rest"
      "rest \<noteq> [] \<longrightarrow> length (fitting (n - ?n) es) < length es" by blast
    with True show ?thesis
      by (intro exI [of _ rest]) (auto simp: partial_record_def ac_simps)
  next
    case False
    then have "partial_record k (e # es) (take n (record_image k e))"
      by (cases "n = 0") (auto simp: partial_record_def)
    with False show ?thesis by (intro exI [of _ "take n (record_image k e)"]) auto
  qed
qed

lemma take_log_bytes:
  assumes "length h = 32" and "32 \<le> n"
  shows "\<exists>rest. take n (log_bytes h es) = log_bytes h (fitting (n - 32) es) @ rest \<and>
    partial_record (of_nat (length (fitting (n - 32) es))) es rest \<and> (rest \<noteq> [] \<longrightarrow> length (fitting (n - 32) es) < length es)"
  using take_images [of "n - 32" 0 es] assms by (auto simp: log_bytes_def)

lemma scan_ready_fitting:
  assumes "scan_ready parse options h es n" and "m \<le> n"
  shows "scan_ready parse options h (fitting j es) m"
proof -
  have "length (fitting j es) \<le> length es" by (metis le_add1 length_append fitting_prefix)
  then show ?thesis using assms set_fitting [of j es] by (auto simp: scan_ready_def)
qed

lemma read_log_taken:
  assumes ready: "scan_ready parse options h es (length (take n (log_bytes h es)))" and n: "32 \<le> n"
  defines "kept \<equiv> fitting (n - 32) es" and "part \<equiv> take n (log_bytes h es)"
  shows "\<exists>out. read_log parse (stored part) options = out \<and> rr_status out \<in> {Complete, TruncatedTail} \<and>
    rr_index out = entries_at entry_index 0 32 kept \<and>
    rr_records out = (if retain_records options then entries_at entry_record 0 32 kept else []) \<and>
    rr_valid_bytes out = of_nat (length (log_bytes h kept)) \<and>
    (rr_status out = Complete \<longrightarrow> part = log_bytes h kept) \<and> take (length (log_bytes h kept)) part = log_bytes h kept"
proof -
  have len: "length h = 32" and valid: "\<forall>e \<in> set es. valid_entry parse e" and limit: "length es \<le> maximum_records options"
    using ready by (simp_all add: scan_ready_def header_ok_def)
  obtain rest where rest: "part = log_bytes h kept @ rest" "partial_record (of_nat (length kept)) es rest"
      "rest \<noteq> [] \<longrightarrow> length kept < length es"
    using take_log_bytes [OF len n, of es] by (auto simp: kept_def part_def)
  have ready': "scan_ready parse options h kept (length (log_bytes h kept @ rest))"
    using scan_ready_fitting [OF ready order_refl, of "n - 32"] rest(1) by (simp only: kept_def [symmetric] part_def [symmetric])
  show ?thesis
  proof (cases "rest = []")
    case True
    with rest ready' show ?thesis
      using read_log_whole [of parse options h kept] by (simp add: scanned_valid_bytes [OF len])
  next
    case False
    then obtain e m where e: "e \<in> set es" "rest = take m (record_image (of_nat (length kept)) e)" "0 < m"
        "m < length (record_image (of_nat (length kept)) e)"
      using rest(2) by (auto simp: partial_record_def)
    have "length (le_payload e) \<le> kMaximumPayloadSize" using valid e(1) by (simp add: valid_entry_def)
    moreover have "length kept < maximum_records options" using rest(3) False limit by simp
    ultimately show ?thesis
      using read_log_cut [OF ready' e(2,3,4)] rest(1) by (simp add: make_failure_def scanned_valid_bytes [OF len])
  qed
qed

lemma recover_taken:
  assumes ready: "scan_ready parse options h es (length (take n (log_bytes h es)))" and n: "32 \<le> n"
  defines "kept \<equiv> fitting (n - 32) es"
    and "recovered \<equiv> recover_truncated_tail parse (stored (take n (log_bytes h es))) True options"
  shows "rc_succeeded (fst recovered)" and "snd recovered = log_bytes h kept"
    and "read_log parse (stored (log_bytes h kept)) options =
      (scanned options h (length (log_bytes h kept)) kept)\<lparr>rr_status := Complete, rr_message := ''log is complete''\<rparr>"
proof -
  let ?part = "take n (log_bytes h es)"
  have len: "length h = 32" and lt: "length ?part < 2 ^ 64" using ready by (simp_all add: scan_ready_def header_ok_def)
  obtain out where out: "read_log parse (stored ?part) options = out" "rr_status out \<in> {Complete, TruncatedTail}"
      "rr_valid_bytes out = of_nat (length (log_bytes h kept))" "rr_status out = Complete \<longrightarrow> ?part = log_bytes h kept"
      "take (length (log_bytes h kept)) ?part = log_bytes h kept"
    using read_log_taken [OF ready n] by (auto simp: kept_def)
  have le: "length (log_bytes h kept) \<le> length ?part" using arg_cong [OF out(5), of length] by (metis length_take min.cobounded1)
  have u: "unat (of_nat (length (log_bytes h kept)) :: u64) = length (log_bytes h kept)"
    by (rule unat_of_nat_u64) (rule le_less_trans [OF le lt])
  then have "\<not> (of_nat (length (log_bytes h kept)) :: u64) < 32" using len by (simp add: word_less_nat_alt log_bytes_def)
  then show "rc_succeeded (fst recovered)" and "snd recovered = log_bytes h kept"
    using out u by (auto simp: recovered_def recover_truncated_tail_def Let_def) (auto simp: stored_def)
  show "read_log parse (stored (log_bytes h kept)) options =
      (scanned options h (length (log_bytes h kept)) kept)\<lparr>rr_status := Complete, rr_message := ''log is complete''\<rparr>"
    unfolding kept_def by (intro read_log_whole scan_ready_fitting [OF ready]) (use le in \<open>simp add: kept_def\<close>)
qed

section \<open>A damaged byte in the record area\<close>

lemma images_update:
  assumes "i < length (images k es)"
  shows "\<exists>es1 e es2 j. es = es1 @ e # es2 \<and> j < length (record_image (k + of_nat (length es1)) e) \<and>
    images k es ! i = record_image (k + of_nat (length es1)) e ! j \<and>
    (images k es)[i := b] = images k es1 @ (record_image (k + of_nat (length es1)) e)[j := b] @ images (k + of_nat (length es1) + 1) es2"
  using assms
proof (induction es arbitrary: k i)
  case Nil
  then show ?case by simp
next
  case (Cons e es)
  let ?n = "length (record_image k e)"
  show ?case
  proof (cases "i < ?n")
    case True
    then show ?thesis
      by (intro exI [of _ "[]"] exI [of _ e] exI [of _ es] exI [of _ i])
        (simp del: length_record_image add: nth_append list_update_append1)
  next
    case False
    then have "i - ?n < length (images (k + 1) es)" using Cons.prems by simp
    from Cons.IH [OF this] obtain es1 f es2 j where
      "es = es1 @ f # es2" "j < length (record_image (k + 1 + of_nat (length es1)) f)"
      "images (k + 1) es ! (i - ?n) = record_image (k + 1 + of_nat (length es1)) f ! j"
      "(images (k + 1) es)[i - ?n := b] = images (k + 1) es1 @ (record_image (k + 1 + of_nat (length es1)) f)[j := b] @
         images (k + 1 + of_nat (length es1) + 1) es2"
      by blast
    with False show ?thesis
      by (intro exI [of _ "e # es1"] exI [of _ f] exI [of _ es2] exI [of _ j])
        (simp del: length_record_image add: nth_append list_update_append ac_simps)
  qed
qed

lemma damaged_file_header:
  assumes "header_ok h" and "i < 32" and "b \<noteq> h ! i"
  shows "\<not> header_ok (h[i := b])"
proof (cases "i < 28")
  case True
  then have "decode_little_endian (h[i := b]) 28 = (decode_little_endian h 28 :: u32)"
    by (simp add: le32.get_update_other)
  moreover have "crc32c ((take 28 h)[i := b]) \<noteq> crc32c (take 28 h)"
    using True assms by (intro crc32c_one_byte) (auto simp: header_ok_def)
  ultimately show ?thesis using assms(1) True by (auto simp: header_ok_def take_update_swap)
next
  case False
  have "(decode_little_endian (h[i := b]) 28 :: u32) \<noteq> decode_little_endian h 28"
  proof
    assume "(decode_little_endian (h[i := b]) 28 :: u32) = decode_little_endian h 28"
    from field_eqI [OF this, of i] have "h[i := b] ! i = h ! i" using False assms(2) by simp
    with assms show False by (simp add: header_ok_def)
  qed
  then show ?thesis using assms(1) False by (simp add: header_ok_def)
qed

lemma damaged_record_corrupt:
  assumes ready: "scan_ready parse options h es (length (log_bytes h es))" and i: "i < length (images 0 es)"
    and b: "b \<noteq> images 0 es ! i"
  shows "rr_status (read_log parse (stored (h @ (images 0 es)[i := b])) options) = Corrupt"
proof -
  obtain es1 e es2 j where es: "es = es1 @ e # es2" and j: "j < length (record_image (of_nat (length es1)) e)"
      and nth: "images 0 es ! i = record_image (of_nat (length es1)) e ! j"
      and upd: "(images 0 es)[i := b] = images 0 es1 @ (record_image (of_nat (length es1)) e)[j := b] @
        images (of_nat (length es1) + 1) es2"
    using images_update [OF i, of b] by auto
  let ?k = "of_nat (length es1) :: u64"
  let ?rest = "(record_image ?k e)[j := b] @ images (?k + 1) es2"
  have bs: "h @ (images 0 es)[i := b] = log_bytes h es1 @ ?rest" by (simp add: upd log_bytes_def)
  have lens: "length (log_bytes h es1 @ ?rest) = length (log_bytes h es)"
    by (simp add: log_bytes_def es images_append)
  have ready1: "scan_ready parse options h es1 (length (log_bytes h es1 @ ?rest))"
    unfolding lens using ready by (simp add: scan_ready_def es)
  have "length ?rest \<noteq> 0" using j by simp
  then have "?rest \<noteq> []" using length_0_conv by blast
  from read_log_next_record [OF ready1 this] obtain inp where
    inp: "stream_good inp" "drop (is_pos inp) (is_bytes inp) = ?rest" and
    log: "read_log parse (stored (log_bytes h es1 @ ?rest)) options =
      (case read_record parse options inp (of_nat (length (log_bytes h es1))) ?k
          (scanned options h (length (log_bytes h es1 @ ?rest)) es1) of
         Inl failure \<Rightarrow> failure | Inr (i, off, k, r) \<Rightarrow> read_records parse options i off k r)"
    by blast
  have n: "length (log_bytes h es1 @ ?rest) < 2 ^ 64" using ready1 by (simp add: scan_ready_def)
  have "\<exists>msg. read_record parse options inp (of_nat (length (log_bytes h es1))) ?k
      (scanned options h (length (log_bytes h es1 @ ?rest)) es1) =
      Inl (make_failure (scanned options h (length (log_bytes h es1 @ ?rest)) es1) Corrupt
        (of_nat (length (log_bytes h es1))) msg)"
  proof (rule read_record_damaged [OF inp j])
    show "b \<noteq> record_image ?k e ! j" using b nth by simp
    show "length (le_payload e) \<le> kMaximumPayloadSize" using ready es by (simp add: scan_ready_def valid_entry_def)
    show "length (rr_index (scanned options h (length (log_bytes h es1 @ ?rest)) es1)) \<noteq> maximum_records options"
      using ready es by (simp add: scan_ready_def)
    have "length (log_bytes h es1) < 2 ^ 64" using n by simp
    then show "unat (of_nat (length (log_bytes h es1)) :: u64) + length (record_image ?k e) \<le>
        unat (rr_file_size (scanned options h (length (log_bytes h es1 @ ?rest)) es1))"
      unfolding scanned_simps(1) unat_of_nat_u64 [OF n] by (simp add: unat_of_nat_u64)
  qed
  then show ?thesis unfolding bs log by (auto simp: make_failure_def)
qed

section \<open>Properties\<close>

text \<open>
  C7: \<^verbatim>\<open>read_log\<close> reports a file as complete exactly when the file is a 32-byte header that passes
  the header checks followed by the images of records numbered from zero, each with a payload within
  the format limit that parses to an event of the supported schema, and the record limit is not
  exceeded.  Nothing else in the file can escape the reader.
\<close>

theorem read_log_complete_iff:
  assumes "length bs < 2 ^ 64"
  shows "rr_status (read_log parse (stored bs) options) = Complete \<longleftrightarrow>
    (\<exists>h es. bs = h @ images 0 es \<and> header_ok h \<and> (\<forall>e \<in> set es. valid_entry parse e) \<and>
      length es \<le> maximum_records options)"
proof
  assume "rr_status (read_log parse (stored bs) options) = Complete"
  then obtain h es where "bs = log_bytes h es" "scan_ready parse options h es (length bs)"
    using read_log_complete_imp [OF _ assms] by blast
  then show "\<exists>h es. bs = h @ images 0 es \<and> header_ok h \<and> (\<forall>e \<in> set es. valid_entry parse e) \<and>
      length es \<le> maximum_records options"
    unfolding scan_ready_def log_bytes_def by blast
next
  assume "\<exists>h es. bs = h @ images 0 es \<and> header_ok h \<and> (\<forall>e \<in> set es. valid_entry parse e) \<and>
      length es \<le> maximum_records options"
  then obtain h es where "bs = log_bytes h es" "scan_ready parse options h es (length (log_bytes h es))"
    using assms by (auto simp: scan_ready_def log_bytes_def)
  then show "rr_status (read_log parse (stored bs) options) = Complete"
    using read_log_whole by simp
qed

text \<open>A Protobuf runtime that knows two messages, and the entries of a log that holds them.\<close>

definition sample_parse :: parser where
  "sample_parse bs = (if bs = [1, 2, 3] then Some (sample_event 1 100)
     else if bs = [4] then Some (sample_event 2 200) else None)"

definition sample_serialize :: "telemetry_event \<Rightarrow> bytes option" where
  "sample_serialize e = (if e = sample_event 1 100 then Some [1, 2, 3]
     else if e = sample_event 2 200 then Some [4] else None)"

definition sample_entries :: "log_entry list" where
  "sample_entries = [\<lparr>le_timestamp = 500, le_event = sample_event 1 100, le_payload = [1, 2, 3]\<rparr>,
     \<lparr>le_timestamp = 600, le_event = sample_event 2 200, le_payload = [4]\<rparr>]"

definition default_options :: log_read_options where
  "default_options = \<lparr>maximum_records = 1000000, retain_records = True\<rparr>"

definition sample_log :: bytes where
  "sample_log = file_header_bytes 7 @ images 0 sample_entries"

lemma sample_valid: "\<forall>e \<in> set sample_entries. valid_entry sample_parse e"
  by (simp add: sample_entries_def valid_entry_def sample_parse_def sample_event_def)

lemma length_sample_log: "length sample_log = 108"
  by (simp add: sample_log_def sample_entries_def)

lemma sample_limit: "length sample_entries \<le> maximum_records default_options"
  by (simp add: sample_entries_def default_options_def)

lemma sample_ready: "scan_ready sample_parse default_options (file_header_bytes 7) sample_entries (length sample_log)"
  by (simp add: scan_ready_def header_ok_file_header sample_valid sample_limit length_sample_log del: One_nat_def)

theorem read_log_complete_iff_witness:
  "rr_status (read_log sample_parse (stored sample_log) default_options) = Complete"
proof -
  have "\<exists>h es. sample_log = h @ images 0 es \<and> header_ok h \<and> (\<forall>e \<in> set es. valid_entry sample_parse e) \<and>
      length es \<le> maximum_records default_options"
    using sample_valid sample_limit header_ok_file_header unfolding sample_log_def by blast
  then show ?thesis
    using read_log_complete_iff [of sample_log sample_parse default_options] by (simp add: length_sample_log)
qed

lemma damaged_byte_corrupt:
  assumes complete: "rr_status (read_log parse (stored bs) options) = Complete" and len: "length bs < 2 ^ 64"
    and i: "i < length bs" and b: "b \<noteq> bs ! i"
  shows "rr_status (read_log parse (stored (bs[i := b])) options) = Corrupt"
proof -
  obtain h es where bs: "bs = log_bytes h es" and ready: "scan_ready parse options h es (length bs)"
    using read_log_complete_imp [OF complete len] by blast
  have h: "header_ok h" "length h = 32" using ready by (simp_all add: scan_ready_def header_ok_def)
  show ?thesis
  proof (cases "i < 32")
    case True
    then have bad: "\<not> header_ok (h[i := b])"
      using damaged_file_header [OF h(1)] b h(2) by (simp add: bs log_bytes_def nth_append)
    have upd: "bs[i := b] = h[i := b] @ images 0 es" using True h(2) by (simp add: bs log_bytes_def list_update_append1)
    have "length (bs[i := b]) < 2 ^ 64" using len by simp
    then show ?thesis
    proof (cases rule: read_log_outcome [where parse = parse and options = options])
      case (scanned h' es' rest)
      then have "header_ok h'" by (simp add: scan_ready_def)
      moreover have "take 32 (log_bytes h' es' @ rest) = h'" using calculation by (simp add: header_ok_def log_bytes_def)
      ultimately have "header_ok (take 32 (bs[i := b]))" unfolding scanned(1) by simp
      with bad h(2) show ?thesis by (simp add: upd)
    qed
  next
    case False
    then have "bs[i := b] = h @ (images 0 es)[i - 32 := b]" and "b \<noteq> images 0 es ! (i - 32)" and "i - 32 < length (images 0 es)"
      using h(2) b i by (simp_all add: bs log_bytes_def list_update_append nth_append)
    then show ?thesis using damaged_record_corrupt [OF ready [unfolded bs]] by simp
  qed
qed

text \<open>
  C5: Any single damaged byte of a complete log, in the file header, in a record header or in a
  payload, is detected: \<^verbatim>\<open>read_log\<close> reports the file as corrupt (never as complete, and never as a
  truncated tail), and \<^verbatim>\<open>recover_truncated_tail\<close> refuses it and leaves its bytes alone.
\<close>

theorem damaged_byte_detected:
  assumes complete: "rr_status (read_log parse (stored bs) options) = Complete" and len: "length bs < 2 ^ 64"
    and i: "i < length bs" and b: "b \<noteq> bs ! i"
  shows "rr_status (read_log parse (stored (bs[i := b])) options) = Corrupt \<and>
    \<not> rc_succeeded (fst (recover_truncated_tail parse (stored (bs[i := b])) resizes options)) \<and>
    snd (recover_truncated_tail parse (stored (bs[i := b])) resizes options) = bs[i := b]"
  using damaged_byte_corrupt [OF assms] by (simp add: recover_truncated_tail_def Let_def stored_def)

lemma sample_log_complete: "rr_status (read_log sample_parse (stored sample_log) default_options) = Complete"
  using read_log_whole [OF sample_ready [unfolded sample_log_def log_bytes_def [symmetric]]]
  by (simp add: sample_log_def log_bytes_def)

lemma sample_log_68: "sample_log ! 68 = 1"
  by (simp add: sample_log_def sample_entries_def record_image_def nth_append)

theorem damaged_byte_detected_witness:
  "rr_status (read_log sample_parse (stored (sample_log[68 := 9])) default_options) = Corrupt"
  using damaged_byte_detected [OF sample_log_complete, of 68 9 True] by (simp add: length_sample_log sample_log_68)

lemma recovery_outcome:
  fixes bs :: bytes and parse :: parser and options :: log_read_options
  assumes len: "length bs < 2 ^ 64"
  defines "before \<equiv> read_log parse (stored bs) options"
    and "rc \<equiv> fst (recover_truncated_tail parse (stored bs) True options)"
    and "bs' \<equiv> snd (recover_truncated_tail parse (stored bs) True options)"
  shows "(rc_succeeded rc \<longleftrightarrow> rr_status before \<in> {Complete, TruncatedTail}) \<and>
    (\<not> rc_succeeded rc \<longrightarrow> bs' = bs) \<and>
    (rc_succeeded rc \<longrightarrow> bs' = take (unat (rc_recovered_size rc)) bs \<and>
      rr_status (read_log parse (stored bs') options) = Complete \<and>
      rr_index (read_log parse (stored bs') options) = rr_index before \<and>
      rr_records (read_log parse (stored bs') options) = rr_records before)"
  using len
proof (cases rule: read_log_outcome [where parse = parse and options = options])
  case rejected
  then show ?thesis
    by (simp add: before_def rc_def bs'_def recover_truncated_tail_def Let_def stored_def)
next
  case (scanned h es rest)
  have h: "length h = 32" using scanned(2) by (simp add: scan_ready_def header_ok_def)
  have le: "length (log_bytes h es) \<le> length bs" unfolding scanned(1) by simp
  have n: "unat (of_nat (length (log_bytes h es)) :: u64) = length (log_bytes h es)"
    using le len by (intro unat_of_nat_u64) simp
  have ready: "scan_ready parse options h es (length (log_bytes h es))"
    using scanned(2) le by (simp add: scan_ready_def)
  note whole = read_log_whole [OF ready]
  have prefix: "take (length (log_bytes h es)) bs = log_bytes h es" unfolding scanned(1) by simp
  have big: "\<not> (of_nat (length (log_bytes h es)) :: u64) < 32"
    using n h by (simp add: word_less_nat_alt log_bytes_def)
  from scanned(3) consider
    (complete) "before = (scanned options h (length bs) es)\<lparr>rr_status := Complete, rr_message := ''log is complete''\<rparr>"
      "length (log_bytes h es) = length bs"
    | (failed) st msg where "before = make_failure (scanned options h (length bs) es) st (of_nat (length (log_bytes h es))) msg"
      "st \<noteq> Complete"
    using len by (auto simp: loop_end_def before_def unat_of_nat_u64)
  then show ?thesis
  proof cases
    case complete
    then have "bs' = bs" and "rc_succeeded rc" and "rc_recovered_size rc = of_nat (length bs)"
      by (simp_all add: bs'_def rc_def recover_truncated_tail_def Let_def before_def stored_def)
    with complete show ?thesis using len by (simp add: unat_of_nat_u64 before_def)
  next
    case failed
    have valid: "rr_valid_bytes before = of_nat (length (log_bytes h es))"
      using failed by (simp add: make_failure_def scanned_valid_bytes [OF h])
    show ?thesis
    proof (cases "st = TruncatedTail")
      case True
      with failed have "rr_status before = TruncatedTail" by (simp add: make_failure_def)
      with valid big n have rec: "rc_succeeded rc" "rc_recovered_size rc = of_nat (length (log_bytes h es))" "bs' = log_bytes h es"
        by (simp_all add: rc_def bs'_def recover_truncated_tail_def Let_def before_def [symmetric])
          (simp_all add: stored_def prefix)
      then show ?thesis using failed True whole n prefix by (simp add: make_failure_def)
    next
      case False
      with failed have "rr_status before \<noteq> TruncatedTail" "rr_status before \<noteq> Complete" by (simp_all add: make_failure_def)
      then show ?thesis
        by (simp add: rc_def bs'_def recover_truncated_tail_def Let_def before_def [symmetric]) (simp add: stored_def)
    qed
  qed
qed

text \<open>
  C6: Recovery of an arbitrary file is safe.  It succeeds exactly when the file is complete or ends
  in an incomplete record; what it leaves is a prefix of the file that \<^verbatim>\<open>read_log\<close> then reports as
  complete, with the same index and the same records as before; and in every other case the file
  keeps all its bytes.
\<close>

theorem recovery_safe:
  fixes bs :: bytes and parse :: parser and options :: log_read_options
  assumes len: "length bs < 2 ^ 64"
  defines "before \<equiv> read_log parse (stored bs) options"
    and "rc \<equiv> fst (recover_truncated_tail parse (stored bs) True options)"
    and "bs' \<equiv> snd (recover_truncated_tail parse (stored bs) True options)"
  shows "(rc_succeeded rc \<longleftrightarrow> rr_status before \<in> {Complete, TruncatedTail}) \<and>
    (\<not> rc_succeeded rc \<longrightarrow> bs' = bs) \<and>
    (rc_succeeded rc \<longrightarrow> bs' = take (unat (rc_recovered_size rc)) bs \<and>
      rr_status (read_log parse (stored bs') options) = Complete \<and>
      rr_index (read_log parse (stored bs') options) = rr_index before \<and>
      rr_records (read_log parse (stored bs') options) = rr_records before)"
  unfolding before_def rc_def bs'_def by (rule recovery_outcome [OF len])

theorem recovery_safe_witness:
  "let r = recover_truncated_tail sample_parse (stored (take 105 sample_log)) True default_options
   in rc_succeeded (fst r) \<and> rr_status (read_log sample_parse (stored (snd r)) default_options) = Complete"
proof -
  have "rr_status (read_log sample_parse (stored (take 105 sample_log)) default_options) \<in> {Complete, TruncatedTail}"
    using read_log_taken [of sample_parse default_options "file_header_bytes 7" sample_entries 105] sample_ready
    by (auto simp: sample_log_def log_bytes_def scan_ready_def)
  moreover have "length (take 105 sample_log) < 2 ^ 64" by (simp add: length_sample_log)
  ultimately show ?thesis
    unfolding Let_def using recovery_safe [of "take 105 sample_log" sample_parse default_options] by blast
qed

end
