(* ===== verification/TF_Writing.thy ===== *)
theory TF_Writing
  imports TF_Recovery
begin

text \<open>
  What \<^verbatim>\<open>LogWriter\<close> leaves in its file, for every sequence of \<^verbatim>\<open>append\<close> calls and every way the
  output stream can fail, and what \<^verbatim>\<open>read_log\<close> and \<^verbatim>\<open>recover_truncated_tail\<close> make of it.
\<close>

section \<open>One append\<close>

fun append_all :: "(telemetry_event \<Rightarrow> bytes option) \<Rightarrow> (telemetry_event \<times> i64) list \<Rightarrow> log_writer \<Rightarrow> bool list \<times> log_writer" where
  "append_all serialize [] w = ([], w)"
| "append_all serialize ((e, t) # xs) w =
     (case append_event serialize e t w of (ok, w') \<Rightarrow>
      case append_all serialize xs w' of (oks, w'') \<Rightarrow> (ok # oks, w''))"

definition entry_of :: "(telemetry_event \<Rightarrow> bytes option) \<Rightarrow> telemetry_event \<times> i64 \<Rightarrow> log_entry" where
  "entry_of serialize x = \<lparr>le_timestamp = snd x, le_event = fst x, le_payload = the (serialize (fst x))\<rparr>"

text \<open>The events the writer is willing to record.\<close>

definition recordable :: "(telemetry_event \<Rightarrow> bytes option) \<Rightarrow> telemetry_event \<Rightarrow> bool" where
  "recordable serialize e \<longleftrightarrow> schema_version e = kTelemetrySchemaVersion \<and>
     (\<exists>p. serialize e = Some p \<and> length p \<le> kMaximumPayloadSize)"

abbreviation w_data :: "log_writer \<Rightarrow> bytes" where
  "w_data w \<equiv> os_data (w_output w)"

lemma not_good_fail: "message \<noteq> [] \<Longrightarrow> \<not> good (fail message w)"
  by (simp add: good_def fail_def)

lemma fail_simps [simp]: "w_output (fail m w) = w_output w" "w_record_count (fail m w) = w_record_count w"
    "w_bytes_written (fail m w) = w_bytes_written w" "w_options (fail m w) = w_options w"
  by (simp_all add: fail_def)

abbreviation w_flushed :: "log_writer \<Rightarrow> nat" where
  "w_flushed w \<equiv> os_flushed (w_output w)"

lemma write_bytes_ok:
  assumes "write_bytes bs w = (True, w')" and "good w"
  shows "good w' \<and> w_data w' = w_data w @ bs \<and> w_record_count w' = w_record_count w \<and> w_options w' = w_options w \<and>
    w_bytes_written w' = w_bytes_written w + of_nat (length bs) \<and> w_flushed w' = w_flushed w"
  using assms by (auto simp: write_bytes_def good_def Let_def stream split: if_splits)

lemma write_bytes_failed:
  assumes "write_bytes bs w = (False, w')"
  shows "\<not> good w' \<and> w_record_count w' = w_record_count w \<and> w_options w' = w_options w \<and> w_flushed w' = w_flushed w \<and>
    (\<exists>n. w_data w' = w_data w @ take n bs)"
  using assms os_write_partial [of bs "w_output w"]
  by (auto simp: write_bytes_def Let_def not_good_fail stream split: if_splits)

lemma flush_cases:
  assumes "flush w = (ok, w')" and "good w"
  shows "(ok \<longleftrightarrow> good w') \<and> w_data w' = w_data w \<and> w_record_count w' = w_record_count w \<and>
    w_bytes_written w' = w_bytes_written w \<and> w_options w' = w_options w \<and>
    w_flushed w' = (if ok then length (w_data w') else w_flushed w)"
  using assms by (auto simp: flush_def Let_def stream not_good_fail good_def [of w] split: if_splits)
    (auto simp: good_def stream)

lemma flushed_writer:
  "flush w = (True, w') \<Longrightarrow> good w \<and> good w' \<and> w_data w' = w_data w \<and> w_flushed w' = length (w_data w') \<and>
     w_record_count w' = w_record_count w \<and> w_bytes_written w' = w_bytes_written w \<and> w_options w' = w_options w"
  using flush_cases [of w True w'] by (cases "good w") (auto simp: flush_def)

lemma flushed_on_disk: "flush w = (True, w') \<Longrightarrow> on_disk (w_output w') bs \<Longrightarrow> bs = w_data w"
  using flushed_writer [of w w'] by (auto simp: on_disk_def)

lemma good_count: "good (w\<lparr>w_record_count := n\<rparr>) = good w"
  by (simp add: good_def)

lemma take_of_header: "\<exists>m. take n (record_header_bytes k t p) = take m (record_header_bytes k t p @ p)"
  by (rule exI [of _ "min n 36"]) (cases "n \<le> 36"; simp add: min_def)

definition stored_whole :: "bytes \<Rightarrow> i64 \<Rightarrow> log_writer \<Rightarrow> bool \<Rightarrow> log_writer \<Rightarrow> bool" where
  "stored_whole p t w ok w' \<longleftrightarrow> w_record_count w' = w_record_count w + 1 \<and> (ok \<longleftrightarrow> good w') \<and>
     w_options w' = w_options w \<and>
     w_data w' = w_data w @ record_header_bytes (w_record_count w) t p @ p \<and>
     w_bytes_written w' = w_bytes_written w + of_nat (36 + length p) \<and>
     w_flushed w' = (if ok \<and> (w_record_count w + 1) mod flush_every_records (w_options w) = 0
                     then length (w_data w') else w_flushed w)"

definition stored_part :: "bytes \<Rightarrow> i64 \<Rightarrow> log_writer \<Rightarrow> bool \<Rightarrow> log_writer \<Rightarrow> bool" where
  "stored_part p t w ok w' \<longleftrightarrow> w_record_count w' = w_record_count w \<and> \<not> ok \<and> \<not> good w' \<and>
     w_options w' = w_options w \<and> w_flushed w' = w_flushed w \<and>
     (\<exists>m. w_data w' = w_data w @ take m (record_header_bytes (w_record_count w) t p @ p))"

lemma append_payload_cases:
  assumes "append_payload p t w = (ok, w')" and "good w"
  shows "stored_whole p t w ok w' \<or> stored_part p t w ok w'"
proof -
  let ?h = "record_header_bytes (w_record_count w) t p"
  obtain ok1 w1 where w1: "write_bytes ?h w = (ok1, w1)" by (metis surj_pair)
  show ?thesis
  proof (cases ok1)
    case False
    with w1 assms(1) have "w' = w1" "\<not> ok" by (simp_all add: append_payload_def)
    moreover from w1 False have "write_bytes ?h w = (False, w1)" by simp
    note write_bytes_failed [OF this]
    ultimately show ?thesis using take_of_header by (metis stored_part_def)
  next
    case True
    note g1 = write_bytes_ok [OF w1 [unfolded True [THEN eqTrueI]] assms(2)]
    obtain ok2 w2 where w2: "write_bytes p w1 = (ok2, w2)" by (metis surj_pair)
    show ?thesis
    proof (cases ok2)
      case False
      with w1 w2 True assms(1) have "w' = w2" "\<not> ok" by (simp_all add: append_payload_def)
      moreover from w2 False have f: "write_bytes p w1 = (False, w2)" by simp
      moreover obtain n where "w_data w2 = w_data w1 @ take n p" using write_bytes_failed [OF f] by blast
      moreover have "?h @ take n p = take (36 + n) (?h @ p)" by simp
      ultimately show ?thesis using g1 write_bytes_failed [OF f] by (metis append.assoc stored_part_def)
    next
      case ok2: True
      note g2 = write_bytes_ok [OF w2 [unfolded ok2 [THEN eqTrueI]]]
      let ?w3 = "w2\<lparr>w_record_count := w_record_count w2 + 1\<rparr>"
      have good3: "good ?w3" using g1 g2 by (simp add: good_count)
      have "ok = fst (if w_record_count ?w3 mod flush_every_records (w_options ?w3) = 0 then flush ?w3 else (True, ?w3)) \<and>
          w' = snd (if w_record_count ?w3 mod flush_every_records (w_options ?w3) = 0 then flush ?w3 else (True, ?w3))"
        using assms(1) w1 w2 True ok2 by (auto simp: append_payload_def Let_def split: prod.splits bool.splits if_splits)
      then have "stored_whole p t w ok w'"
        using g1 g2 good3 flush_cases [of ?w3 "fst (flush ?w3)" "snd (flush ?w3)"]
        by (auto simp: stored_whole_def split: if_splits)
      then show ?thesis ..
    qed
  qed
qed

lemma append_event_not_good: "\<not> good w \<Longrightarrow> append_event serialize e t w = (False, w)"
  by (simp add: append_event_def)

lemma append_event_cases:
  assumes "append_event serialize e t w = (ok, w')" and "good w"
  obtains
    (refused) "\<not> ok" "\<not> good w'" "\<not> recordable serialize e" "w_record_count w' = w_record_count w"
      "w_output w' = w_output w" "w_options w' = w_options w"
  | (recorded) p where "recordable serialize e" "serialize e = Some p" "stored_whole p t w ok w'"
  | (torn) p where "recordable serialize e" "serialize e = Some p" "stored_part p t w ok w'"
proof (cases "recordable serialize e")
  case False
  with assms show ?thesis
    by (intro refused) (auto simp: append_event_def recordable_def not_good_fail split: option.splits if_splits)
next
  case True
  then obtain p where p: "serialize e = Some p" and "append_payload p t w = (ok, w')"
    using assms by (auto simp: append_event_def recordable_def)
  then show ?thesis
    using append_payload_cases [of p t w ok w'] assms(2) True recorded torn by blast
qed

section \<open>A run of appends\<close>

abbreviation bytes_of :: "(telemetry_event \<Rightarrow> bytes option) \<Rightarrow> bytes \<Rightarrow> (telemetry_event \<times> i64) list \<Rightarrow> bytes" where
  "bytes_of serialize h xs \<equiv> log_bytes h (map (entry_of serialize) xs)"

lemma bytes_of_snoc:
  "serialize (fst x) = Some p \<Longrightarrow>
     bytes_of serialize h (xs @ [x]) = bytes_of serialize h xs @ record_header_bytes (of_nat (length xs)) (snd x) p @ p"
  by (simp add: log_bytes_def images_append entry_of_def record_image_def)

lemma length_bytes_of_take: "length (bytes_of serialize h (take i xs)) \<le> length (bytes_of serialize h xs)"
  using append_take_drop_id [of i xs]
  by (metis images_append length_append le_add1 log_bytes_def map_append append.assoc)

text \<open>
  The file after the calls \<open>xs\<close>, of which \<open>a\<close> returned true: the first \<open>j\<close> events are counted and
  wholly written, and if a write failed the data end inside one further record.  As long as the
  writer is good it has recorded everything, and the records up to the last multiple of the flush
  interval are flushed.
\<close>

definition writer_file ::
  "(telemetry_event \<Rightarrow> bytes option) \<Rightarrow> bytes \<Rightarrow> (telemetry_event \<times> i64) list \<Rightarrow> nat \<Rightarrow> log_writer \<Rightarrow> bool" where
  "writer_file serialize h xs a w \<longleftrightarrow> a \<le> length xs \<and>
     (good w \<longrightarrow> a = length xs \<and> w_record_count w = of_nat a \<and> w_data w = bytes_of serialize h xs \<and>
        w_bytes_written w = of_nat (length (w_data w))) \<and>
     (\<exists>i m. a \<le> i \<and> i \<le> length xs \<and> (\<forall>x \<in> set (take i xs). recordable serialize (fst x)) \<and>
        w_data w = take m (bytes_of serialize h (take i xs)) \<and>
        length (bytes_of serialize h (take a xs)) \<le> length (w_data w)) \<and>
     (let c = a div unat (flush_every_records (w_options w)) * unat (flush_every_records (w_options w))
      in c \<noteq> 0 \<longrightarrow> length (bytes_of serialize h (take c xs)) \<le> w_flushed w)"

lemma take_snoc_short: "c \<le> length xs \<Longrightarrow> take c (xs @ [x]) = take c xs"
  by simp

lemma flush_point:
  fixes k :: u64
  assumes "Suc a < 2 ^ 64"
  shows "((of_nat a + 1 :: u64) mod k = 0) = (Suc a mod unat k = 0)"
proof -
  have u: "unat (of_nat a + 1 :: u64) = Suc a"
    using assms unat_of_nat_u64 [of "Suc a"] by (simp add: add.commute)
  show ?thesis by (simp add: word_unat_eq_iff unat_mod u)
qed

lemma div_mult_Suc: "Suc a div k * k = (if Suc a mod k = 0 then Suc a else a div k * k)" for a k :: nat
  by (cases "k = 0") (auto simp: div_Suc mod_Suc minus_mod_eq_div_mult [symmetric])

lemma writer_file_failed:
  assumes wf: "writer_file serialize h xs a w" and "good w" and bad: "\<not> good w'"
    and flushed: "w_flushed w' = w_flushed w" "w_options w' = w_options w"
    and d: "w_data w' = w_data w @ take m r" and r: "m = 0 \<or> recordable serialize (fst x) \<and>
      r = record_header_bytes (of_nat (length xs)) (snd x) (the (serialize (fst x))) @ the (serialize (fst x))"
  shows "writer_file serialize h (xs @ [x]) a w'"
proof -
  have old: "a = length xs" "w_data w = bytes_of serialize h xs" "\<forall>x \<in> set xs. recordable serialize (fst x)"
    using wf \<open>good w\<close> by (auto simp: writer_file_def)
  have "\<exists>i m'. a \<le> i \<and> i \<le> length (xs @ [x]) \<and> (\<forall>x \<in> set (take i (xs @ [x])). recordable serialize (fst x)) \<and>
      w_data w' = take m' (bytes_of serialize h (take i (xs @ [x])))"
  proof (cases "m = 0")
    case True
    then show ?thesis using old d by (intro exI [of _ "length xs"] exI [of _ "length (w_data w)"]) simp
  next
    case False
    then have "bytes_of serialize h (xs @ [x]) = w_data w @ r" using r old(2) bytes_of_snoc [of serialize x]
      by (auto simp: recordable_def)
    then show ?thesis using old r False d
      by (intro exI [of _ "Suc (length xs)"] exI [of _ "length (w_data w) + m"]) simp
  qed
  moreover have "length (bytes_of serialize h (take a (xs @ [x]))) \<le> length (w_data w')" using old d by simp
  moreover have "take (a div k * k) (xs @ [x]) = take (a div k * k) xs" for k
    using old(1) by (intro take_snoc_short) simp
  ultimately show ?thesis using wf bad flushed old(1) by (simp add: writer_file_def Let_def)
qed

lemma writer_file_step:
  assumes wf: "writer_file serialize h xs a w" and call: "append_event serialize e t w = (ok, w')"
    and limit: "Suc (length xs) < 2 ^ 64"
  shows "writer_file serialize h (xs @ [(e, t)]) (if ok then Suc a else a) w' \<and> (ok \<longrightarrow> good w \<and> good w') \<and>
    (good w' \<longrightarrow> ok)"
proof (cases "good w")
  case False
  have a: "a \<le> length xs" using wf by (simp add: writer_file_def)
  have c: "take (a div k * k) (xs @ [(e, t)]) = take (a div k * k) xs" for k
    by (rule take_snoc_short) (rule order_trans [OF div_times_less_eq_dividend a])
  from wf obtain i m where i: "a \<le> i" "i \<le> length xs" "\<forall>x \<in> set (take i xs). recordable serialize (fst x)"
      "w_data w = take m (bytes_of serialize h (take i xs))" "length (bytes_of serialize h (take a xs)) \<le> length (w_data w)"
    unfolding writer_file_def by blast
  have "\<exists>i m. a \<le> i \<and> i \<le> length (xs @ [(e, t)]) \<and>
      (\<forall>x \<in> set (take i (xs @ [(e, t)])). recordable serialize (fst x)) \<and>
      w_data w = take m (bytes_of serialize h (take i (xs @ [(e, t)]))) \<and>
      length (bytes_of serialize h (take a (xs @ [(e, t)]))) \<le> length (w_data w)"
    using i a by (intro exI [of _ i] exI [of _ m]) (simp add: take_snoc_short)
  then have "writer_file serialize h (xs @ [(e, t)]) a w"
    using wf False a unfolding writer_file_def Let_def c by simp
  then show ?thesis using call False by (simp add: append_event_not_good)
next
  case True
  have old: "a = length xs" "w_record_count w = of_nat a" "w_data w = bytes_of serialize h xs"
      "w_bytes_written w = of_nat (length (w_data w))" "\<forall>x \<in> set xs. recordable serialize (fst x)"
    using wf True by (auto simp: writer_file_def)
  from call True show ?thesis
  proof (cases rule: append_event_cases)
    case refused
    then show ?thesis using writer_file_failed [OF wf True refused(2), of 0 "[]" "(e, t)"] by simp
  next
    case (torn p)
    then obtain m where "w_data w' = w_data w @ take m (record_header_bytes (of_nat (length xs)) t p @ p)"
      using old(1,2) by (auto simp: stored_part_def)
    from writer_file_failed [OF wf True _ _ _ this, of "(e, t)"] torn show ?thesis by (simp add: stored_part_def)
  next
    case (recorded p)
    note st = recorded(3) [unfolded stored_whole_def]
    have new: "w_data w' = bytes_of serialize h (xs @ [(e, t)])"
      using st old bytes_of_snoc [of serialize "(e, t)" p h xs] recorded(2) by simp
    have len: "length (w_data w') = length (w_data w) + (36 + length p)" using st by simp
    let ?k = "unat (flush_every_records (w_options w))" and ?a = "if ok then Suc a else a"
    have fl: "w_flushed w' = (if ok \<and> Suc a mod ?k = 0 then length (w_data w') else w_flushed w)"
      using st old(1,2) limit flush_point [of a] by simp
    have "\<exists>i m. ?a \<le> i \<and> i \<le> length (xs @ [(e, t)]) \<and>
        (\<forall>x \<in> set (take i (xs @ [(e, t)])). recordable serialize (fst x)) \<and>
        w_data w' = take m (bytes_of serialize h (take i (xs @ [(e, t)])))"
      using new old(1,5) recorded(1) by (intro exI [of _ "Suc (length xs)"] exI [of _ "length (w_data w')"]) auto
    moreover have "length (bytes_of serialize h (take ?a (xs @ [(e, t)]))) \<le> length (w_data w')"
      using new length_bytes_of_take by metis
    moreover have "length (bytes_of serialize h (take (?a div ?k * ?k) (xs @ [(e, t)]))) \<le> w_flushed w'" if "?a div ?k * ?k \<noteq> 0"
    proof (cases "ok \<and> Suc a mod ?k = 0")
      case True
      then show ?thesis using fl new length_bytes_of_take by metis
    next
      case False
      then have "?a div ?k * ?k = a div ?k * ?k" using div_mult_Suc [of a ?k] by (cases ok) simp_all
      with that wf fl False old(1) show ?thesis by (auto simp: writer_file_def Let_def)
    qed
    moreover have "w_bytes_written w' = of_nat (length (w_data w'))" using st old(4) len by simp
    ultimately show ?thesis using st old(1,2) new True by (simp add: writer_file_def Let_def)
  qed
qed

lemma writer_file_run:
  assumes "writer_file serialize h ys a w" and "append_all serialize xs w = (oks, w')"
    and "length ys + length xs < 2 ^ 64"
  shows "\<exists>b. writer_file serialize h (ys @ xs) (a + b) w' \<and> b \<le> length xs \<and>
    oks = replicate b True @ replicate (length xs - b) False \<and> (0 < b \<longrightarrow> good w) \<and> (xs \<noteq> [] \<longrightarrow> good w' = (b = length xs))"
  using assms
proof (induction xs arbitrary: ys a w oks)
  case (Cons x xs)
  obtain e t where x: "x = (e, t)" by (cases x)
  obtain ok w1 oks1 where s: "append_event serialize e t w = (ok, w1)" "append_all serialize xs w1 = (oks1, w')" "oks = ok # oks1"
    using Cons.prems(2) x by (auto split: prod.splits)
  note st = writer_file_step [OF Cons.prems(1) s(1)]
  then have st: "writer_file serialize h (ys @ [x]) (if ok then Suc a else a) w1" "ok \<longrightarrow> good w" "ok = good w1"
    using Cons.prems(3) x by auto
  from Cons.IH [OF st(1) s(2)] Cons.prems(3) obtain b where b:
      "writer_file serialize h (ys @ x # xs) ((if ok then Suc a else a) + b) w'" "b \<le> length xs"
      "oks1 = replicate b True @ replicate (length xs - b) False" "0 < b \<longrightarrow> good w1"
      "xs \<noteq> [] \<longrightarrow> good w' = (b = length xs)"
    by auto
  have "xs = [] \<longrightarrow> good w' = good w1" using s(2) by auto
  show ?case
  proof (cases ok)
    case True
    then show ?thesis using b s(3) st \<open>xs = [] \<longrightarrow> _\<close> by (intro exI [of _ "Suc b"]) auto
  next
    case False
    then have "b = 0" using b(4) st(3) by simp
    then show ?thesis using b s(3) st False \<open>xs = [] \<longrightarrow> _\<close> by (intro exI [of _ 0]) auto
  qed
qed simp

lemma append_event_options: "w_options (snd (append_event serialize e t w)) = w_options w"
proof (cases "good w")
  case True
  obtain ok w' where call: "append_event serialize e t w = (ok, w')" by (metis surj_pair)
  from call True show ?thesis
    by (cases rule: append_event_cases) (simp_all add: call stored_whole_def stored_part_def)
qed (simp add: append_event_not_good)

lemma append_all_options: "append_all serialize xs w = (oks, w') \<Longrightarrow> w_options w' = w_options w"
proof (induction xs arbitrary: w oks)
  case (Cons x xs)
  then show ?case
    using append_event_options [of serialize "fst x" "snd x" w] by (cases x) (auto split: prod.splits)
qed simp

lemma append_all_not_good: "\<not> good w \<Longrightarrow> append_all serialize xs w = (replicate (length xs) False, w)"
  by (induction xs) (auto simp: append_event_not_good)

lemma append_event_ok: "append_event serialize e t w = (ok, w') \<Longrightarrow> ok = (good w \<and> good w')"
proof (cases "good w")
  case True
  assume call: "append_event serialize e t w = (ok, w')"
  from call True show ?thesis
    by (cases rule: append_event_cases) (auto simp: True stored_whole_def stored_part_def)
qed (simp add: append_event_not_good)

lemma append_all_good:
  "append_all serialize xs w = (replicate (length xs) True, w') \<Longrightarrow> good w \<Longrightarrow> good w'"
proof (induction xs arbitrary: w)
  case (Cons x xs)
  then show ?case using append_event_ok [of serialize "fst x" "snd x" w] by (cases x) (auto split: prod.splits)
qed simp

section \<open>The constructor\<close>

lemma new_writer_options:
  "flush_every_records (w_options (new_writer path options env)) = flush_every_records options"
  by (auto simp: new_writer_def Let_def write_file_header_def write_bytes_def)

lemma new_writer_file:
  defines "w \<equiv> \<lambda>path options env. new_writer path options env"
  shows "writer_file serialize (file_header_bytes (created_unix_ns (w_options (w path options env)))) [] 0 (w path options env) \<or>
    \<not> good (w path options env) \<and> length (w_data (w path options env)) < 32"
proof (cases "flush_every_records options = 0 \<or> oe_exists_error env \<or> oe_exists env \<or> \<not> oe_opens env")
  case True
  then show ?thesis
    by (auto simp: w_def new_writer_def Let_def not_good_fail closed_ofstream_def os_open_failed_def)
next
  case False
  define w0 where "w0 = \<lparr>w_path = path, w_options = (if created_unix_ns options = 0
      then options\<lparr>created_unix_ns := oe_unix_time_ns env\<rparr> else options), w_output = os_opened (oe_outcomes env),
      w_error = [], w_record_count = 0, w_bytes_written = 0\<rparr>"
  let ?h = "file_header_bytes (created_unix_ns (w_options w0))"
  have w0: "good w0" "w_data w0 = []" "w_flushed w0 = 0" by (simp_all add: w0_def good_def os_opened_def)
  obtain ok w1 where w1: "write_bytes ?h w0 = (ok, w1)" by (metis surj_pair)
  have "w path options env = w1" using False w1 by (simp add: w_def new_writer_def w0_def write_file_header_def Let_def split: if_split_asm)
  moreover have "w_record_count w0 = 0" "w_bytes_written w0 = 0" by (simp_all add: w0_def)
  moreover have "writer_file serialize (file_header_bytes (created_unix_ns (w_options w1))) [] 0 w1 \<or>
      \<not> good w1 \<and> length (w_data w1) < 32"
  proof (cases ok)
    case True
    with w1 have "write_bytes ?h w0 = (True, w1)" by simp
    from write_bytes_ok [OF this w0(1)] w0 \<open>w_record_count w0 = 0\<close> \<open>w_bytes_written w0 = 0\<close> show ?thesis
      by (auto simp: writer_file_def log_bytes_def intro: exI [of _ 32])
  next
    case False
    with w1 have "write_bytes ?h w0 = (False, w1)" by simp
    from write_bytes_failed [OF this] w0 obtain n where "\<not> good w1" "w_options w1 = w_options w0"
        "w_flushed w1 = 0" "w_data w1 = take n ?h"
      by auto
    then show ?thesis by (cases "n < 32") (auto simp: writer_file_def log_bytes_def intro: exI [of _ 32])
  qed
  ultimately show ?thesis by simp
qed

lemma writer_run:
  assumes run: "append_all serialize xs (new_writer path options env) = (oks, w)"
    and header: "32 \<le> length (w_data w)" and limit: "length xs < 2 ^ 64"
  defines "a \<equiv> length (filter id oks)" and "h \<equiv> file_header_bytes (created_unix_ns (w_options w))"
  shows "writer_file serialize h xs a w" and "oks = replicate a True @ replicate (length xs - a) False"
    and "flush_every_records (w_options w) = flush_every_records options"
proof -
  let ?w = "new_writer path options env"
  note opts = append_all_options [OF run]
  show "flush_every_records (w_options w) = flush_every_records options" using opts new_writer_options by simp
  have "writer_file serialize h [] 0 ?w"
    using new_writer_file [of serialize path options env] append_all_not_good [of ?w serialize xs] run header opts
    by (auto simp: h_def)
  from writer_file_run [OF this run] limit obtain b where
    b: "writer_file serialize h xs b w" "oks = replicate b True @ replicate (length xs - b) False"
    by auto
  moreover have "a = b" unfolding a_def b(2) by simp
  ultimately show "writer_file serialize h xs a w" "oks = replicate a True @ replicate (length xs - a) False" by simp_all
qed

section \<open>Reading back what was written\<close>

text \<open>What the recorder relies on in Protobuf: a serialised message parses to itself.\<close>

definition protobuf_roundtrip :: "(telemetry_event \<Rightarrow> bytes option) \<Rightarrow> parser \<Rightarrow> bool" where
  "protobuf_roundtrip serialize parse \<longleftrightarrow> (\<forall>e p. serialize e = Some p \<longrightarrow> parse p = Some e)"

abbreviation read_events :: "log_read_result \<Rightarrow> (telemetry_event \<times> i64) list" where
  "read_events r \<equiv> map (\<lambda>l. (lr_event l, lr_collector_arrival_timestamp_ns l)) (rr_records r)"

lemma recordable_valid:
  "protobuf_roundtrip serialize parse \<Longrightarrow> recordable serialize (fst x) \<Longrightarrow> valid_entry parse (entry_of serialize x)"
  by (auto simp: protobuf_roundtrip_def recordable_def valid_entry_def entry_of_def)

lemma read_events_entries:
  "map (\<lambda>l. (lr_event l, lr_collector_arrival_timestamp_ns l)) (entries_at entry_record k off (map (entry_of serialize) xs)) = xs"
  by (subst map_entries_at [where h = "\<lambda>e. (le_event e, le_timestamp e)"])
    (simp_all add: entry_record_def entry_of_def comp_def)

lemma fitting_map: "\<exists>j. fitting n (map f xs) = map f (take j xs)"
  using fitting_prefix [of "map f xs" n] by (metis append_eq_conv_conj take_map)

lemma fitting_length:
  assumes "length h = 32" and "c \<le> length es" and "length (log_bytes h (take c es)) \<le> n"
  shows "c \<le> length (fitting (n - 32) es)"
proof -
  have "length (images 0 (take c es)) \<le> n - 32" using assms(1,3) by (simp add: log_bytes_def)
  then have "take c (fitting (n - 32) es) = take c es" by (rule fitting_take)
  then have "length (take c (fitting (n - 32) es)) = c" using assms(2) by simp
  then show ?thesis by simp
qed

lemma surviving_log_recovers:
  assumes run: "append_all serialize xs (new_writer path options env) = (oks, w)"
    and pb: "protobuf_roundtrip serialize parse"
    and survived: "bs = take n (w_data w)" "w_flushed w \<le> n" "32 \<le> length bs"
    and limits: "length bs < 2 ^ 64" "length xs < 2 ^ 64" "length xs \<le> maximum_records ropts" "retain_records ropts"
  defines "a \<equiv> length (filter id oks)" and "k \<equiv> unat (flush_every_records options)"
    and "recovered \<equiv> recover_truncated_tail parse (stored bs) True ropts"
  shows "rc_succeeded (fst recovered) \<and> rr_status (read_log parse (stored (snd recovered)) ropts) = Complete \<and>
    (\<exists>j. read_events (read_log parse (stored (snd recovered)) ropts) = take j xs \<and> j \<le> length xs \<and>
      a div k * k \<le> j \<and> (length (w_data w) \<le> n \<longrightarrow> a \<le> j))"
proof -
  define h where "h = file_header_bytes (created_unix_ns (w_options w))"
  have "32 \<le> length (w_data w)" using survived by simp
  note wr = writer_run [OF run this limits(2), folded a_def h_def]
  obtain i m where i: "a \<le> i" "i \<le> length xs" "\<forall>x \<in> set (take i xs). recordable serialize (fst x)"
      "w_data w = take m (bytes_of serialize h (take i xs))" "length (bytes_of serialize h (take a xs)) \<le> length (w_data w)"
    using wr(1) unfolding writer_file_def by blast
  define es where "es = map (entry_of serialize) (take i xs)"
  have es: "bs = take (min n m) (log_bytes h es)" using survived(1) i(4) by (simp add: es_def min.commute)
  have n32: "32 \<le> min n m" using survived(3) es by simp
  have ready: "scan_ready parse ropts h es (length (take (min n m) (log_bytes h es)))"
    using limits i(2,3) recordable_valid [OF pb] es header_ok_file_header
    by (auto simp: scan_ready_def es_def h_def)
  note rec = recover_taken [OF ready n32, folded es]
  obtain j where j: "fitting (min n m - 32) es = map (entry_of serialize) (take j (take i xs))"
    using fitting_map unfolding es_def by blast
  have fit: "c \<le> length (fitting (min n m - 32) es)"
    if "c \<le> i" "length (bytes_of serialize h (take c xs)) \<le> min n m" for c
    using that i(2) by (intro fitting_length [of h]) (simp_all add: es_def h_def take_map)
  have ev: "read_events (read_log parse (stored (snd recovered)) ropts) = take j (take i xs)"
    using rec(2,3) limits(4) by (simp add: recovered_def j read_events_entries)
  have len: "length (fitting (min n m - 32) es) = min j i" using i(2) by (simp add: j)
  have "\<exists>j. read_events (read_log parse (stored (snd recovered)) ropts) = take j xs \<and> j \<le> length xs \<and>
      a div k * k \<le> j \<and> (length (w_data w) \<le> n \<longrightarrow> a \<le> j)"
  proof (intro exI [of _ "length (fitting (min n m - 32) es)"] conjI impI)
    show "read_events (read_log parse (stored (snd recovered)) ropts) = take (length (fitting (min n m - 32) es)) xs"
      unfolding len ev by (simp add: take_take)
    show "length (fitting (min n m - 32) es) \<le> length xs" by (simp add: j)
    show "a \<le> length (fitting (min n m - 32) es)" if "length (w_data w) \<le> n"
      using that i by (intro fit) (auto simp: i(4))
    show "a div k * k \<le> length (fitting (min n m - 32) es)"
    proof (cases "a div k * k = 0")
      case False
      have c: "a div k * k \<le> a" by simp
      have "length (bytes_of serialize h (take (a div k * k) xs)) \<le> length (bytes_of serialize h (take a xs))"
        using length_bytes_of_take [where i = "a div k * k" and xs = "take a xs"] c by (simp add: min_def)
      moreover have "length (bytes_of serialize h (take (a div k * k) xs)) \<le> w_flushed w"
        using wr(1,3) False by (simp add: writer_file_def Let_def k_def)
      ultimately show ?thesis using i survived(2) order_trans [OF c i(1)] by (intro fit) (auto simp: i(4))
    qed auto
  qed
  then show ?thesis using rec limits(4) by (simp add: recovered_def)
qed

text \<open>
  C4: Crash safety.  Take any sequence of \<^verbatim>\<open>append\<close> calls on a freshly constructed writer, with
  output operations failing or writing short at any point, and let any part of the written data
  that has a whole file header and everything flushed survive.  Then \<^verbatim>\<open>recover_truncated_tail\<close>
  succeeds, the recovered file is complete, and its records are the first events appended, in
  order: all that were successfully appended up to the last multiple of \<^verbatim>\<open>flush_every_records\<close>, and
  all successfully appended ones if no byte was lost.
\<close>

theorem crash_recovery:
  assumes run: "append_all serialize xs (new_writer path options env) = (oks, w)"
    and pb: "protobuf_roundtrip serialize parse"
    and survived: "bs = take n (w_data w)" "w_flushed w \<le> n" "32 \<le> length bs"
    and limits: "length bs < 2 ^ 64" "length xs < 2 ^ 64" "length xs \<le> maximum_records ropts" "retain_records ropts"
  defines "a \<equiv> length (filter id oks)" and "k \<equiv> unat (flush_every_records options)"
    and "recovered \<equiv> recover_truncated_tail parse (stored bs) True ropts"
  shows "rc_succeeded (fst recovered) \<and> rr_status (read_log parse (stored (snd recovered)) ropts) = Complete \<and>
    (\<exists>j. read_events (read_log parse (stored (snd recovered)) ropts) = take j xs \<and> j \<le> length xs \<and>
      a div k * k \<le> j \<and> (length (w_data w) \<le> n \<longrightarrow> a \<le> j))"
  unfolding a_def k_def recovered_def by (rule surviving_log_recovers [OF run pb survived limits])

text \<open>A run whose fifth output operation, the header of the second record, is cut short by the device.\<close>

definition sample_run :: "(telemetry_event \<times> i64) list" where
  "sample_run = [(sample_event 1 100, 500), (sample_event 2 200, 600)]"

definition sample_env :: "io_outcome list \<Rightarrow> open_env" where
  "sample_env outcomes = \<lparr>oe_unix_time_ns = 7, oe_exists_error = False, oe_exists = False, oe_opens = True, oe_outcomes = outcomes\<rparr>"

definition sample_writer :: "io_outcome list \<Rightarrow> log_writer" where
  "sample_writer outcomes = new_writer ''run.tflog'' \<lparr>flush_every_records = 1, created_unix_ns = 0\<rparr> (sample_env outcomes)"

lemma sample_roundtrip: "protobuf_roundtrip sample_serialize sample_parse"
  by (simp add: protobuf_roundtrip_def sample_serialize_def sample_parse_def)

lemmas sample_writing = sample_run_def sample_writer_def sample_env_def new_writer_def Let_def write_file_header_def
  write_bytes_def os_opened_def os_write_def append_event_def good_def sample_serialize_def append_payload_def fail_def
  flush_def os_flush_def

lemma sample_limits: "length sample_run = 2" "maximum_records default_options = 1000000" "retain_records default_options"
  by (simp_all add: sample_run_def default_options_def)

lemma sample_torn_run:
  "let (oks, w) = append_all sample_serialize sample_run (sample_writer [IoOk, IoOk, IoOk, IoOk, IoFail 10])
   in oks = [True, False] \<and> length (w_data w) = 81 \<and> w_flushed w = 71"
  by (simp add: sample_writing sample_event_def)

theorem crash_recovery_witness:
  "let (oks, w) = append_all sample_serialize sample_run (sample_writer [IoOk, IoOk, IoOk, IoOk, IoFail 10]);
       recovered = recover_truncated_tail sample_parse (stored (take 75 (w_data w))) True default_options
   in rc_succeeded (fst recovered) \<and>
      (\<exists>j. read_events (read_log sample_parse (stored (snd recovered)) default_options) = take j sample_run \<and> 1 \<le> j)"
proof -
  obtain oks w where run: "append_all sample_serialize sample_run (sample_writer [IoOk, IoOk, IoOk, IoOk, IoFail 10]) = (oks, w)"
    by (metis surj_pair)
  with sample_torn_run have w: "oks = [True, False]" "length (w_data w) = 81" "w_flushed w = 71" by simp_all
  show ?thesis
    using crash_recovery [OF run [unfolded sample_writer_def] sample_roundtrip refl, of 75 default_options] w
    by (auto simp: run sample_limits)
qed

lemma append_event_false: "append_event serialize e t w = (False, w') \<Longrightarrow> \<not> good w'"
  using append_event_not_good [of w serialize e t]
  by (cases "good w") (auto elim: append_event_cases simp: stored_whole_def stored_part_def)

lemma append_all_answers:
  "append_all serialize xs w = (oks, w') \<Longrightarrow> \<exists>a b. oks = replicate a True @ replicate b False \<and> (0 < b \<longrightarrow> \<not> good w')"
proof (induction xs arbitrary: w oks)
  case Nil
  then show ?case by (intro exI [of _ 0]) simp
next
  case (Cons x xs)
  obtain e t where x: "x = (e, t)" by (cases x)
  obtain ok w1 where call: "append_event serialize e t w = (ok, w1)" by (metis surj_pair)
  obtain oks1 where rest: "append_all serialize xs w1 = (oks1, w')" "oks = ok # oks1"
    using Cons.prems call by (auto simp: x split: prod.splits)
  show ?case
  proof (cases ok)
    case True
    obtain a b where "oks1 = replicate a True @ replicate b False" "0 < b \<longrightarrow> \<not> good w'" using Cons.IH [OF rest(1)] by blast
    with True show ?thesis unfolding rest(2) by (intro exI [of _ "Suc a"] exI [of _ b]) simp
  next
    case False
    then have "\<not> good w1" using append_event_false call by simp
    with rest append_all_not_good [of w1 serialize xs] False show ?thesis
      by (intro exI [of _ 0] exI [of _ "Suc (length xs)"]) simp
  qed
qed

lemma good_writer_log:
  assumes run: "append_all serialize xs (new_writer path options env) = (oks, w)"
    and pb: "protobuf_roundtrip serialize parse"
    and limits: "length (w_data w) < 2 ^ 64" "length xs < 2 ^ 64" "length xs \<le> maximum_records ropts" "retain_records ropts"
  defines "r \<equiv> read_log parse (stored (w_data w)) ropts"
  shows "(good w \<longrightarrow> oks = replicate (length xs) True \<and> unat (w_record_count w) = length xs \<and>
      unat (w_bytes_written w) = length (w_data w) \<and> rr_status r = Complete \<and> read_events r = xs \<and>
      rr_created_unix_ns r = created_unix_ns (w_options w)) \<and>
    (\<exists>a b. oks = replicate a True @ replicate b False)"
proof (cases "32 \<le> length (w_data w)")
  case True
  define h where "h = file_header_bytes (created_unix_ns (w_options w))"
  define a where "a = length (filter id oks)"
  note wr = writer_run [OF run True limits(2), folded a_def h_def]
  show ?thesis
  proof (cases "good w")
    case good: True
    have wf: "a = length xs" "w_record_count w = of_nat a" "w_data w = bytes_of serialize h xs"
        "w_bytes_written w = of_nat (length (w_data w))" and rec: "\<forall>x \<in> set xs. recordable serialize (fst x)"
      using wr(1) good by (auto simp: writer_file_def)
    have "scan_ready parse ropts h (map (entry_of serialize) xs) (length (bytes_of serialize h xs))"
      using limits rec recordable_valid [OF pb] header_ok_file_header wf(3) by (auto simp: scan_ready_def h_def)
    from read_log_whole [OF this] have "rr_status r = Complete" "read_events r = xs"
        "rr_created_unix_ns r = created_unix_ns (w_options w)"
      using limits(4) by (simp_all add: r_def wf(3) read_events_entries) (simp add: h_def codec)
    moreover have "\<exists>a b. oks = replicate a True @ replicate b False" using wr(2) by blast
    ultimately show ?thesis using wf wr(2) limits by (simp add: unat_of_nat_u64)
  qed (use wr in blast)
next
  case False
  let ?w = "new_writer path options env"
  have "\<not> good ?w"
  proof
    assume "good ?w"
    then have wf: "writer_file serialize (file_header_bytes (created_unix_ns (w_options ?w))) [] 0 ?w"
      using new_writer_file by blast
    from writer_file_run [OF wf run] limits(2) show False using False
      by (auto simp: writer_file_def log_bytes_def)
  qed
  then have "oks = replicate (length xs) False" "w = ?w" using run by (simp_all add: append_all_not_good)
  then show ?thesis using \<open>\<not> good ?w\<close> by (auto intro: exI [of _ 0])
qed

text \<open>
  C12: Round trip.  Make any sequence of \<^verbatim>\<open>append\<close> calls on a new writer and then call \<^verbatim>\<open>flush\<close>.  If
  \<^verbatim>\<open>flush\<close> returns true, then every \<^verbatim>\<open>append\<close> returned true, \<^verbatim>\<open>record_count()\<close> and
  \<^verbatim>\<open>bytes_written()\<close> are the number of events and the size of the file, and \<^verbatim>\<open>read_log\<close> finds the file
  complete, with exactly the appended events and arrival timestamps in order and the creation time
  the writer was given.  If an \<^verbatim>\<open>append\<close> returns false, all calls after it do, \<^verbatim>\<open>flush\<close> included.
\<close>

theorem write_read_roundtrip:
  assumes run: "append_all serialize xs (new_writer path options env) = (oks, w)"
    and flush: "flush w = (flushed, w')" and disk: "on_disk (w_output w') bs"
    and pb: "protobuf_roundtrip serialize parse"
    and limits: "length bs < 2 ^ 64" "length xs < 2 ^ 64" "length xs \<le> maximum_records ropts" "retain_records ropts"
  defines "r \<equiv> read_log parse (stored bs) ropts"
  shows "(flushed \<longrightarrow> oks = replicate (length xs) True \<and> unat (w_record_count w') = length xs \<and>
      unat (w_bytes_written w') = length bs \<and> rr_status r = Complete \<and> read_events r = xs \<and>
      rr_created_unix_ns r = created_unix_ns (w_options w')) \<and>
    (\<exists>a b. oks = replicate a True @ replicate b False \<and> (0 < b \<longrightarrow> \<not> flushed))"
proof -
  have oks: "\<exists>a b. oks = replicate a True @ replicate b False \<and> (0 < b \<longrightarrow> \<not> good w)"
    using append_all_answers [OF run] .
  show ?thesis
  proof (cases flushed)
    case True
    note fl = flush [unfolded True [THEN eqTrueI]]
    have bs: "bs = w_data w" by (rule flushed_on_disk [OF fl disk])
    have "\<exists>a b. oks = replicate a True @ replicate b False \<and> (0 < b \<longrightarrow> \<not> flushed)"
      using oks flushed_writer [OF fl] by blast
    then show ?thesis
      using good_writer_log [OF run pb limits(1) [unfolded bs] limits(2-4)] flushed_writer [OF fl] by (simp add: r_def bs)
  qed (use oks in auto)
qed

lemma sample_good_run:
  "let (oks, w) = append_all sample_serialize sample_run (sample_writer [])
   in fst (flush w) \<and> length (w_data (snd (flush w))) = 108 \<and> w_flushed (snd (flush w)) = 108"
  by (simp add: sample_writing sample_event_def)

theorem write_read_roundtrip_witness:
  "let (oks, w) = append_all sample_serialize sample_run (sample_writer []); (flushed, w') = flush w
   in flushed \<and> read_events (read_log sample_parse (stored (w_data w')) default_options) = sample_run"
proof -
  obtain oks w flushed w' where run: "append_all sample_serialize sample_run (sample_writer []) = (oks, w)" "flush w = (flushed, w')"
    by (metis surj_pair)
  with sample_good_run have w: "flushed" "length (w_data w') = 108" "w_flushed w' = 108" by (simp_all add: Let_def)
  then have "on_disk (w_output w') (w_data w')" by (simp add: on_disk_def)
  from write_read_roundtrip [OF run(1) [unfolded sample_writer_def] run(2) this sample_roundtrip, of default_options] show ?thesis
    using w by (simp add: run sample_limits)
qed

end
