(* ===== verification/TF_Pipeline.thy ===== *)
theory TF_Pipeline
  imports TF_Collector TF_Writing
begin

text \<open>
  The collector with a log: \<^verbatim>\<open>QueuedTelemetrySink\<close> with \<^verbatim>\<open>LogWriterConsumer\<close> as its consumer, as
  \<^verbatim>\<open>run_collector\<close> of \<^verbatim>\<open>app/main.cpp\<close> puts them together.
\<close>

section \<open>The log writer as a consumer\<close>

lemma append_event_count:
  assumes "append_event serialize e t w = (ok, w')"
  shows "ok \<longrightarrow> w_record_count w' = w_record_count w + 1" and "w_record_count w' \<in> {w_record_count w, w_record_count w + 1}"
proof -
  have "(ok \<longrightarrow> w_record_count w' = w_record_count w + 1) \<and> w_record_count w' \<in> {w_record_count w, w_record_count w + 1}"
  proof (cases "good w")
    case True
    from assms True show ?thesis
      by (cases rule: append_event_cases) (auto simp: stored_whole_def stored_part_def)
  qed (use assms in \<open>auto simp: append_event_not_good\<close>)
  then show "ok \<longrightarrow> w_record_count w' = w_record_count w + 1" and "w_record_count w' \<in> {w_record_count w, w_record_count w + 1}"
    by blast+
qed

interpretation lc: counting_consumer "log_consume serialize" w_record_count
  by unfold_locales (use append_event_count in \<open>auto simp: log_consume_def\<close>)

abbreviation arrival :: "collected_event \<Rightarrow> telemetry_event \<times> i64" where
  "arrival e \<equiv> (ce_event e, ce_arrival_ns e)"

lemma feed_append_all: "feed (log_consume serialize) es w = append_all serialize (map arrival es) w"
  by (induction es arbitrary: w) (simp_all add: log_consume_def)

text \<open>What the consumer thread has done to the writer, in any reachable state.\<close>

lemma consumer_appends:
  assumes "new_sink cap = Inr s" and "sink_run (log_consume serialize) (new_pipeline s w0) n y"
  shows "append_all serialize (map arrival (y_taken y @ y_failed y)) w0 =
      (replicate (length (y_taken y)) True @ replicate (length (y_failed y)) False, y_consumer y)"
    and "\<exists>rest. pushed y = (y_taken y @ y_failed y) @ rest"
  using pipeline_invs(1) [OF assms] unfolding flow_inv_def feed_append_all by auto

text \<open>A writer that is still good has taken every event it was given.\<close>

lemma append_all_good_all:
  "append_all serialize xs w = (oks, w') \<Longrightarrow> good w' \<Longrightarrow> oks = replicate (length xs) True \<and> good w"
proof (induction xs arbitrary: w oks)
  case (Cons x xs)
  obtain e t where x: "x = (e, t)" by (cases x)
  obtain ok w1 where call: "append_event serialize e t w = (ok, w1)" by (metis surj_pair)
  obtain oks1 where rest: "append_all serialize xs w1 = (oks1, w')" "oks = ok # oks1"
    using Cons.prems(1) call by (auto simp: x split: prod.splits)
  have "oks1 = replicate (length xs) True \<and> good w1" by (rule Cons.IH [OF rest(1) Cons.prems(2)])
  moreover have "good w" using append_event_not_good [of w serialize e t] call calculation by auto
  ultimately show ?case using append_event_ok [OF call] rest(2) by simp
qed simp

lemma good_writer_no_failure:
  assumes "new_sink cap = Inr s" and "sink_run (log_consume serialize) (new_pipeline s w0) n y" and "good (y_consumer y)"
  shows "y_failed y = []" and "good w0"
proof -
  note app = append_all_good_all [OF consumer_appends(1) [OF assms(1,2)] assms(3)]
  then show "good w0" by simp
  show "y_failed y = []"
  proof (rule ccontr)
    assume "y_failed y \<noteq> []"
    then have "False \<in> set (replicate (length (y_taken y)) True @ replicate (length (y_failed y)) False)" by simp
    then show False unfolding conjunct1 [OF app] by simp
  qed
qed

text \<open>The log of a drained collector.\<close>

lemma drained_log:
  assumes sink: "new_sink cap = Inr s"
    and run: "sink_run (log_consume serialize) (new_pipeline s (new_writer path options env)) n y"
    and down: "0 < y_shutdowns y" "st_consumer_failures (sink_stats (y_sink y)) = 0"
    and opened: "good (new_writer path options env)" and pb: "protobuf_roundtrip serialize parse"
    and limits: "length (w_data (y_consumer y)) < 2 ^ 64" "length (pushed y) < 2 ^ 64"
      "length (pushed y) \<le> maximum_records ropts" "retain_records ropts"
  shows "rr_status (read_log parse (stored (w_data (y_consumer y))) ropts) = Complete \<and>
    read_events (read_log parse (stored (w_data (y_consumer y))) ropts) = map arrival (pushed y) \<and>
    w_record_count (y_consumer y) = st_consumed_events (sink_stats (y_sink y)) \<and>
    w_record_count (y_consumer y) = qs_accepted_items (queue_stats (y_queue y)) \<and>
    unat (w_record_count (y_consumer y)) = length (pushed y)"
proof -
  have taken: "y_taken y = pushed y" "st_consumed_events (sink_stats (y_sink y)) = qs_accepted_items (queue_stats (y_queue y))"
    using drained_pipeline [OF sink run down(1)] down(2) by simp_all
  then have "y_failed y = []" using consumer_appends(2) [OF sink run] by auto
  then have app: "append_all serialize (map arrival (pushed y)) (new_writer path options env) =
      (replicate (length (map arrival (pushed y))) True, y_consumer y)"
    using consumer_appends(1) [OF sink run] taken(1) by simp
  have "good (y_consumer y)" by (rule append_all_good [OF app opened])
  moreover have "q_accepted (y_queue y) = of_nat (length (pushed y))"
    using pipeline_invs(3) [OF sink run] by (simp add: counter_inv_def)
  ultimately show ?thesis
    using good_writer_log [OF app pb, of ropts] limits taken(2)
    by (auto simp: queue_stats_def word_unat_eq_iff unat_of_nat_u64)
qed

section \<open>Properties\<close>

text \<open>
  C1: The collector loses nothing.  Let any number of streams push events into the sink while its
  consumer thread writes the log, in any interleaving, until \<^verbatim>\<open>shutdown\<close> has returned, and let the
  \<^verbatim>\<open>flush\<close> of the log after that return true.  Then no consumer failure was counted, the file is
  complete, and its records are exactly the accepted events, with their arrival timestamps, in the
  order in which the sink accepted them; \<^verbatim>\<open>record_count\<close>, \<^verbatim>\<open>consumed_events\<close> and
  \<^verbatim>\<open>accepted_items\<close> agree.
\<close>

theorem collector_log_complete:
  assumes sink: "new_sink cap = Inr s"
    and run: "sink_run (log_consume serialize) (new_pipeline s (new_writer path options env)) n y" "0 < y_shutdowns y"
    and flush: "flush (y_consumer y) = (True, w)" and disk: "on_disk (w_output w) bs" and pb: "protobuf_roundtrip serialize parse"
    and limits: "length bs < 2 ^ 64" "length (pushed y) < 2 ^ 64" "length (pushed y) \<le> maximum_records ropts" "retain_records ropts"
  shows "st_consumer_failures (sink_stats (y_sink y)) = 0 \<and>
    rr_status (read_log parse (stored bs) ropts) = Complete \<and>
    read_events (read_log parse (stored bs) ropts) = map arrival (pushed y) \<and>
    w_record_count w = st_consumed_events (sink_stats (y_sink y)) \<and>
    w_record_count w = qs_accepted_items (queue_stats (y_queue y)) \<and>
    unat (w_record_count w) = length (pushed y)"
proof -
  note flushed = flushed_writer [OF flush] and none = good_writer_no_failure [OF sink run(1)]
  have bs: "bs = w_data (y_consumer y)" by (rule flushed_on_disk [OF flush disk])
  have "y_failed y = []" "good (new_writer path options env)" using none flushed by simp_all
  moreover have failures: "st_consumer_failures (sink_stats (y_sink y)) = 0"
    using drained_pipeline [OF sink run] calculation(1) by (auto split: if_splits)
  ultimately show ?thesis
    using drained_log [OF sink run failures _ pb limits(1) [unfolded bs] limits(2-4)] flushed unfolding bs by auto
qed

text \<open>
  C2: The collector survives a crash.  At any moment of any run of the collector, whatever the
  output stream has done, let any part of the log file survive that has the file header and
  everything flushed.  Recovery succeeds, and the recovered log consists of the first events the
  sink accepted, at least as many as the consumer had taken at the last multiple of the flush
  interval.
\<close>

theorem collector_crash_recovery:
  assumes sink: "new_sink cap = Inr s"
    and run: "sink_run (log_consume serialize) (new_pipeline s (new_writer path options env)) n y"
    and pb: "protobuf_roundtrip serialize parse"
    and survived: "bs = take m (w_data (y_consumer y))" "w_flushed (y_consumer y) \<le> m" "32 \<le> length bs"
    and limits: "length bs < 2 ^ 64" "length (pushed y) < 2 ^ 64" "length (pushed y) \<le> maximum_records ropts" "retain_records ropts"
  defines "k \<equiv> unat (flush_every_records options)" and "recovered \<equiv> recover_truncated_tail parse (stored bs) True ropts"
  shows "rc_succeeded (fst recovered) \<and> rr_status (read_log parse (stored (snd recovered)) ropts) = Complete \<and>
    (\<exists>j. read_events (read_log parse (stored (snd recovered)) ropts) = map arrival (take j (pushed y)) \<and>
      length (y_taken y) div k * k \<le> j)"
proof -
  let ?es = "y_taken y @ y_failed y"
  obtain rest where rest: "pushed y = ?es @ rest" using consumer_appends(2) [OF sink run] by blast
  note app = consumer_appends(1) [OF sink run]
  have "length (map arrival ?es) < 2 ^ 64" "length (map arrival ?es) \<le> maximum_records ropts"
    using limits(2,3) unfolding rest by simp_all
  note rec = surviving_log_recovers [OF app pb survived limits(1) this limits(4), folded recovered_def k_def]
  then obtain j where j: "read_events (read_log parse (stored (snd recovered)) ropts) = take j (map arrival ?es)"
      "j \<le> length ?es" "length (y_taken y) div k * k \<le> j"
    by auto
  have "take j (map arrival ?es) = map arrival (take j (pushed y))" using j(2) by (simp add: rest take_map)
  then show ?thesis using rec j by auto
qed

section \<open>A run of the collector\<close>

text \<open>Two callers offer an event each, the consumer thread takes both, and \<^verbatim>\<open>shutdown\<close> is called.\<close>

definition collector_schedule :: "collected_event \<Rightarrow> collected_event \<Rightarrow> (thread_id \<times> collected_event) list" where
  "collector_schedule a b = [(Producer 0, a), (Producer 0, a), (Producer 1, b), (Producer 1, b), (Shutter, a), (Shutter, a),
     (Consumer, a), (Consumer, a), (Consumer, a), (Consumer, a), (Consumer, a), (Consumer, a), (Consumer, a), (Shutter, a)]"

lemma collector_schedule_run:
  assumes "consume a c0 = (True, c1)" and "consume b c1 = (True, c2)"
  shows "\<exists>n y. sink_run consume (new_pipeline (sample_queued_sink 2) c0) n y \<and> y_consumer y = c2 \<and> pushed y = [a, b] \<and>
    0 < y_shutdowns y \<and> st_consumer_failures (sink_stats (y_sink y)) = 0 \<and> length (y_taken y) = 2"
proof -
  let ?y = "the (exec consume (collector_schedule a b) (new_pipeline (sample_queued_sink 2) c0))"
  note defs = collector_schedule_def Let_def new_pipeline_def sample_queued_sink_def try_push_def wait_pop_def close_def
    pushed_def accepted_answers_def sink_stats_def assms
  have "exec consume (collector_schedule a b) (new_pipeline (sample_queued_sink 2) c0) = Some ?y" by (simp add: defs)
  then obtain n where "sink_run consume (new_pipeline (sample_queued_sink 2) c0) n ?y" using exec_sound [OF run_refl] by blast
  moreover have "y_consumer ?y = c2" "pushed ?y = [a, b]" "0 < y_shutdowns ?y" "length (y_taken ?y) = 2"
      "st_consumer_failures (sink_stats (y_sink ?y)) = 0"
    by (simp_all add: defs)
  ultimately show ?thesis by blast
qed

lemma sample_collector_run:
  fixes a b :: collected_event
  defines "a \<equiv> \<lparr>ce_event = sample_event 1 100, ce_arrival_ns = 500\<rparr>" and "b \<equiv> \<lparr>ce_event = sample_event 2 200, ce_arrival_ns = 600\<rparr>"
  shows "\<exists>n y. sink_run (log_consume sample_serialize) (new_pipeline (sample_queued_sink 2) (sample_writer [])) n y \<and>
    map arrival (pushed y) = sample_run \<and> 0 < y_shutdowns y \<and> st_consumer_failures (sink_stats (y_sink y)) = 0 \<and>
    length (y_taken y) = 2 \<and> length (w_data (y_consumer y)) = 108 \<and> w_flushed (y_consumer y) = 108 \<and>
    fst (flush (y_consumer y))"
proof -
  let ?run = "append_all sample_serialize sample_run (sample_writer [])"
  have "fst ?run = [True, True]" and w: "length (w_data (snd ?run)) = 108" "w_flushed (snd ?run) = 108" "fst (flush (snd ?run))"
    by (simp_all add: sample_writing sample_event_def)
  then obtain w1 where "log_consume sample_serialize a (sample_writer []) = (True, w1)"
      "log_consume sample_serialize b w1 = (True, snd ?run)"
    by (auto simp: log_consume_def sample_run_def a_def b_def split: prod.splits)
  from collector_schedule_run [of "log_consume sample_serialize", OF this] obtain n y where
    "sink_run (log_consume sample_serialize) (new_pipeline (sample_queued_sink 2) (sample_writer [])) n y"
    "y_consumer y = snd ?run" "pushed y = [a, b]" "0 < y_shutdowns y" "st_consumer_failures (sink_stats (y_sink y)) = 0"
    "length (y_taken y) = 2"
    by blast
  then show ?thesis using w by (intro exI [of _ n] exI [of _ y]) (simp add: a_def b_def sample_run_def)
qed

lemma sample_queued_sink_new: "new_sink 2 = Inr (sample_queued_sink 2)"
  by (simp add: new_sink_def new_queue_def sample_queued_sink_def)

lemma sample_writer_good: "good (sample_writer [])"
  by (simp add: sample_writing)

theorem collector_log_complete_witness:
  "\<exists>n y. sink_run (log_consume sample_serialize) (new_pipeline (sample_queued_sink 2) (sample_writer [])) n y \<and>
     read_events (read_log sample_parse (stored (w_data (snd (flush (y_consumer y))))) default_options) = sample_run"
proof -
  obtain n y where y: "sink_run (log_consume sample_serialize) (new_pipeline (sample_queued_sink 2) (sample_writer [])) n y"
      "map arrival (pushed y) = sample_run" "0 < y_shutdowns y" "length (w_data (y_consumer y)) = 108" "fst (flush (y_consumer y))"
    using sample_collector_run by blast
  have "length (pushed y) = 2" using arg_cong [OF y(2), of length] by (simp add: sample_limits)
  moreover have flush: "flush (y_consumer y) = (True, snd (flush (y_consumer y)))" using y(5) by (metis prod.collapse)
  moreover have "on_disk (w_output (snd (flush (y_consumer y)))) (w_data (snd (flush (y_consumer y))))"
    using flushed_writer [OF flush] by (simp add: on_disk_def)
  ultimately show ?thesis
    using collector_log_complete [OF sample_queued_sink_new y(1) [unfolded sample_writer_def] y(3) flush _ sample_roundtrip, of _ default_options]
      y flushed_writer [OF flush]
    by (intro exI [of _ n] exI [of _ y]) (simp add: sample_limits)
qed

theorem collector_crash_recovery_witness:
  "\<exists>y :: (collected_event, log_writer) pipeline. rc_succeeded (fst (recover_truncated_tail sample_parse
       (stored (take 108 (w_data (y_consumer y)))) True default_options)) \<and> map arrival (pushed y) = sample_run"
proof -
  obtain n y where y: "sink_run (log_consume sample_serialize) (new_pipeline (sample_queued_sink 2) (sample_writer [])) n y"
      "map arrival (pushed y) = sample_run" "length (w_data (y_consumer y)) = 108" "w_flushed (y_consumer y) = 108"
    using sample_collector_run by blast
  have "length (pushed y) = 2" using arg_cong [OF y(2), of length] by (simp add: sample_limits)
  then show ?thesis
    using collector_crash_recovery [OF sample_queued_sink_new y(1) [unfolded sample_writer_def] sample_roundtrip refl,
        of 108 default_options] y
    by (intro exI [of _ y]) (auto simp: sample_limits)
qed

end
