(* ===== verification/TF_Double.thy ===== *)
theory TF_Double
  imports TF_Float
begin

text \<open>
  The double-precision literals and arithmetic of the workload generator.  Every floating-point
  expression there is a sum of fractions with a power of two as denominator and a numerator far
  below \<open>2 ^ 53\<close>, so each operation on the way is exact, and the result is the pattern of the exact
  fraction: \<open>f64_dyadic n k\<close> is the double for \<open>n / 2 ^ k\<close>.
\<close>

fun bits :: "nat \<Rightarrow> nat" where
  "bits n = (if n = 0 then 0 else Suc (bits (n div 2)))"

declare bits.simps [simp del]

definition f64_dyadic :: "int \<Rightarrow> nat \<Rightarrow> f64" where
  "f64_dyadic n k =
     (let m = nat \<bar>n\<bar>; e = bits m - 1;
          magnitude = (if m = 0 then 0 else (e + 1023 - k) * 2 ^ 52 + (m * 2 ^ (52 - e) - 2 ^ 52))
      in of_nat (magnitude + (if n < 0 then 2 ^ 63 else 0)))"

text \<open>Unary minus flips the sign bit, of zero too.\<close>

definition f64_neg :: "f64 \<Rightarrow> f64" where
  "f64_neg d = d XOR 0x8000000000000000"

lemma bits_bounds: "0 < m \<Longrightarrow> 2 ^ (bits m - 1) \<le> m \<and> m < 2 ^ bits m \<and> 0 < bits m"
proof (induction m rule: bits.induct)
  case (1 n)
  show ?case
  proof (cases "n = 1")
    case True
    have "bits 1 = 1" by (simp add: bits.simps [of "Suc 0"] bits.simps [of 0])
    with True show ?thesis by simp
  next
    case False
    with "1.prems" have IH: "2 ^ (bits (n div 2) - 1) \<le> n div 2" "n div 2 < 2 ^ bits (n div 2)" "0 < bits (n div 2)"
      using "1.IH" by auto
    have b: "bits n = Suc (bits (n div 2))" using "1.prems" by (simp add: bits.simps [of n])
    obtain c where c: "bits (n div 2) = Suc c" using IH(3) by (cases "bits (n div 2)") auto
    have "2 ^ Suc c \<le> n" "n < 2 ^ Suc (Suc c)" using IH(1,2) c by (simp_all add: less_mult_imp_div_less)
    then show ?thesis using b c by simp
  qed
qed

lemma f64_pattern:
  assumes "M < 2 ^ 63"
  shows "f64_magnitude (of_nat (M + (if s then 2 ^ 63 else 0))) = M"
    and "f64_negative (of_nat (M + (if s then 2 ^ 63 else 0))) = s"
proof -
  let ?w = "of_nat (M + (if s then 2 ^ 63 else 0)) :: f64"
  have u: "unat ?w = M + (if s then 2 ^ 63 else 0)" using assms by (intro unat_of_nat_u64) auto
  have "f64_magnitude ?w = take_bit 63 (unat ?w)" unfolding f64_magnitude_def by (rule unsigned_take_bit_eq)
  then show "f64_magnitude ?w = M" unfolding u using assms by (simp add: take_bit_eq_mod)
  have "bit (unat ?w) 63 = bit ?w 63" by (simp add: bit_unsigned_iff)
  then have "f64_negative ?w = odd (unat ?w div 2 ^ 63)" unfolding f64_negative_def bit_iff_odd [of "unat ?w"] by simp
  then show "f64_negative ?w = s" unfolding u using assms by simp
qed

lemma f64_units_dyadic:
  assumes "0 < m" and "m < 2 ^ 53" and "k \<le> 1022"
  defines "e \<equiv> bits m - 1"
  defines "M \<equiv> (e + 1023 - k) * 2 ^ 52 + (m * 2 ^ (52 - e) - 2 ^ 52)"
  shows "f64_units M = m * 2 ^ (1074 - k)" and "M < 2047 * 2 ^ 52"
proof -
  have b: "2 ^ e \<le> m" "m < 2 * 2 ^ e" using bits_bounds [OF assms(1)] by (cases "bits m"; simp add: e_def)+
  have e: "e \<le> 52" using b(1) assms(2) power_less_imp_less_exp [of "2::nat" e 53] by simp
  have p: "2 ^ e * 2 ^ (52 - e) = (2 ^ 52 :: nat)" using e by (simp add: power_add [symmetric])
  have lo: "2 ^ 52 \<le> m * 2 ^ (52 - e)" using mult_right_mono [OF b(1), of "2 ^ (52 - e)"] p by simp
  have hi: "m * 2 ^ (52 - e) < 2 * 2 ^ 52" using mult_strict_right_mono [OF b(2), of "2 ^ (52 - e)"] by (simp only: mult.assoc p) simp
  let ?f = "m * 2 ^ (52 - e) - 2 ^ 52"
  have f: "?f < 2 ^ 52" using lo hi by linarith
  have dm: "M div 2 ^ 52 = e + 1023 - k" "M mod 2 ^ 52 = ?f" using f by (simp_all add: M_def)
  have "e + 1023 - k \<noteq> 0" using assms(3) by simp
  then have "f64_units M = (m * 2 ^ (52 - e)) * 2 ^ (e + 1023 - k - 1)" using dm lo by (simp add: f64_units_def Let_def)
  also have "\<dots> = m * 2 ^ (52 - e + (e + 1023 - k - 1))" by (simp add: power_add)
  also have "52 - e + (e + 1023 - k - 1) = 1074 - k" using e assms(3) by simp
  finally show "f64_units M = m * 2 ^ (1074 - k)" .
  have "e + 1023 - k \<le> 1075" using e by simp
  then have "(e + 1023 - k) * 2 ^ 52 \<le> 1075 * 2 ^ 52" by (rule mult_right_mono) simp
  then show "M < 2047 * 2 ^ 52" using f by (simp add: M_def)
qed

lemma cancel_power: "k \<le> n \<Longrightarrow> of_nat (m * 2 ^ (n - k)) / 2 ^ n = (of_nat m / 2 ^ k :: rat)"
  by (simp add: field_simps power_add [symmetric])

lemma f64_dyadic_value:
  assumes "\<bar>n\<bar> < 2 ^ 53" and "k \<le> 1022"
  shows "f64_isfinite (f64_dyadic n k)" and "f64_value (f64_dyadic n k) = of_int n / 2 ^ k"
proof -
  define m where "m = nat \<bar>n\<bar>"
  define M where "M = (if m = 0 then 0 else (bits m - 1 + 1023 - k) * 2 ^ 52 + (m * 2 ^ (52 - (bits m - 1)) - 2 ^ 52))"
  have m: "m < 2 ^ 53" using assms(1) by (simp add: m_def)
  have units: "f64_units M = m * 2 ^ (1074 - k)" and small: "M < 2047 * 2 ^ 52"
    using f64_units_dyadic [of m k] m assms(2) by (cases "m = 0"; simp add: M_def f64_units_def)+
  have d: "f64_dyadic n k = of_nat (M + (if n < 0 then 2 ^ 63 else 0))" by (simp add: f64_dyadic_def Let_def M_def m_def)
  have M63: "M < 2 ^ 63" using small by simp
  note pat = f64_pattern [OF M63, of "n < 0"]
  show "f64_isfinite (f64_dyadic n k)" unfolding f64_isfinite_def d pat using small by simp
  have "of_nat (f64_units M) / 2 ^ 1074 = (of_nat m / 2 ^ k :: rat)"
    unfolding units by (rule cancel_power) (use assms(2) in simp)
  moreover have "(if n < 0 then - 1 else 1) * of_nat m = (of_int n :: rat)" by (simp add: m_def)
  ultimately show "f64_value (f64_dyadic n k) = of_int n / 2 ^ k"
    unfolding f64_value_def d pat by (metis times_divide_eq_right)
qed

lemma f64_neg_finite: "f64_isfinite (f64_neg d) = f64_isfinite d"
proof -
  have "take_bit 63 (f64_neg d) = take_bit 63 d" by (simp add: f64_neg_def take_bit_xor)
  then show ?thesis by (simp add: f64_isfinite_def f64_magnitude_def)
qed

end
