(* ===== verification/TF_Rounding.thy ===== *)
theory TF_Rounding
  imports TF_Double
begin

text \<open>
  The floating-point arithmetic of the analyzer.  An operation of IEEE 754 is the exact result
  rounded to the nearest number of \<open>p\<close> significant bits, ties to the even one: \<open>fl p\<close>.  A
  \<^verbatim>\<open>double\<close> has \<open>p = 53\<close>; the precision of \<^verbatim>\<open>long double\<close> depends on the platform (53, 64 or 113) and
  is an argument of the definitions that use it.  Numbers are rationals: every number the analyzer
  computes is a quotient of integers of at most 64 bits and far from overflow and underflow.
\<close>

section \<open>Rounding to an integer\<close>

definition round_even :: "rat \<Rightarrow> int" where
  "round_even y =
     (let f = \<lfloor>y\<rfloor>; d = y - of_int f
      in if d < 1 / 2 \<or> (d = 1 / 2 \<and> even f) then f else f + 1)"

lemma round_even_bounds: "\<lfloor>y\<rfloor> \<le> round_even y" "round_even y \<le> \<lfloor>y\<rfloor> + 1"
  by (simp_all add: round_even_def Let_def)

lemma round_even_error: "\<bar>of_int (round_even y) - y\<bar> \<le> 1 / 2"
  using floor_correct [of y] by (auto simp: round_even_def Let_def abs_le_iff)

lemma round_even_int [simp]: "round_even (of_int i) = i"
  by (simp add: round_even_def)

lemma round_even_mono: "x \<le> y \<Longrightarrow> round_even x \<le> round_even y"
proof -
  assume xy: "x \<le> y"
  then have "\<lfloor>x\<rfloor> \<le> \<lfloor>y\<rfloor>" by (rule floor_mono)
  then consider "\<lfloor>x\<rfloor> = \<lfloor>y\<rfloor>" | "\<lfloor>x\<rfloor> + 1 \<le> \<lfloor>y\<rfloor>" by linarith
  then show ?thesis
  proof cases
    case 1
    then show ?thesis using xy by (auto simp: round_even_def Let_def)
  next
    case 2
    then show ?thesis using round_even_bounds [of x] round_even_bounds [of y] by linarith
  qed
qed

lemma round_even_minus: "round_even (- y) = - round_even y"
proof (cases "y \<in> \<int>")
  case True
  then obtain i where y: "y = of_int i" by (auto elim: Ints_cases)
  then have "- y = of_int (- i)" by simp
  then show ?thesis unfolding y by (metis round_even_int)
next
  case False
  then have "\<lceil>y\<rceil> = \<lfloor>y\<rfloor> + 1" by (metis Ints_of_int ceiling_altdef)
  then have "\<lfloor>- y\<rfloor> = - \<lfloor>y\<rfloor> - 1" by (simp add: ceiling_def)
  then show ?thesis by (auto simp: round_even_def Let_def)
qed

section \<open>Rounding to a number of bits\<close>

text \<open>The exponent of a positive number: the integer part of its logarithm.\<close>

definition exponent :: "rat \<Rightarrow> int" where
  "exponent x =
     (case quotient_of x of (a, b) \<Rightarrow>
        let e = int (bits (nat a)) - int (bits (nat b)) in if 2 powi e \<le> x then e else e - 1)"

definition fl :: "nat \<Rightarrow> rat \<Rightarrow> rat" where
  "fl p x = (if x = 0 then 0 else let u = 2 powi (exponent \<bar>x\<bar> - int p + 1) in of_int (round_even (x / u)) * u)"

lemma bits_rat: "0 < a \<Longrightarrow> (2::rat) powi (int (bits (nat a)) - 1) \<le> of_int a \<and> of_int a < (2::rat) powi int (bits (nat a))"
proof -
  assume a: "0 < a"
  define m where "m = nat a"
  have m: "of_int a = (of_nat m :: rat)" using a by (simp add: m_def)
  have b: "2 ^ (bits m - 1) \<le> m" "m < 2 ^ bits m" "0 < bits m" using bits_bounds [of m] a by (simp_all add: m_def)
  have "(2::rat) powi (int (bits m) - 1) = of_nat (2 ^ (bits m - 1))" using b(3)
    by (metis One_nat_def Suc_leI of_nat_diff of_nat_1 of_nat_numeral of_nat_power power_int_of_nat)
  moreover have "(2::rat) powi int (bits m) = of_nat (2 ^ bits m)" by simp
  ultimately show ?thesis unfolding m_def [symmetric] m using b by (simp only: of_nat_le_iff of_nat_less_iff)
qed

lemma powi_plus: "(2::rat) powi a * 2 powi b = 2 powi (a + b)"
  by (simp add: power_int_add)

lemma exponent:
  assumes "0 < x"
  shows "2 powi exponent x \<le> x" and "x < 2 powi (exponent x + 1)"
proof -
  obtain a b where q: "quotient_of x = (a, b)" by (cases "quotient_of x")
  then have x: "x = of_int a / of_int b" and b: "0 < b" using quotient_of_div quotient_of_denom_pos by auto
  then have a: "0 < a" using assms by (simp add: zero_less_divide_iff)
  let ?m = "int (bits (nat a))" and ?n = "int (bits (nat b))"
  note A = bits_rat [OF a] and B = bits_rat [OF b]
  have "x * 2 powi (?n - 1) \<le> x * of_int b" using B assms by (intro mult_left_mono) simp_all
  also have "\<dots> = of_int a" using x b by simp
  also have "\<dots> < 2 powi ?m" using A by simp
  also have "2 powi ?m = (2 powi (?m - ?n + 1) :: rat) * 2 powi (?n - 1)" by (simp flip: power_int_add)
  finally have up: "x < 2 powi (?m - ?n + 1)" by (simp add: mult_less_cancel_right)
  have "(2 powi (?m - ?n - 1) :: rat) * 2 powi ?n = 2 powi (?m - 1)"
    by (subst powi_plus) (rule arg_cong [where f = "power_int 2"], simp)
  also have "\<dots> \<le> of_int a" using A by simp
  also have "\<dots> = x * of_int b" using x b by simp
  also have "\<dots> < x * 2 powi ?n" using B assms by (intro mult_strict_left_mono) simp_all
  finally have lo: "2 powi (?m - ?n - 1) < x" by (simp add: mult_less_cancel_right)
  show "2 powi exponent x \<le> x" "x < 2 powi (exponent x + 1)"
    using up lo by (simp_all add: exponent_def q Let_def)
qed

lemma exponent_mono:
  assumes "0 < x" and "x \<le> y"
  shows "exponent x \<le> exponent y"
proof (rule ccontr)
  assume "\<not> exponent x \<le> exponent y"
  then have "(2::rat) powi (exponent y + 1) \<le> 2 powi exponent x" by (intro power_int_increasing) simp_all
  then show False using exponent [OF assms(1)] exponent [of y] assms by linarith
qed

lemma fl_zero [simp]: "fl p 0 = 0"
  by (simp add: fl_def)

lemma fl_minus: "fl p (- x) = - fl p x"
  by (simp add: fl_def Let_def round_even_minus)

lemma powi_split: "(2::rat) powi e = 2 ^ n * 2 powi (e - int n)"
  by (simp flip: power_int_of_nat power_int_add)

lemma fl_binade:
  assumes "0 < x" and "0 < p"
  shows "2 powi exponent x \<le> fl p x" and "fl p x \<le> 2 powi (exponent x + 1)"
proof -
  let ?e = "exponent x"
  define u where "u = (2::rat) powi (?e - int p + 1)"
  have u: "0 < u" by (simp add: u_def)
  have lo: "2 powi ?e = 2 ^ (p - 1) * u" using powi_split [of ?e "p - 1"] assms(2) by (simp add: u_def of_nat_diff algebra_simps)
  have hi: "2 powi (?e + 1) = 2 ^ p * u" using powi_split [of "?e + 1" p] by (simp add: u_def algebra_simps)
  have "of_int (2 ^ (p - 1)) \<le> x / u" "x / u \<le> of_int (2 ^ p)"
    using exponent [OF assms(1)] u unfolding lo hi by (simp_all add: pos_le_divide_eq pos_divide_le_eq)
  then have "2 ^ (p - 1) \<le> round_even (x / u)" "round_even (x / u) \<le> 2 ^ p"
    using round_even_mono by (metis round_even_int)+
  then have "(2 ^ (p - 1) :: rat) \<le> of_int (round_even (x / u))" "of_int (round_even (x / u)) \<le> (2 ^ p :: rat)"
    by (metis of_int_le_iff of_int_numeral of_int_power)+
  then show "2 powi ?e \<le> fl p x" "fl p x \<le> 2 powi (?e + 1)"
    unfolding lo hi using u assms by (simp_all add: fl_def Let_def u_def [symmetric])
qed

lemma fl_pos: "0 < x \<Longrightarrow> 0 < p \<Longrightarrow> 0 < fl p x"
  using fl_binade(1) [of x p] by (meson less_le_trans zero_less_power_int zero_less_numeral)

lemma fl_mono_pos:
  assumes "0 < x" and "x \<le> y" and "0 < p"
  shows "fl p x \<le> fl p y"
proof (cases "exponent x = exponent y")
  case True
  define u where "u = (2::rat) powi (exponent y - int p + 1)"
  have "0 < u" by (simp add: u_def)
  then have "round_even (x / u) \<le> round_even (y / u)" using assms by (intro round_even_mono divide_right_mono) simp_all
  then show ?thesis using assms \<open>0 < u\<close> True by (simp add: fl_def Let_def u_def [symmetric])
next
  case False
  then have "exponent x + 1 \<le> exponent y" using exponent_mono [OF assms(1,2)] by simp
  then have "(2::rat) powi (exponent x + 1) \<le> 2 powi exponent y" by (intro power_int_increasing) simp_all
  then show ?thesis using fl_binade(2) [OF assms(1,3)] fl_binade(1) [of y p] assms by linarith
qed

lemma fl_mono:
  assumes "x \<le> y" and "0 < p"
  shows "fl p x \<le> fl p y"
proof -
  consider "0 < x" | "x = 0" | "x < 0" "0 \<le> y" | "x < 0" "y < 0" by linarith
  then show ?thesis
  proof cases
    case 2
    then show ?thesis using fl_pos [of y p] assms by (cases "y = 0") auto
  next
    case 3
    then show ?thesis using fl_pos [of "- x" p] fl_pos [of y p] assms by (cases "y = 0") (auto simp: fl_minus)
  next
    case 4
    then show ?thesis using fl_mono_pos [of "- y" "- x" p] assms by (simp add: fl_minus)
  qed (use fl_mono_pos assms in blast)
qed

lemma fl_nonneg: "0 \<le> x \<Longrightarrow> 0 < p \<Longrightarrow> 0 \<le> fl p x"
  using fl_mono [of 0 x p] by simp

lemma fl_error:
  assumes "0 < p"
  shows "\<bar>fl p x - x\<bar> \<le> \<bar>x\<bar> / 2 ^ p"
proof (cases "x = 0")
  case False
  define u where "u = (2::rat) powi (exponent \<bar>x\<bar> - int p + 1)"
  have u: "0 < u" by (simp add: u_def)
  have "fl p x = of_int (round_even (x / u)) * u" using False by (simp add: fl_def Let_def u_def)
  then have "fl p x - x = (of_int (round_even (x / u)) - x / u) * u" using u by (simp add: left_diff_distrib)
  then have "\<bar>fl p x - x\<bar> = \<bar>of_int (round_even (x / u)) - x / u\<bar> * u" using u by (simp add: abs_mult)
  also have "\<dots> \<le> 1 / 2 * u" using round_even_error u by (intro mult_right_mono) simp_all
  also have "\<dots> = 2 powi exponent \<bar>x\<bar> / 2 ^ p"
    using powi_split [of "exponent \<bar>x\<bar> + 1" p] powi_split [of "exponent \<bar>x\<bar> + 1" 1] by (simp add: u_def algebra_simps eq_divide_eq)
  also have "\<dots> \<le> \<bar>x\<bar> / 2 ^ p" using exponent(1) [of "\<bar>x\<bar>"] False by (intro divide_right_mono) simp_all
  finally show ?thesis .
qed simp

lemma fl_int_pos:
  assumes "0 < n" and "n < 2 ^ p"
  shows "fl p (of_int n) = of_int n"
proof -
  let ?e = "exponent (of_int n)"
  have n: "(0::rat) < of_int n" using assms by simp
  have "(2::rat) powi ?e < 2 powi int p"
    using exponent(1) [OF n] assms(2) by (metis le_less_trans of_int_less_iff of_int_numeral of_int_power power_int_of_nat)
  then have "?e < int p" using power_int_increasing [of "int p" ?e "2::rat"] by linarith
  define k where "k = nat (int p - 1 - ?e)"
  have k: "?e - int p + 1 = - int k" using \<open>?e < int p\<close> by (simp add: k_def)
  define y where "y = (of_int n / 2 powi (- int k) :: rat)"
  have "y = of_int (n * 2 ^ k)" by (simp add: y_def power_int_minus field_simps)
  then have "of_int (round_even y) = y" by (metis round_even_int)
  then show ?thesis using n by (simp add: fl_def Let_def k y_def)
qed

lemma fl_int: "\<bar>n\<bar> < 2 ^ p \<Longrightarrow> fl p (of_int n) = of_int n"
  using fl_int_pos [of n p] fl_int_pos [of "- n" p] fl_minus [of p "of_int (- n)"]
  by (cases n "0::int" rule: linorder_cases) simp_all

text \<open>With 64 bits the difference of two 64-bit timestamps is exact.\<close>

lemma fl_int64_difference:
  assumes "64 \<le> p" and "- (2 ^ 63) \<le> a" "a < 2 ^ 63" and "- (2 ^ 63) \<le> b" "b < 2 ^ 63"
  shows "fl p (fl p (of_int a) - fl p (of_int b)) = of_int (a - b)"
proof -
  have "(2::int) ^ 64 \<le> 2 ^ p" using assms(1) by (rule power_increasing) simp
  then have "\<bar>a\<bar> < 2 ^ p" "\<bar>b\<bar> < 2 ^ p" "\<bar>a - b\<bar> < 2 ^ p" using assms(2-5) by simp_all
  then show ?thesis using fl_int [of "a - b" p] by (simp add: fl_int)
qed

text \<open>Computing a rounding.\<close>

lemma exponent_eqI:
  assumes "0 < x" and "2 powi e \<le> x" and "x < 2 powi (e + 1)"
  shows "exponent x = e"
proof -
  have "\<not> e + 1 \<le> exponent x" "\<not> exponent x + 1 \<le> e"
    using power_int_increasing [of "e + 1" "exponent x" "2::rat"] power_int_increasing [of "exponent x + 1" e "2::rat"]
      exponent [OF assms(1)] assms by linarith+
  then show ?thesis by linarith
qed

lemma round_even_eqI: "\<bar>of_int i - y\<bar> < 1 / 2 \<Longrightarrow> round_even y = i"
proof -
  assume "\<bar>of_int i - y\<bar> < 1 / 2"
  then have "\<bar>of_int (round_even y) - of_int i\<bar> < (1 :: rat)" using round_even_error [of y] by linarith
  then have "of_int \<bar>round_even y - i\<bar> < (of_int 1 :: rat)" by simp
  then have "\<bar>round_even y - i\<bar> < 1" by (simp only: of_int_less_iff)
  then show ?thesis by simp
qed

lemma fl_eqI:
  assumes "0 < x" and "2 powi e \<le> x" and "x < 2 powi (e + 1)" and "\<bar>of_int i - x / 2 powi (e - int p + 1)\<bar> < 1 / 2"
  shows "fl p x = of_int i * 2 powi (e - int p + 1)"
  using assms by (simp add: fl_def Let_def exponent_eqI round_even_eqI)

end
