(* ===== verification/TF_Replay.thy ===== *)
theory TF_Replay
  imports TF_Recovery TF_Rounding "HOL-Library.Product_Lexorder" "HOL-Library.Multiset"
begin

text \<open>
  \<^verbatim>\<open>src/replay/replay.cpp\<close>: the constructor of \<^verbatim>\<open>ReplayEngine\<close> indexes a complete log and sorts the
  index by arrival time, \<^verbatim>\<open>replay\<close> walks through a time window of the index, reads every payload
  again, checks it against the index, hashes it and hands the record to a consumer.

  The file may have changed between the two, so each takes its own view of it.  \<^verbatim>\<open>ParseFromArray\<close> is
  the argument \<open>parse\<close>; the consumer is a function on a state of its own, absent when the
  \<^verbatim>\<open>std::function\<close> is empty.  Sleeping does not change any state: the model notes the duration after
  the start of the replay that each \<^verbatim>\<open>sleep_until\<close> waits for; the start itself is the steady clock at the
  first record and has no part in the arithmetic.  Where the conversion to an integer duration is
  undefined (\<open>None\<close>) the model goes on, as the usual compilers do.
\<close>

section \<open>The stream hash\<close>

fun hash_loop :: "nat \<Rightarrow> u64 \<Rightarrow> 'a::len word \<Rightarrow> u64" where
  "hash_loop 0 hash remaining = hash"
| "hash_loop (Suc n) hash remaining =
     hash_loop n (hash_byte hash (ucast (remaining AND 0xFF))) (drop_bit 8 remaining)"

definition hash_little_endian :: "u64 \<Rightarrow> 'a::len word \<Rightarrow> u64" where
  "hash_little_endian hash value = hash_loop (LENGTH('a) div 8) hash value"

section \<open>The index\<close>

definition index_before :: "log_index_entry \<Rightarrow> log_index_entry \<Rightarrow> bool" where
  "index_before left right =
     (if ix_collector_arrival_timestamp_ns left \<noteq> ix_collector_arrival_timestamp_ns right
      then sint (ix_collector_arrival_timestamp_ns left) < sint (ix_collector_arrival_timestamp_ns right)
      else ix_record_index left < ix_record_index right)"

text \<open>
  \<^verbatim>\<open>std::sort\<close> with this comparison.  The keys of the entries of a log are all different, so there
  is only one sorted arrangement (\<open>sorted_index_unique\<close>), whatever algorithm produces it.
\<close>

definition index_key :: "log_index_entry \<Rightarrow> int \<times> nat" where
  "index_key e = (sint (ix_collector_arrival_timestamp_ns e), unat (ix_record_index e))"

definition sort_index :: "log_index_entry list \<Rightarrow> log_index_entry list" where
  "sort_index index = sort_key index_key index"

record replay_engine =
  re_index :: "log_index_entry list"
  re_error :: string

definition new_engine :: "parser \<Rightarrow> file_view \<Rightarrow> nat \<Rightarrow> replay_engine" where
  "new_engine parse file limit =
     (let log = read_log parse file \<lparr>maximum_records = limit, retain_records = False\<rparr>
      in if rr_status log \<noteq> Complete
         then \<lparr>re_index = [], re_error = ''cannot index telemetry log: '' @ rr_message log\<rparr>
         else \<lparr>re_index = sort_index (rr_index log), re_error = []\<rparr>)"

definition engine_good :: "replay_engine \<Rightarrow> bool" where
  "engine_good engine = (re_error engine = [])"

text \<open>\<^verbatim>\<open>std::lower_bound\<close>: the position of the first entry at or after a time.\<close>

function lower_bound :: "log_index_entry list \<Rightarrow> i64 \<Rightarrow> nat \<Rightarrow> nat \<Rightarrow> nat" where
  "lower_bound index timestamp first len =
     (if len = 0 then first
      else let half = len div 2; middle = first + half
           in if sint (ix_collector_arrival_timestamp_ns (index ! middle)) < sint timestamp
              then lower_bound index timestamp (middle + 1) (len - half - 1)
              else lower_bound index timestamp first half)"
  by pat_completeness auto
termination by (relation "measure (\<lambda>(index, timestamp, first, len). len)") auto

declare lower_bound.simps [simp del]

section \<open>Replay\<close>

record replay_options =
  from_collector_timestamp_ns :: "i64 option"
  until_collector_timestamp_ns :: "i64 option"
  replay_speed :: f64

datatype replay_status = ReplayComplete | ReplayInvalidOptions | ReplayLogError | ReplayIoError | ReplayConsumerError

record replay_result =
  rp_status :: replay_status
  rp_indexed_records :: u64
  rp_replayed_records :: u64
  rp_hash :: u64
  rp_first_timestamp_ns :: "i64 option"
  rp_last_timestamp_ns :: "i64 option"
  rp_message :: string

definition new_replay_result :: replay_result where
  "new_replay_result = \<lparr>rp_status = ReplayLogError, rp_indexed_records = 0, rp_replayed_records = 0, rp_hash = 0,
     rp_first_timestamp_ns = None, rp_last_timestamp_ns = None, rp_message = []\<rparr>"

definition replay_stop :: "replay_result \<Rightarrow> replay_status \<Rightarrow> string \<Rightarrow> replay_result" where
  "replay_stop result status message = result\<lparr>rp_status := status, rp_message := message\<rparr>"

definition read_payload :: "ifstream \<Rightarrow> log_index_entry \<Rightarrow> bool \<Rightarrow> bool \<times> bytes \<times> ifstream" where
  "read_payload input entry sequential_record =
     (let input = is_clear input;
          input = (if sequential_record then is_ignore kRecordHeaderSize input
                   else is_seekg (unat (ix_file_offset entry + of_nat kRecordHeaderSize)) input)
      in if is_fail input then (False, [], input)
         else case is_read (unat (ix_payload_size entry)) input of
                (payload, input) \<Rightarrow> (length payload = unat (ix_payload_size entry), payload, input))"

type_synonym 'c replay_consumer = "(log_record \<Rightarrow> 'c \<Rightarrow> bool \<times> 'c) option"

record 'c replay_state =
  rst_input :: ifstream
  rst_origin :: "i64 option"
  rst_next :: "u64 option"
  rst_pacing :: "int option list"
  rst_result :: replay_result
  rst_consumer :: 'c

abbreviation stop_replay :: "'c replay_state \<Rightarrow> replay_status \<Rightarrow> string \<Rightarrow> 'c replay_state" where
  "stop_replay st status message \<equiv> st\<lparr>rst_result := replay_stop (rst_result st) status message\<rparr>"

definition hash_record :: "u64 \<Rightarrow> log_record \<Rightarrow> bytes \<Rightarrow> u64" where
  "hash_record hash record payload =
     foldl hash_byte
       (hash_little_endian
         (hash_little_endian (hash_little_endian hash (lr_record_index record))
           (lr_collector_arrival_timestamp_ns record))
         (of_nat (length payload) :: u32))
       payload"

text \<open>
  The conversion of a floating-point count of nanoseconds to the integer of
  \<^verbatim>\<open>steady_clock::duration\<close>: it truncates, and is undefined (\<open>None\<close>) when the result does not fit.
\<close>

definition duration_cast_ns :: "rat \<Rightarrow> int option" where
  "duration_cast_ns x = (let n = (if 0 \<le> x then \<lfloor>x\<rfloor> else \<lceil>x\<rceil>) in if - (2 ^ 63) \<le> n \<and> n < 2 ^ 63 then Some n else None)"

text \<open>The duration after the start of the replay at which a record is due; \<open>p\<close> is the precision of \<^verbatim>\<open>long double\<close>.\<close>

definition due_ns :: "nat \<Rightarrow> f64 \<Rightarrow> i64 \<Rightarrow> i64 \<Rightarrow> int option" where
  "due_ns p speed timestamp origin =
     (let elapsed_ns = fl p (fl p (of_int (sint timestamp)) - fl p (of_int (sint origin)))
      in duration_cast_ns (fl p (elapsed_ns / f64_value speed)))"

text \<open>Pacing: the origin is the time of the first record replayed.\<close>

definition pace :: "nat \<Rightarrow> f64 \<Rightarrow> i64 \<Rightarrow> 'c replay_state \<Rightarrow> 'c replay_state" where
  "pace p speed timestamp st =
     (if f64_less 0 speed
      then let origin = (case rst_origin st of None \<Rightarrow> timestamp | Some origin \<Rightarrow> origin)
           in st\<lparr>rst_origin := Some origin, rst_pacing := rst_pacing st @ [due_ns p speed timestamp origin]\<rparr>
      else st)"

text \<open>The end of the loop body: pacing, hash, consumer, counters.\<close>

definition deliver_record ::
  "nat \<Rightarrow> 'c replay_consumer \<Rightarrow> f64 \<Rightarrow> log_record \<Rightarrow> bytes \<Rightarrow> 'c replay_state \<Rightarrow> 'c replay_state + 'c replay_state" where
  "deliver_record p consumer speed record payload st =
     (let timestamp = lr_collector_arrival_timestamp_ns record;
          st = pace p speed timestamp st;
          st = st\<lparr>rst_result := (rst_result st)\<lparr>rp_hash := hash_record (rp_hash (rst_result st)) record payload\<rparr>\<rparr>;
          answer = (case consumer of None \<Rightarrow> (True, rst_consumer st) | Some f \<Rightarrow> f record (rst_consumer st));
          st = st\<lparr>rst_consumer := snd answer\<rparr>
      in if \<not> fst answer then Inl (stop_replay st ReplayConsumerError ''replay consumer rejected a record'')
         else let result = rst_result st
              in Inr (st\<lparr>rst_result := result\<lparr>
                   rp_first_timestamp_ns := (case rp_first_timestamp_ns result of None \<Rightarrow> Some timestamp | Some t \<Rightarrow> Some t),
                   rp_last_timestamp_ns := Some timestamp,
                   rp_replayed_records := rp_replayed_records result + 1\<rparr>\<rparr>))"

definition replay_record ::
  "nat \<Rightarrow> parser \<Rightarrow> 'c replay_consumer \<Rightarrow> f64 \<Rightarrow> log_index_entry \<Rightarrow> 'c replay_state \<Rightarrow> 'c replay_state + 'c replay_state" where
  "replay_record p parse consumer speed current st =
     (let sequential_record = (rst_next st = Some (ix_file_offset current))
      in case read_payload (rst_input st) current sequential_record of (ok, payload, input) \<Rightarrow>
         if \<not> ok then Inl (stop_replay (st\<lparr>rst_input := input\<rparr>) ReplayIoError ''failed to read indexed record payload'')
         else let st = st\<lparr>rst_input := input,
                rst_next := Some (ix_file_offset current + of_nat kRecordHeaderSize + ucast (ix_payload_size current))\<rparr>
              in if crc32c payload \<noteq> ix_payload_crc32c current
                 then Inl (stop_replay st ReplayLogError ''record payload changed after index construction'')
                 else case parse payload of
                        None \<Rightarrow> Inl (stop_replay st ReplayLogError ''indexed telemetry payload is no longer valid'')
                      | Some event \<Rightarrow>
                          if schema_version event \<noteq> kTelemetrySchemaVersion \<or>
                             source_timestamp_ns event \<noteq> ix_source_timestamp_ns current
                          then Inl (stop_replay st ReplayLogError ''indexed telemetry payload is no longer valid'')
                          else deliver_record p consumer speed
                                 \<lparr>lr_record_index = ix_record_index current, lr_file_offset = ix_file_offset current,
                                  lr_collector_arrival_timestamp_ns = ix_collector_arrival_timestamp_ns current,
                                  lr_event = event\<rparr> payload st)"

fun replay_loop ::
  "nat \<Rightarrow> parser \<Rightarrow> 'c replay_consumer \<Rightarrow> replay_options \<Rightarrow> log_index_entry list \<Rightarrow> 'c replay_state \<Rightarrow> 'c replay_state" where
  "replay_loop p parse consumer options [] st = stop_replay st ReplayComplete ''replay completed''"
| "replay_loop p parse consumer options (current # rest) st =
     (if (case until_collector_timestamp_ns options of None \<Rightarrow> False
          | Some until \<Rightarrow> sint until \<le> sint (ix_collector_arrival_timestamp_ns current))
      then stop_replay st ReplayComplete ''replay completed''
      else case replay_record p parse consumer (replay_speed options) current st of
             Inl st \<Rightarrow> st
           | Inr st \<Rightarrow> replay_loop p parse consumer options rest st)"

definition replay ::
  "nat \<Rightarrow> parser \<Rightarrow> replay_engine \<Rightarrow> file_view \<Rightarrow> replay_options \<Rightarrow> 'c replay_consumer \<Rightarrow> 'c \<Rightarrow>
     replay_result \<times> 'c \<times> int option list" where
  "replay p parse engine file options consumer c =
     (let result = new_replay_result\<lparr>rp_indexed_records := of_nat (length (re_index engine)), rp_hash := kFnvOffsetBasis\<rparr>
      in if \<not> engine_good engine then (replay_stop result ReplayLogError (re_error engine), c, [])
         else if \<not> f64_isfinite (replay_speed options) \<or> f64_less (replay_speed options) 0
         then (replay_stop result ReplayInvalidOptions ''replay speed must be finite and non-negative'', c, [])
         else if (case (from_collector_timestamp_ns options, until_collector_timestamp_ns options) of
                    (Some from, Some until) \<Rightarrow> sint until \<le> sint from | _ \<Rightarrow> False)
         then (replay_stop result ReplayInvalidOptions ''until timestamp must be greater than from timestamp'', c, [])
         else let current = (case from_collector_timestamp_ns options of None \<Rightarrow> 0
                             | Some from \<Rightarrow> lower_bound (re_index engine) from 0 (length (re_index engine)))
              in if \<not> fv_open file then (replay_stop result ReplayIoError ''failed to open indexed telemetry log'', c, [])
                 else let st = replay_loop p parse consumer options (drop current (re_index engine))
                        \<lparr>rst_input = is_opened (fv_bytes file), rst_origin = None, rst_next = None, rst_pacing = [],
                         rst_result = result, rst_consumer = c\<rparr>
                      in (rst_result st, rst_consumer st, rst_pacing st))"

definition replay_status_name :: "replay_status \<Rightarrow> string" where
  "replay_status_name status = (case status of ReplayComplete \<Rightarrow> ''complete'' | ReplayInvalidOptions \<Rightarrow> ''invalid_options''
     | ReplayLogError \<Rightarrow> ''log_error'' | ReplayIoError \<Rightarrow> ''io_error'' | ReplayConsumerError \<Rightarrow> ''consumer_error'')"

text \<open>\<^verbatim>\<open>std::hex\<close> with \<^verbatim>\<open>setfill('0')\<close> and \<^verbatim>\<open>setw(16)\<close>.\<close>

definition hex_digit :: "nat \<Rightarrow> char" where
  "hex_digit d = ''0123456789abcdef'' ! d"

fun hex_digits :: "nat \<Rightarrow> string" where
  "hex_digits n = (if n < 16 then [hex_digit n] else hex_digits (n div 16) @ [hex_digit (n mod 16)])"

declare hex_digits.simps [simp del]

definition format_hash :: "u64 \<Rightarrow> string" where
  "format_hash hash = (let digits = hex_digits (unat hash) in replicate (16 - length digits) CHR ''0'' @ digits)"

section \<open>Sorting and searching\<close>

lemma index_before_key: "index_before a b \<longleftrightarrow> index_key a < index_key b"
  by (auto simp: index_before_def index_key_def word_less_nat_alt order.order_iff_strict dest: signed_word_eqI)

abbreviation arrival_ns :: "log_index_entry \<Rightarrow> int" where
  "arrival_ns x \<equiv> sint (ix_collector_arrival_timestamp_ns x)"

lemma sort_index_props:
  "mset (sort_index xs) = mset xs" "set (sort_index xs) = set xs" "length (sort_index xs) = length xs"
  "sorted (map index_key (sort_index xs))"
  by (simp_all add: sort_index_def)

lemma sorted_arrival: "sorted (map index_key xs) \<Longrightarrow> sorted (map arrival_ns xs)"
  by (induction xs) (auto simp: index_key_def)

text \<open>Entries with different keys have only one sorted arrangement.\<close>

lemma sorted_index_unique:
  assumes "distinct (map index_key xs)" and "mset ys = mset xs" and "sorted_wrt index_before ys"
  shows "ys = sort_index xs"
proof (rule map_sorted_distinct_set_unique)
  have set: "set ys = set xs" using assms(2) by (metis set_mset_mset)
  then show "set ys = set (sort_index xs)" by (simp add: sort_index_props)
  show "inj_on index_key (set ys \<union> set (sort_index xs))"
    using assms(1) by (simp add: set sort_index_props distinct_map)
  have strict: "sorted_wrt (<) (map index_key ys)" using assms(3) by (simp add: sorted_wrt_map index_before_key [abs_def])
  then show "sorted (map index_key ys)" "distinct (map index_key ys)" by (simp_all add: strict_sorted_iff)
  show "sorted (map index_key (sort_index xs))" by (rule sort_index_props)
  have "mset (map index_key (sort_index xs)) = mset (map index_key xs)" by (simp add: sort_index_props)
  then show "distinct (map index_key (sort_index xs))" using assms(1) by (metis distinct_count_atmost_1 set_mset_mset)
qed

lemma takeWhile_length_unique:
  assumes "n \<le> length xs" and "\<forall>i < n. P (xs ! i)" and "n < length xs \<longrightarrow> \<not> P (xs ! n)"
  shows "length (takeWhile P xs) = n"
proof -
  have "takeWhile P xs = take n xs"
    using assms by (intro takeWhile_eq_take_P_nth) auto
  then show ?thesis using assms(1) by simp
qed

lemma lower_bound_search:
  assumes "sorted (map arrival_ns index)" and "first + len \<le> length index"
    and "\<forall>i < first. arrival_ns (index ! i) < sint t"
    and "\<forall>i. first + len \<le> i \<and> i < length index \<longrightarrow> \<not> arrival_ns (index ! i) < sint t"
  shows "lower_bound index t first len = length (takeWhile (\<lambda>x. arrival_ns x < sint t) index)"
  using assms
proof (induction index t first len rule: lower_bound.induct)
  case (1 index t first len)
  show ?case
  proof (cases "len = 0")
    case True
    then have "length (takeWhile (\<lambda>x. arrival_ns x < sint t) index) = first"
      using "1.prems" by (intro takeWhile_length_unique) auto
    with True show ?thesis by (simp add: lower_bound.simps)
  next
    case False
    let ?m = "first + len div 2"
    have m: "?m < length index" "?m < first + len" using False "1.prems"(2) by linarith+
    have le: "arrival_ns (index ! i) \<le> arrival_ns (index ! j)" if "i \<le> j" "j < length index" for i j
      using sorted_nth_mono [OF "1.prems"(1), of i j] that by simp
    show ?thesis
    proof (cases "arrival_ns (index ! ?m) < sint t")
      case True
      have "lower_bound index t (?m + 1) (len - len div 2 - 1) = length (takeWhile (\<lambda>x. arrival_ns x < sint t) index)"
        using True False m "1.prems" le_less_trans [OF le True, OF _ m(1)] by (intro "1.IH"(1)) auto
      with True False show ?thesis by (simp add: lower_bound.simps [of index t first] Let_def)
    next
      case ge: False
      have "lower_bound index t first (len div 2) = length (takeWhile (\<lambda>x. arrival_ns x < sint t) index)"
        using ge False m "1.prems" le_less_trans [OF le [of ?m]] by (intro "1.IH"(2)) auto
      with ge False show ?thesis by (simp add: lower_bound.simps [of index t first] Let_def)
    qed
  qed
qed

lemma lower_bound_drop:
  "sorted (map arrival_ns index) \<Longrightarrow>
     drop (lower_bound index t 0 (length index)) index = dropWhile (\<lambda>x. arrival_ns x < sint t) index"
  by (simp add: lower_bound_search dropWhile_eq_drop)

section \<open>The window\<close>

definition in_window :: "replay_options \<Rightarrow> log_index_entry \<Rightarrow> bool" where
  "in_window options x \<longleftrightarrow>
     (case from_collector_timestamp_ns options of None \<Rightarrow> True | Some from \<Rightarrow> sint from \<le> arrival_ns x) \<and>
     (case until_collector_timestamp_ns options of None \<Rightarrow> True | Some until \<Rightarrow> arrival_ns x < sint until)"

definition start_position :: "replay_options \<Rightarrow> log_index_entry list \<Rightarrow> nat" where
  "start_position options index = (case from_collector_timestamp_ns options of None \<Rightarrow> 0
     | Some from \<Rightarrow> lower_bound index from 0 (length index))"

definition before_until :: "replay_options \<Rightarrow> log_index_entry \<Rightarrow> bool" where
  "before_until options x \<longleftrightarrow> (case until_collector_timestamp_ns options of None \<Rightarrow> True | Some until \<Rightarrow> arrival_ns x < sint until)"

lemma dropWhile_filter_sorted:
  "sorted (map f xs) \<Longrightarrow> dropWhile (\<lambda>x. f x < (t::int)) xs = filter (\<lambda>x. t \<le> f x) xs"
proof (induction xs)
  case (Cons x xs)
  then show ?case by (cases "f x < t") (auto intro!: filter_True [symmetric])
qed simp

lemma takeWhile_filter_sorted:
  "sorted (map f xs) \<Longrightarrow> takeWhile (\<lambda>x. f x < (t::int)) xs = filter (\<lambda>x. f x < t) xs"
proof (induction xs)
  case (Cons x xs)
  then show ?case by (cases "f x < t") (auto intro!: filter_False [symmetric])
qed simp

lemma sorted_map_filter: "sorted (map f xs) \<Longrightarrow> sorted (map f (filter P xs))"
  by (induction xs) auto

lemma window_eq:
  assumes "sorted (map arrival_ns index)"
  shows "takeWhile (before_until options) (drop (start_position options index) index) = filter (in_window options) index"
proof -
  have "drop (start_position options index) index = filter (\<lambda>x. case from_collector_timestamp_ns options of
      None \<Rightarrow> True | Some from \<Rightarrow> sint from \<le> arrival_ns x) index"
    using assms by (cases "from_collector_timestamp_ns options")
      (simp_all add: start_position_def lower_bound_drop dropWhile_filter_sorted)
  moreover have "takeWhile (before_until options) (filter P index) = filter (before_until options) (filter P index)" for P
    using takeWhile_filter_sorted [OF sorted_map_filter [OF assms], of _ P]
    by (cases "until_collector_timestamp_ns options") (simp_all add: before_until_def [abs_def])
  ultimately show ?thesis by (simp add: in_window_def [abs_def] before_until_def conj_commute)
qed

section \<open>What is hashed\<close>

definition le_bytes :: "'a::len word \<Rightarrow> bytes" where
  "le_bytes w = map (\<lambda>k. ucast (drop_bit (8 * k) w AND 0xFF)) [0..<LENGTH('a) div 8]"

lemma hash_loop_bytes: "hash_loop n h w = foldl hash_byte h (map (\<lambda>k. ucast (drop_bit (8 * k) w AND 0xFF)) [0..<n])"
proof (induction n h w rule: hash_loop.induct)
  case (2 n h w)
  have "map (\<lambda>k. ucast (drop_bit (8 * k) w AND 0xFF)) [0..<Suc n] =
      (ucast (w AND 0xFF) :: u8) # map (\<lambda>k. ucast (drop_bit (8 * k) (drop_bit 8 w) AND 0xFF)) [0..<n]"
    by (simp add: upt_rec [of 0 "Suc n"] map_Suc_upt [symmetric] del: upt_Suc) (simp add: add.commute)
  with 2 show ?case by simp
qed simp

lemma hash_little_endian_bytes: "hash_little_endian h w = foldl hash_byte h (le_bytes w)"
  by (simp add: hash_little_endian_def hash_loop_bytes le_bytes_def)

text \<open>The bytes of one record that go into the hash.\<close>

definition hashed_bytes :: "log_record \<Rightarrow> bytes \<Rightarrow> bytes" where
  "hashed_bytes r p = le_bytes (lr_record_index r) @ le_bytes (lr_collector_arrival_timestamp_ns r) @
     le_bytes (of_nat (length p) :: u32) @ p"

lemma hash_record_bytes: "hash_record h r p = foldl hash_byte h (hashed_bytes r p)"
  by (simp add: hash_record_def hash_little_endian_bytes hashed_bytes_def)

section \<open>Reading a payload through the index\<close>

text \<open>What an index entry points to, and that it does so correctly.\<close>

definition payload_at :: "bytes \<Rightarrow> log_index_entry \<Rightarrow> bytes" where
  "payload_at bs x = take (unat (ix_payload_size x)) (drop (unat (ix_file_offset x) + 36) bs)"

definition record_at :: "parser \<Rightarrow> bytes \<Rightarrow> log_index_entry \<Rightarrow> log_record" where
  "record_at parse bs x = \<lparr>lr_record_index = ix_record_index x, lr_file_offset = ix_file_offset x,
     lr_collector_arrival_timestamp_ns = ix_collector_arrival_timestamp_ns x, lr_event = the (parse (payload_at bs x))\<rparr>"

definition inside :: "bytes \<Rightarrow> log_index_entry \<Rightarrow> bool" where
  "inside bs x \<longleftrightarrow> unat (ix_file_offset x) + 36 + unat (ix_payload_size x) \<le> length bs"

definition intact :: "parser \<Rightarrow> bytes \<Rightarrow> log_index_entry \<Rightarrow> bool" where
  "intact parse bs x \<longleftrightarrow> crc32c (payload_at bs x) = ix_payload_crc32c x \<and>
     (\<exists>e. parse (payload_at bs x) = Some e \<and> schema_version e = kTelemetrySchemaVersion \<and>
       source_timestamp_ns e = ix_source_timestamp_ns x)"

text \<open>
  The position of the stream agrees with \<^verbatim>\<open>next_physical_offset\<close>; this is why skipping the header
  of the physically next record and seeking to its payload are the same.
\<close>

definition input_ok :: "bytes \<Rightarrow> 'c replay_state \<Rightarrow> bool" where
  "input_ok bs st \<longleftrightarrow> is_bytes (rst_input st) = bs \<and>
     (\<forall>off. rst_next st = Some off \<longrightarrow> is_pos (rst_input st) = unat off)"

lemma offset_no_wrap:
  assumes "inside bs x" and "length bs < 2 ^ 64"
  shows "unat (ix_file_offset x + 36) = unat (ix_file_offset x) + 36"
    and "unat (ix_file_offset x + 36 + ucast (ix_payload_size x)) = unat (ix_file_offset x) + 36 + unat (ix_payload_size x)"
proof -
  have le: "unat (ix_file_offset x) + 36 + unat (ix_payload_size x) < 2 ^ 64"
    using assms by (simp add: inside_def)
  then show a: "unat (ix_file_offset x + 36) = unat (ix_file_offset x) + 36"
    by (subst unat_add_no_wrap) simp_all
  show "unat (ix_file_offset x + 36 + ucast (ix_payload_size x)) = unat (ix_file_offset x) + 36 + unat (ix_payload_size x)"
    using le a by (subst unat_add_no_wrap) simp_all
qed

lemma read_payload_at:
  assumes "is_bytes input = bs" and "inside bs x" and "length bs < 2 ^ 64"
    and "seq \<Longrightarrow> is_pos input = unat (ix_file_offset x)"
  shows "\<exists>input'. read_payload input x seq = (True, payload_at bs x, input') \<and> is_bytes input' = bs \<and>
    is_pos input' = unat (ix_file_offset x) + 36 + unat (ix_payload_size x)"
  using assms offset_no_wrap [OF assms(2,3)]
  by (cases seq) (auto simp: read_payload_def Let_def is_clear_def is_ignore_def is_seekg_def is_read_def inside_def payload_at_def)

lemma replay_record_at:
  assumes "input_ok bs st" and "inside bs x" and "length bs < 2 ^ 64"
  shows "\<exists>st'. input_ok bs st' \<and> rst_result st' = rst_result st \<and> rst_consumer st' = rst_consumer st \<and>
    rst_pacing st' = rst_pacing st \<and> rst_origin st' = rst_origin st \<and>
    replay_record p parse consumer speed x st =
      (if intact parse bs x then deliver_record p consumer speed (record_at parse bs x) (payload_at bs x) st'
       else Inl (stop_replay st' ReplayLogError (if crc32c (payload_at bs x) \<noteq> ix_payload_crc32c x
         then ''record payload changed after index construction'' else ''indexed telemetry payload is no longer valid'')))"
proof -
  have "rst_next st = Some (ix_file_offset x) \<Longrightarrow> is_pos (rst_input st) = unat (ix_file_offset x)"
    and "is_bytes (rst_input st) = bs"
    using assms(1) by (auto simp: input_ok_def)
  from read_payload_at [OF this(2) assms(2,3) this(1)] obtain input' where
    input': "read_payload (rst_input st) x (rst_next st = Some (ix_file_offset x)) = (True, payload_at bs x, input')"
      "is_bytes input' = bs" "is_pos input' = unat (ix_file_offset x) + 36 + unat (ix_payload_size x)"
    by blast
  show ?thesis
    using input' offset_no_wrap [OF assms(2,3)]
    by (intro exI [of _ "st\<lparr>rst_input := input', rst_next := Some (ix_file_offset x + 36 + ucast (ix_payload_size x))\<rparr>"])
      (auto simp: replay_record_def Let_def input_ok_def intact_def record_at_def split: option.splits)
qed

section \<open>The loop\<close>

definition call_consumer :: "'c replay_consumer \<Rightarrow> log_record \<Rightarrow> 'c \<Rightarrow> bool \<times> 'c" where
  "call_consumer consumer r c = (case consumer of None \<Rightarrow> (True, c) | Some f \<Rightarrow> f r c)"

text \<open>How many records a consumer accepts before it rejects one, and its state then.\<close>

fun present :: "'c replay_consumer \<Rightarrow> log_record list \<Rightarrow> 'c \<Rightarrow> nat \<times> 'c" where
  "present consumer [] c = (0, c)"
| "present consumer (r # rs) c =
     (case call_consumer consumer r c of (ok, c') \<Rightarrow>
        if ok then (case present consumer rs c' of (n, c'') \<Rightarrow> (Suc n, c'')) else (0, c'))"

lemma present_le: "fst (present consumer rs c) \<le> length rs"
  by (induction rs arbitrary: c) (auto split: prod.splits, metis fst_conv)

lemma present_None: "present None rs c = (length rs, c)"
  by (induction rs) (auto simp: call_consumer_def)

lemma present_append:
  "present consumer (rs @ ss) c =
     (case present consumer rs c of (n, c') \<Rightarrow>
        if n = length rs then (case present consumer ss c' of (m, c'') \<Rightarrow> (n + m, c'')) else (n, c'))"
  by (induction rs arbitrary: c) (auto split: prod.splits)

definition stream_bytes :: "parser \<Rightarrow> bytes \<Rightarrow> log_index_entry list \<Rightarrow> bytes" where
  "stream_bytes parse bs xs = concat (map (\<lambda>x. hashed_bytes (record_at parse bs x) (payload_at bs x)) xs)"

text \<open>The result after the window \<open>xs\<close> when the consumer accepts \<open>n\<close> records of it.\<close>

definition summarise :: "parser \<Rightarrow> bytes \<Rightarrow> log_index_entry list \<Rightarrow> nat \<Rightarrow> replay_result \<Rightarrow> replay_result" where
  "summarise parse bs xs n r = r\<lparr>
     rp_status := (if n = length xs then ReplayComplete else ReplayConsumerError),
     rp_message := (if n = length xs then ''replay completed'' else ''replay consumer rejected a record''),
     rp_replayed_records := rp_replayed_records r + of_nat n,
     rp_hash := foldl hash_byte (rp_hash r) (stream_bytes parse bs (take (Suc n) xs)),
     rp_first_timestamp_ns := (if n = 0 then rp_first_timestamp_ns r
       else case rp_first_timestamp_ns r of None \<Rightarrow> Some (ix_collector_arrival_timestamp_ns (hd xs)) | Some t \<Rightarrow> Some t),
     rp_last_timestamp_ns := (if n = 0 then rp_last_timestamp_ns r
       else Some (ix_collector_arrival_timestamp_ns (xs ! (n - 1))))\<rparr>"

definition paced :: "nat \<Rightarrow> f64 \<Rightarrow> i64 option \<Rightarrow> log_index_entry list \<Rightarrow> int option list" where
  "paced p speed origin xs = (if f64_less 0 speed
     then map (\<lambda>x. due_ns p speed (ix_collector_arrival_timestamp_ns x)
       (case origin of None \<Rightarrow> ix_collector_arrival_timestamp_ns (hd xs) | Some t \<Rightarrow> t)) xs else [])"

lemma deliver_record_cases:
  fixes p :: nat and speed :: f64
  assumes "call_consumer consumer (record_at parse bs x) (rst_consumer st) = (ok, c)"
  defines "st' \<equiv> (pace p speed (ix_collector_arrival_timestamp_ns x) st)\<lparr>rst_consumer := c,
    rst_result := (rst_result st)\<lparr>rp_hash := foldl hash_byte (rp_hash (rst_result st))
      (hashed_bytes (record_at parse bs x) (payload_at bs x))\<rparr>\<rparr>"
  shows "deliver_record p consumer speed (record_at parse bs x) (payload_at bs x) st =
    (if ok then Inr (st'\<lparr>rst_result := (rst_result st')\<lparr>
        rp_first_timestamp_ns := (case rp_first_timestamp_ns (rst_result st) of
          None \<Rightarrow> Some (ix_collector_arrival_timestamp_ns x) | Some t \<Rightarrow> Some t),
        rp_last_timestamp_ns := Some (ix_collector_arrival_timestamp_ns x),
        rp_replayed_records := rp_replayed_records (rst_result st) + 1\<rparr>\<rparr>)
     else Inl (stop_replay st' ReplayConsumerError ''replay consumer rejected a record''))"
  using assms(1)
  by (auto simp: deliver_record_def call_consumer_def Let_def st'_def pace_def hash_record_bytes record_at_def split: option.splits)

lemma pace_simps [simp]: "rst_result (pace p speed t st) = rst_result st" "rst_consumer (pace p speed t st) = rst_consumer st"
    "rst_input (pace p speed t st) = rst_input st" "rst_next (pace p speed t st) = rst_next st"
  by (simp_all add: pace_def Let_def)

lemma summarise_Cons:
  "summarise parse bs (x # xs) (Suc m) r = summarise parse bs xs m (r\<lparr>
     rp_hash := foldl hash_byte (rp_hash r) (hashed_bytes (record_at parse bs x) (payload_at bs x)),
     rp_first_timestamp_ns := (case rp_first_timestamp_ns r of
       None \<Rightarrow> Some (ix_collector_arrival_timestamp_ns x) | Some t \<Rightarrow> Some t),
     rp_last_timestamp_ns := Some (ix_collector_arrival_timestamp_ns x),
     rp_replayed_records := rp_replayed_records r + 1\<rparr>)"
  by (cases m) (simp_all add: summarise_def stream_bytes_def add.assoc split: option.split)

lemma paced_Cons:
  "rst_pacing (pace p speed (ix_collector_arrival_timestamp_ns x) st) @
     paced p speed (rst_origin (pace p speed (ix_collector_arrival_timestamp_ns x) st)) xs =
   rst_pacing st @ paced p speed (rst_origin st) (x # xs)"
  by (auto simp: paced_def pace_def Let_def split: option.split)

lemma replay_loop_window:
  assumes "input_ok bs st" and "length bs < 2 ^ 64"
    and "\<forall>x \<in> set xs. inside bs x \<and> intact parse bs x \<and> before_until options x"
    and "rest \<noteq> [] \<longrightarrow> \<not> before_until options (hd rest)"
    and "present consumer (map (record_at parse bs) xs) (rst_consumer st) = (n, c)"
  shows "rst_result (replay_loop p parse consumer options (xs @ rest) st) = summarise parse bs xs n (rst_result st) \<and>
    rst_consumer (replay_loop p parse consumer options (xs @ rest) st) = c \<and>
    rst_pacing (replay_loop p parse consumer options (xs @ rest) st) =
      rst_pacing st @ paced p (replay_speed options) (rst_origin st) (take (Suc n) xs)"
  using assms
proof (induction xs arbitrary: st n)
  case Nil
  then show ?case
    by (cases rest) (auto simp: summarise_def stream_bytes_def paced_def replay_stop_def before_until_def split: option.splits)
next
  case (Cons x xs)
  have x: "inside bs x" "intact parse bs x" "before_until options x" using Cons.prems(3) by simp_all
  obtain st1 where st1: "input_ok bs st1" "rst_result st1 = rst_result st" "rst_consumer st1 = rst_consumer st"
      "rst_pacing st1 = rst_pacing st" "rst_origin st1 = rst_origin st"
      "replay_record p parse consumer (replay_speed options) x st =
        deliver_record p consumer (replay_speed options) (record_at parse bs x) (payload_at bs x) st1"
    using replay_record_at [OF Cons.prems(1) x(1) Cons.prems(2), of p parse consumer "replay_speed options"] x(2) by auto
  have loop: "replay_loop p parse consumer options ((x # xs) @ rest) st =
      (case deliver_record p consumer (replay_speed options) (record_at parse bs x) (payload_at bs x) st1 of
         Inl st \<Rightarrow> st | Inr st \<Rightarrow> replay_loop p parse consumer options (xs @ rest) st)"
    using x(3) by (auto simp: st1(6) before_until_def split: option.splits)
  obtain ok c1 where call: "call_consumer consumer (record_at parse bs x) (rst_consumer st1) = (ok, c1)" by (metis surj_pair)
  note deliver = deliver_record_cases [OF call, of p "replay_speed options"]
  show ?case
  proof (cases ok)
    case False
    then have "n = 0" "c = c1" using Cons.prems(5) call st1(3) by simp_all
    with False show ?thesis unfolding loop deliver
      by (simp add: summarise_def stream_bytes_def replay_stop_def st1 paced_def pace_def Let_def split: option.split)
  next
    case True
    obtain m where m: "present consumer (map (record_at parse bs) xs) c1 = (m, c)" "n = Suc m"
      using Cons.prems(5) call st1(3) True by (auto split: prod.splits)
    let ?st2 = "(pace p (replay_speed options) (ix_collector_arrival_timestamp_ns x) st1)\<lparr>rst_consumer := c1,
        rst_result := (rst_result st)\<lparr>
          rp_hash := foldl hash_byte (rp_hash (rst_result st)) (hashed_bytes (record_at parse bs x) (payload_at bs x)),
          rp_first_timestamp_ns := (case rp_first_timestamp_ns (rst_result st) of
            None \<Rightarrow> Some (ix_collector_arrival_timestamp_ns x) | Some t \<Rightarrow> Some t),
          rp_last_timestamp_ns := Some (ix_collector_arrival_timestamp_ns x),
          rp_replayed_records := rp_replayed_records (rst_result st) + 1\<rparr>\<rparr>"
    have "deliver_record p consumer (replay_speed options) (record_at parse bs x) (payload_at bs x) st1 = Inr ?st2"
      using True by (simp add: deliver st1(2))
    then have step: "replay_loop p parse consumer options ((x # xs) @ rest) st = replay_loop p parse consumer options (xs @ rest) ?st2"
      by (simp only: loop sum.case)
    have pre: "input_ok bs ?st2" "present consumer (map (record_at parse bs) xs) (rst_consumer ?st2) = (m, c)"
        "\<forall>x \<in> set xs. inside bs x \<and> intact parse bs x \<and> before_until options x"
      using st1(1) m(1) Cons.prems(3) by (simp_all add: input_ok_def)
    show ?thesis
      unfolding step using Cons.IH [OF pre(1) Cons.prems(2) pre(3) Cons.prems(4) pre(2)]
        paced_Cons [of p "replay_speed options" x st1 "take (Suc m) xs"] st1(4,5)
      by (simp add: m(2) summarise_Cons)
  qed
qed

section \<open>The index of a complete log\<close>

lemma entries_inside_intact:
  assumes "bs = pre @ images k es @ post" and "unat off = length pre" and "length bs < 2 ^ 64"
    and "\<forall>e \<in> set es. valid_entry parse e" and "x \<in> set (entries_at entry_index k off es)"
  shows "inside bs x \<and> intact parse bs x"
  using assms
proof (induction es arbitrary: pre k off)
  case (Cons e es)
  let ?n = "36 + length (le_payload e)"
  have bs: "bs = pre @ record_header_bytes k (le_timestamp e) (le_payload e) @ le_payload e @ images (k + 1) es @ post"
    using Cons.prems(1) by (simp add: record_image_def)
  have valid: "valid_entry parse e" using Cons.prems(4) by simp
  then have size: "unat (of_nat (length (le_payload e)) :: u32) = length (le_payload e)"
    by (intro header_checks) (simp add: valid_entry_def)
  show ?case
  proof (cases "x = entry_index k off e")
    case True
    have "drop (length pre + 36) bs = le_payload e @ images (k + 1) es @ post" unfolding bs by simp
    then have "payload_at bs x = le_payload e"
      using True Cons.prems(2) size by (simp add: payload_at_def entry_index_def)
    moreover have "inside bs x"
      using True Cons.prems(2) size arg_cong [OF bs, of length] by (simp add: inside_def entry_index_def)
    ultimately show ?thesis using valid True by (simp add: intact_def entry_index_def valid_entry_def)
  next
    case False
    have "unat off + ?n < 2 ^ 64" using Cons.prems(2,3) arg_cong [OF bs, of length] by simp
    moreover from this have n: "unat (of_nat ?n :: u64) = ?n" by (intro unat_of_nat_u64) simp
    ultimately have off: "unat (off + of_nat ?n) = length (pre @ record_image k e)"
      using Cons.prems(2) unat_add_no_wrap [of off "of_nat ?n"] by (simp del: of_nat_add)
    have "x \<in> set (entries_at entry_index (k + 1) (off + of_nat ?n) es)"
      using Cons.prems(5) False by simp
    then show ?thesis using Cons.prems by (intro Cons.IH [OF _ off]) (simp_all del: length_append)
  qed
qed simp

lemma entries_record_index: "map ix_record_index (entries_at entry_index k off es) = map (\<lambda>i. k + of_nat i) [0..<length es]"
proof (induction es arbitrary: k off)
  case (Cons e es)
  then show ?case by (simp add: entry_index_def upt_rec [of 0 "Suc _"] map_Suc_upt [symmetric] add.assoc del: upt_Suc)
qed simp

lemma complete_log_index:
  assumes "rr_status (read_log parse (stored bs) options) = Complete" and "length bs < 2 ^ 64"
  shows "\<forall>x \<in> set (rr_index (read_log parse (stored bs) options)). inside bs x \<and> intact parse bs x"
    and "distinct (map index_key (rr_index (read_log parse (stored bs) options)))"
proof -
  obtain h es where bs: "bs = log_bytes h es" and ready: "scan_ready parse options h es (length bs)"
    using read_log_complete_imp [OF assms] by blast
  have idx: "rr_index (read_log parse (stored bs) options) = entries_at entry_index 0 32 es"
    unfolding bs using read_log_whole ready bs by simp
  have h: "length h = 32" "\<forall>e \<in> set es. valid_entry parse e" using ready by (simp_all add: scan_ready_def header_ok_def)
  show "\<forall>x \<in> set (rr_index (read_log parse (stored bs) options)). inside bs x \<and> intact parse bs x"
    unfolding idx using entries_inside_intact [of bs h 0 es "[]" 32 parse] h assms(2) by (simp add: bs log_bytes_def)
  have "36 * length es \<le> length (images 0 es)" by (rule length_images_ge)
  then have small: "length es < 2 ^ 64" using assms(2) by (simp add: bs log_bytes_def)
  have "inj_on (\<lambda>i. of_nat i :: u64) {0..<length es}"
    using small by (intro inj_onI) (metis atLeastLessThan_iff less_trans unat_of_nat_u64)
  then have "distinct (map ix_record_index (entries_at entry_index 0 32 es))"
    by (simp add: entries_record_index distinct_map)
  then show "distinct (map index_key (rr_index (read_log parse (stored bs) options)))"
    unfolding idx by (auto simp: distinct_map index_key_def inj_on_def word_unat_eq_iff [symmetric])
qed

lemma engine_index_sorted:
  assumes "engine_good (new_engine parse (stored bs) limit)" and "length bs < 2 ^ 64"
  defines "scan \<equiv> read_log parse (stored bs) \<lparr>maximum_records = limit, retain_records = False\<rparr>"
  shows "rr_status scan = Complete" and "re_index (new_engine parse (stored bs) limit) = sort_index (rr_index scan)"
    and "sorted_wrt index_before (sort_index (rr_index scan))"
    and "\<forall>x \<in> set (sort_index (rr_index scan)). inside bs x \<and> intact parse bs x"
proof -
  show complete: "rr_status scan = Complete" and "re_index (new_engine parse (stored bs) limit) = sort_index (rr_index scan)"
    using assms(1) by (auto simp: engine_good_def new_engine_def Let_def scan_def split: if_splits)
  note idx = complete_log_index [OF complete [unfolded scan_def] assms(2), folded scan_def]
  show "\<forall>x \<in> set (sort_index (rr_index scan)). inside bs x \<and> intact parse bs x" using idx(1) by (simp add: sort_index_props)
  have "mset (map index_key (sort_index (rr_index scan))) = mset (map index_key (rr_index scan))"
    by (simp add: sort_index_props)
  then have "distinct (map index_key (sort_index (rr_index scan)))"
    using idx(2) by (metis distinct_count_atmost_1 set_mset_mset)
  then have "sorted_wrt (<) (map index_key (sort_index (rr_index scan)))"
    using sort_index_props(4) [of "rr_index scan"] by (simp add: strict_sorted_iff)
  then show "sorted_wrt index_before (sort_index (rr_index scan))" by (simp add: sorted_wrt_map index_before_key [abs_def])
qed

section \<open>Replay of an unchanged log\<close>

definition replay_options_ok :: "replay_options \<Rightarrow> bool" where
  "replay_options_ok options \<longleftrightarrow> f64_isfinite (replay_speed options) \<and> \<not> f64_less (replay_speed options) 0 \<and>
     (case (from_collector_timestamp_ns options, until_collector_timestamp_ns options) of
        (Some from, Some until) \<Rightarrow> sint from < sint until | _ \<Rightarrow> True)"

definition initial_result :: "replay_engine \<Rightarrow> replay_result" where
  "initial_result engine = new_replay_result\<lparr>rp_indexed_records := of_nat (length (re_index engine)), rp_hash := kFnvOffsetBasis\<rparr>"

definition initial_state :: "replay_engine \<Rightarrow> bytes \<Rightarrow> 'c \<Rightarrow> 'c replay_state" where
  "initial_state engine bs c = \<lparr>rst_input = is_opened bs, rst_origin = None, rst_next = None, rst_pacing = [],
     rst_result = initial_result engine, rst_consumer = c\<rparr>"

lemma replay_loop_started:
  assumes "engine_good engine" and "replay_options_ok options"
  shows "replay p parse engine (stored bs) options consumer c =
    (let st = replay_loop p parse consumer options (drop (start_position options (re_index engine)) (re_index engine))
        (initial_state engine bs c)
     in (rst_result st, rst_consumer st, rst_pacing st))"
  using assms by (auto simp: replay_def replay_options_ok_def initial_state_def initial_result_def Let_def stored_def start_position_def
      not_le split: option.splits)

lemma split_at_until:
  assumes "sorted (map arrival_ns index)"
  obtains rest where "drop (start_position options index) index = filter (in_window options) index @ rest"
    and "rest \<noteq> [] \<longrightarrow> \<not> before_until options (hd rest)"
proof -
  let ?ys = "drop (start_position options index) index"
  have "?ys = filter (in_window options) index @ dropWhile (before_until options) ?ys"
    using window_eq [OF assms] takeWhile_dropWhile_id by metis
  then show ?thesis using that hd_dropWhile by blast
qed

lemma in_window_before_until: "in_window options x \<Longrightarrow> before_until options x"
  by (simp add: in_window_def before_until_def)

lemma replay_unchanged:
  assumes good: "engine_good (new_engine parse (stored bs) limit)" and len: "length bs < 2 ^ 64" and ok: "replay_options_ok options"
  defines "engine \<equiv> new_engine parse (stored bs) limit"
  defines "win \<equiv> filter (in_window options) (re_index engine)"
  assumes pres: "present consumer (map (record_at parse bs) win) c = (n, c')"
  shows "replay p parse engine (stored bs) options consumer c =
    (summarise parse bs win n (initial_result engine), c', paced p (replay_speed options) None (take (Suc n) win))"
proof -
  note idx = engine_index_sorted [OF good len, folded engine_def]
  have "sorted (map arrival_ns (re_index engine))" by (simp add: idx(2) sorted_arrival sort_index_props)
  then obtain rest where rest: "drop (start_position options (re_index engine)) (re_index engine) = win @ rest"
      "rest \<noteq> [] \<longrightarrow> \<not> before_until options (hd rest)"
    using split_at_until win_def by metis
  have "input_ok bs (initial_state engine bs c)" by (simp add: input_ok_def initial_state_def)
  moreover have "\<forall>x \<in> set win. inside bs x \<and> intact parse bs x \<and> before_until options x"
    using idx(4) in_window_before_until by (auto simp: win_def idx(2))
  moreover have "present consumer (map (record_at parse bs) win) (rst_consumer (initial_state engine bs c)) = (n, c')"
    using pres by (simp add: initial_state_def)
  ultimately show ?thesis
    using replay_loop_window [of bs "initial_state engine bs c" win parse options rest consumer n c' p] len rest(2)
    by (simp add: replay_loop_started [OF good [folded engine_def] ok] rest(1) Let_def)
      (simp add: initial_state_def)
qed

section \<open>Pacing\<close>

lemma duration_cast_floor: "0 \<le> x \<Longrightarrow> duration_cast_ns x = (if \<lfloor>x\<rfloor> < 2 ^ 63 then Some \<lfloor>x\<rfloor> else None)"
  by (auto simp: duration_cast_ns_def Let_def intro: order_trans [of _ 0])

text \<open>\<open>None\<close>, a duration too long to represent, is the latest.\<close>

definition no_later :: "int option \<Rightarrow> int option \<Rightarrow> bool" where
  "no_later a b = (case b of None \<Rightarrow> True | Some y \<Rightarrow> (case a of None \<Rightarrow> False | Some x \<Rightarrow> x \<le> y))"

lemma duration_cast_mono: "0 \<le> x \<Longrightarrow> x \<le> y \<Longrightarrow> no_later (duration_cast_ns x) (duration_cast_ns y)"
  using floor_mono [of x y] by (auto simp: duration_cast_floor no_later_def)

lemma speed_positive:
  assumes "f64_isfinite speed" and "f64_less 0 speed"
  shows "0 < f64_value speed"
proof -
  have zero: "f64_isfinite 0" by (simp add: f64_isfinite_def f64_magnitude_def)
  have "f64_value 0 = 0" by (simp add: f64_value_def f64_magnitude_def f64_units_def)
  then show ?thesis using f64_less_value [OF zero assms(1)] assms(2) by simp
qed

lemma due_ns_mono:
  assumes "0 < p" and "f64_isfinite speed" "f64_less 0 speed" and "sint origin \<le> sint s" "sint s \<le> sint t"
  shows "no_later (due_ns p speed s origin) (due_ns p speed t origin)"
proof -
  note v = speed_positive [OF assms(2,3)]
  define e where "e = (\<lambda>t. fl p (fl p (of_int t) - fl p (of_int (sint origin))))"
  have mono: "e a \<le> e b" if "a \<le> b" for a b
    unfolding e_def using that assms(1) by (intro fl_mono diff_right_mono) simp_all
  have "e (sint origin) = 0" by (simp add: e_def)
  then have "0 \<le> e (sint s)" using mono [OF assms(4)] by simp
  then have "0 \<le> fl p (e (sint s) / f64_value speed)" using v assms(1) by (intro fl_nonneg) simp_all
  moreover have "fl p (e (sint s) / f64_value speed) \<le> fl p (e (sint t) / f64_value speed)"
    using mono [OF assms(5)] v assms(1) by (intro fl_mono divide_right_mono) simp_all
  ultimately show ?thesis unfolding due_ns_def Let_def e_def by (rule duration_cast_mono)
qed

text \<open>
  A record is due after the exact quotient of the recorded time and the speed, as one of the two
  whole numbers of nanoseconds next to it.
\<close>

definition due_exactly :: "rat \<Rightarrow> int option \<Rightarrow> bool" where
  "due_exactly q wait = (case wait of Some d \<Rightarrow> \<lfloor>q\<rfloor> \<le> d \<and> d \<le> \<lceil>q\<rceil> \<and> d < 2 ^ 63 | None \<Rightarrow> 2 ^ 63 \<le> \<lceil>q\<rceil>)"

lemma duration_cast_exact:
  assumes "64 \<le> p" and "0 \<le> q"
  shows "due_exactly q (duration_cast_ns (fl p q))"
proof -
  have p: "0 < p" using assms(1) by simp
  have "0 \<le> fl p q" using assms(2) p by (rule fl_nonneg)
  have whole: "fl p (of_int k) = of_int k" if "0 \<le> k" "k \<le> 2 ^ 63" for k
  proof (rule fl_int)
    have "(2::int) ^ 64 \<le> 2 ^ p" using assms(1) by (rule power_increasing) simp
    then show "\<bar>k\<bar> < 2 ^ p" using that by simp
  qed
  have lower: "min \<lfloor>q\<rfloor> (2 ^ 63) \<le> \<lfloor>fl p q\<rfloor>"
  proof -
    have "of_int (min \<lfloor>q\<rfloor> (2 ^ 63)) \<le> q" by linarith
    then have "fl p (of_int (min \<lfloor>q\<rfloor> (2 ^ 63))) \<le> fl p q" using p by (rule fl_mono)
    moreover have "fl p (of_int (min \<lfloor>q\<rfloor> (2 ^ 63))) = of_int (min \<lfloor>q\<rfloor> (2 ^ 63))" using assms(2) by (intro whole) simp_all
    ultimately show ?thesis by (simp only: le_floor_iff)
  qed
  have upper: "\<lfloor>fl p q\<rfloor> \<le> \<lceil>q\<rceil>" if "\<lceil>q\<rceil> < 2 ^ 63"
  proof -
    have "fl p q \<le> fl p (of_int \<lceil>q\<rceil>)" using p by (intro fl_mono) simp_all
    moreover have "0 \<le> \<lceil>q\<rceil>" using assms(2) by linarith
    then have "fl p (of_int \<lceil>q\<rceil>) = of_int \<lceil>q\<rceil>" using that by (intro whole) linarith+
    ultimately show ?thesis by linarith
  qed
  show ?thesis
  proof (cases "\<lfloor>fl p q\<rfloor> < 2 ^ 63")
    case True
    then have "\<lfloor>q\<rfloor> \<le> \<lfloor>fl p q\<rfloor>" "\<lfloor>fl p q\<rfloor> \<le> \<lceil>q\<rceil>" using lower upper by linarith+
    with True show ?thesis unfolding due_exactly_def duration_cast_floor [OF \<open>0 \<le> fl p q\<close>] by simp
  next
    case False
    then have "2 ^ 63 \<le> \<lceil>q\<rceil>" using upper by linarith
    with False show ?thesis unfolding due_exactly_def duration_cast_floor [OF \<open>0 \<le> fl p q\<close>] by (simp only: if_False option.case)
  qed
qed

lemma due_ns_exact:
  assumes "64 \<le> p" and "f64_isfinite speed" "f64_less 0 speed" and "sint origin \<le> sint t"
  shows "due_exactly (of_int (sint t - sint origin) / f64_value speed) (due_ns p speed t origin)"
proof -
  have range: "- (2 ^ 63) \<le> sint a" "sint a < 2 ^ 63" for a :: i64 using sint_greater_eq [of a] sint_less [of a] by simp_all
  have "(0 :: rat) \<le> of_int (sint t - sint origin)" using assms(4) by (simp only: of_int_0_le_iff diff_ge_0_iff_ge)
  then have "0 \<le> (of_int (sint t - sint origin) :: rat) / f64_value speed"
    using speed_positive [OF assms(2,3)] by (rule divide_nonneg_pos)
  then show ?thesis
    unfolding due_ns_def Let_def fl_int64_difference [OF assms(1) range range] using assms(1) by (intro duration_cast_exact)
qed

text \<open>
  A positive speed can be so small that a wait does not fit: at \<open>2 ^ - 1022\<close>, the smallest normal
  \<^verbatim>\<open>double\<close>, a hundred nanoseconds of recorded time already leave the range of the conversion.
\<close>

lemma due_ns_overflow:
  assumes "64 \<le> p" and "f64_isfinite speed" "f64_less 0 speed" and "sint origin \<le> sint t"
    and "2 ^ 63 * f64_value speed \<le> of_int (sint t - sint origin)"
  shows "due_ns p speed t origin = None"
proof -
  have "(2 ^ 63 :: rat) \<le> of_int (sint t - sint origin) / f64_value speed"
    using assms(5) speed_positive [OF assms(2,3)] by (simp only: pos_le_divide_eq)
  then have "2 ^ 63 \<le> \<lfloor>of_int (sint t - sint origin) / f64_value speed\<rfloor>" by (simp only: le_floor_iff) simp
  then show ?thesis using due_ns_exact [OF assms(1-4)] by (auto simp only: due_exactly_def split: option.splits)
qed

lemma tiny_speed_overflows:
  "f64_isfinite 0x10000000000000 \<and> f64_less 0 0x10000000000000 \<and> due_ns 64 0x10000000000000 600 500 = None"
proof -
  have "f64_isfinite 0x10000000000000" "f64_less 0 0x10000000000000" "f64_value 0x10000000000000 = 1 / 2 ^ 1022"
    by (simp_all add: f64_isfinite_def f64_less_def f64_key_def f64_magnitude_def f64_isnan_def f64_negative_def f64_value_def f64_units_def)
  then show ?thesis using due_ns_overflow [of 64 "0x10000000000000" 500 600] by simp
qed

definition without_pacing :: "'c replay_state \<Rightarrow> 'c replay_state" where
  "without_pacing st = st\<lparr>rst_origin := None, rst_pacing := []\<rparr>"

lemma deliver_record_speed:
  "map_sum without_pacing without_pacing (deliver_record p consumer s r d st) =
   map_sum without_pacing without_pacing (deliver_record p consumer t r d (without_pacing st))"
  by (auto simp: deliver_record_def Let_def pace_def without_pacing_def split: option.split)

lemma replay_record_speed:
  "map_sum without_pacing without_pacing (replay_record p parse consumer s x st) =
   map_sum without_pacing without_pacing (replay_record p parse consumer t x (without_pacing st))"
proof -
  have *: "deliver_record p consumer s r d (st\<lparr>rst_input := i, rst_next := n\<rparr>) = z \<Longrightarrow>
      map_sum without_pacing without_pacing (deliver_record p consumer t r d ((without_pacing st)\<lparr>rst_input := i, rst_next := n\<rparr>)) =
      map_sum without_pacing without_pacing z" for r d i n z
    using deliver_record_speed [of p consumer s r d "st\<lparr>rst_input := i, rst_next := n\<rparr>" t]
    by (cases st) (simp add: without_pacing_def)
  have [simp]: "rst_input (without_pacing st) = rst_input st" "rst_next (without_pacing st) = rst_next st"
    "rst_result (without_pacing st) = rst_result st"
    by (simp_all add: without_pacing_def)
  show ?thesis
    by (auto simp: replay_record_def Let_def * split: prod.split option.split) (auto simp: without_pacing_def)
qed

lemma replay_record_speeds:
  assumes "without_pacing st = without_pacing st'"
  shows "map_sum without_pacing without_pacing (replay_record p parse consumer s x st) =
    map_sum without_pacing without_pacing (replay_record p parse consumer t x st')"
  using replay_record_speed [of p parse consumer s x st 0] replay_record_speed [of p parse consumer t x st' 0] assms by simp

lemma replay_loop_speed:
  "without_pacing st = without_pacing st' \<Longrightarrow>
   without_pacing (replay_loop p parse consumer (options\<lparr>replay_speed := s\<rparr>) xs st) =
   without_pacing (replay_loop p parse consumer (options\<lparr>replay_speed := t\<rparr>) xs st')"
proof (induction xs arbitrary: st st')
  case Nil
  then show ?case by (cases st; cases st') (simp add: without_pacing_def)
next
  case (Cons x xs)
  have "without_pacing (stop_replay st a m) = without_pacing (stop_replay st' a m)" for a m
    using Cons.prems by (cases st; cases st') (simp add: without_pacing_def)
  moreover note replay_record_speeds [OF Cons.prems, of p parse consumer s x t]
  ultimately show ?case
    using Cons.IH
    by (cases "replay_record p parse consumer s x st"; cases "replay_record p parse consumer t x st'") simp_all
qed

section \<open>A log that changed after it was indexed\<close>

lemma deliver_status_kept:
  "deliver_record p consumer speed r d st = Inl st' \<Longrightarrow> consumer \<noteq> None \<and> rp_status (rst_result st') = ReplayConsumerError"
  by (auto simp: deliver_record_def Let_def replay_stop_def split: if_splits option.splits)

lemma deliver_input_kept: "deliver_record p consumer speed r d st = Inr st' \<Longrightarrow> input_ok bs st \<Longrightarrow> input_ok bs st'"
  by (auto simp: deliver_record_def Let_def input_ok_def split: if_splits option.splits)

lemma replay_loop_changed:
  assumes "input_ok bs st" and "length bs < 2 ^ 64" and "\<forall>x \<in> set xs. inside bs x \<and> before_until options x"
    and "\<exists>x \<in> set xs. \<not> intact parse bs x"
  shows "rp_status (rst_result (replay_loop p parse consumer options (xs @ rest) st)) \<in>
    (if consumer = None then {ReplayLogError} else {ReplayLogError, ReplayConsumerError})"
  using assms
proof (induction xs arbitrary: st)
  case (Cons x xs)
  have x: "inside bs x" "before_until options x" using Cons.prems(3) by simp_all
  obtain st1 where st1: "input_ok bs st1" "replay_record p parse consumer (replay_speed options) x st =
      (if intact parse bs x then deliver_record p consumer (replay_speed options) (record_at parse bs x) (payload_at bs x) st1
       else Inl (stop_replay st1 ReplayLogError (if crc32c (payload_at bs x) \<noteq> ix_payload_crc32c x
         then ''record payload changed after index construction'' else ''indexed telemetry payload is no longer valid'')))"
    using replay_record_at [OF Cons.prems(1) x(1) Cons.prems(2)] by blast
  have loop: "replay_loop p parse consumer options ((x # xs) @ rest) st =
      (case replay_record p parse consumer (replay_speed options) x st of
         Inl st \<Rightarrow> st | Inr st \<Rightarrow> replay_loop p parse consumer options (xs @ rest) st)"
    using x(2) by (auto simp: before_until_def split: option.splits)
  show ?case
  proof (cases "intact parse bs x")
    case False
    then show ?thesis unfolding loop st1(2) by (simp add: replay_stop_def)
  next
    case True
    show ?thesis
    proof (cases "deliver_record p consumer (replay_speed options) (record_at parse bs x) (payload_at bs x) st1")
      case (Inl st2)
      then show ?thesis unfolding loop st1(2) using True deliver_status_kept [OF Inl] by simp
    next
      case (Inr st2)
      have "input_ok bs st2" by (rule deliver_input_kept [OF Inr st1(1)])
      then show ?thesis unfolding loop st1(2) using True Inr Cons.IH Cons.prems by simp
    qed
  qed
qed simp

lemma payload_at_update:
  assumes "unat (ix_file_offset x) + 36 \<le> i" and "i < unat (ix_file_offset x) + 36 + unat (ix_payload_size x)"
  shows "payload_at (bs[i := b]) x = (payload_at bs x)[i - (unat (ix_file_offset x) + 36) := b]"
  using assms by (simp add: payload_at_def drop_update_swap take_update_swap)

section \<open>Splitting a window\<close>

lemma filter_split_sorted:
  fixes f :: "'x \<Rightarrow> int"
  assumes "sorted (map f xs)" and "a \<le> b" and "b \<le> d"
  shows "filter (\<lambda>x. a \<le> f x \<and> f x < d) xs = filter (\<lambda>x. a \<le> f x \<and> f x < b) xs @ filter (\<lambda>x. b \<le> f x \<and> f x < d) xs"
  using assms(1)
proof (induction xs)
  case (Cons x xs)
  show ?case
  proof (cases "b \<le> f x")
    case True
    then have "filter (\<lambda>x. a \<le> f x \<and> f x < b) xs = []" using Cons.prems by (auto intro!: filter_False)
    with True Cons assms show ?thesis by auto
  qed (use Cons assms in auto)
qed simp

section \<open>Properties\<close>

text \<open>
  C21: The replay index.  On a readable complete log the engine is good, and its index is the log's
  index rearranged so that every entry stands before the next by arrival time and, for equal times,
  by record number; every entry points to a payload inside the file that has the recorded checksum
  and parses to an event with the recorded source time.  No other arrangement is sorted that way, so the
  order does not depend on the sorting algorithm.  On anything else the engine is not good and its
  index is empty.
\<close>

theorem engine_index:
  fixes parse :: parser and limit :: nat
  assumes "length bs < 2 ^ 64"
  defines "scan \<equiv> read_log parse (stored bs) \<lparr>maximum_records = limit, retain_records = False\<rparr>"
    and "engine \<equiv> new_engine parse (stored bs) limit"
  shows "if rr_status scan = Complete
    then engine_good engine \<and> mset (re_index engine) = mset (rr_index scan) \<and> sorted_wrt index_before (re_index engine) \<and>
      (\<forall>ys. mset ys = mset (rr_index scan) \<and> sorted_wrt index_before ys \<longrightarrow> ys = re_index engine) \<and>
      (\<forall>x \<in> set (re_index engine). inside bs x \<and> intact parse bs x)
    else \<not> engine_good engine \<and> re_index engine = []"
proof (cases "rr_status scan = Complete")
  case True
  then have good: "engine_good engine" by (simp add: engine_def new_engine_def engine_good_def Let_def scan_def)
  note idx = engine_index_sorted [OF good [unfolded engine_def] assms(1), folded engine_def scan_def]
  have "distinct (map index_key (rr_index scan))"
    using complete_log_index(2) [OF True [unfolded scan_def] assms(1)] by (simp add: scan_def)
  then show ?thesis using True good idx sorted_index_unique [of "rr_index scan"] by (simp add: sort_index_props)
next
  case False
  then show ?thesis by (simp add: engine_def new_engine_def engine_good_def Let_def scan_def)
qed

text \<open>The engine on the log of two records from before.\<close>

lemma sample_scan: "rr_status (read_log sample_parse (stored sample_log) \<lparr>maximum_records = 10, retain_records = False\<rparr>) = Complete"
    "rr_index (read_log sample_parse (stored sample_log) \<lparr>maximum_records = 10, retain_records = False\<rparr>) =
      entries_at entry_index 0 32 sample_entries"
proof -
  have ready: "scan_ready sample_parse \<lparr>maximum_records = 10, retain_records = False\<rparr> (file_header_bytes 7) sample_entries
      (length (log_bytes (file_header_bytes 7) sample_entries))"
    using sample_valid length_sample_log
    by (simp add: scan_ready_def header_ok_file_header sample_entries_def sample_log_def log_bytes_def)
  show "rr_status (read_log sample_parse (stored sample_log) \<lparr>maximum_records = 10, retain_records = False\<rparr>) = Complete"
    "rr_index (read_log sample_parse (stored sample_log) \<lparr>maximum_records = 10, retain_records = False\<rparr>) =
      entries_at entry_index 0 32 sample_entries"
    using read_log_whole [OF ready] by (simp_all add: sample_log_def log_bytes_def)
qed

lemma sample_engine:
  "engine_good (new_engine sample_parse (stored sample_log) 10)"
  "set (re_index (new_engine sample_parse (stored sample_log) 10)) = set (entries_at entry_index 0 32 sample_entries)"
  "length (re_index (new_engine sample_parse (stored sample_log) 10)) = 2"
  by (simp_all add: new_engine_def engine_good_def Let_def sample_scan sort_index_props sample_entries_def)

lemma sample_len: "length sample_log < 2 ^ 64"
  by (simp add: length_sample_log)

definition sample_options :: "i64 option \<Rightarrow> i64 option \<Rightarrow> f64 \<Rightarrow> replay_options" where
  "sample_options from until speed = \<lparr>from_collector_timestamp_ns = from, until_collector_timestamp_ns = until, replay_speed = speed\<rparr>"

lemma sample_speeds: "f64_isfinite 0" "\<not> f64_less 0 0" "f64_isfinite 0x3FF0000000000000" "\<not> f64_less 0x3FF0000000000000 0"
  by (simp_all add: f64_isfinite_def f64_less_def f64_key_def f64_magnitude_def f64_isnan_def f64_negative_def)

lemma sample_options_ok: "replay_options_ok (sample_options None (Some 550) 0)"
  by (simp add: replay_options_ok_def sample_options_def sample_speeds)

theorem engine_index_witness:
  "sorted_wrt index_before (re_index (new_engine sample_parse (stored sample_log) 10)) \<and>
   engine_good (new_engine sample_parse (stored sample_log) 10)"
  using engine_index [OF sample_len, of sample_parse 10] by (simp add: sample_scan)

text \<open>
  C8: Replay of an unchanged log.  With valid options, the records handed to the consumer are
  exactly those of the log whose arrival time lies in the window (from inclusive, until exclusive),
  in index order, up to the first one it rejects.  The result counts the accepted records, names
  the first and last of their times, and its hash is the FNV-1a digest of the record numbers, times,
  sizes and payloads presented.
\<close>

theorem replay_window:
  assumes "engine_good (new_engine parse (stored bs) limit)" and "length bs < 2 ^ 64" and "replay_options_ok options"
  defines "engine \<equiv> new_engine parse (stored bs) limit"
  defines "win \<equiv> filter (in_window options) (re_index engine)"
  shows "\<exists>n c' r. present consumer (map (record_at parse bs) win) c = (n, c') \<and> n \<le> length win \<and>
    fst (replay p parse engine (stored bs) options consumer c) = r \<and>
    fst (snd (replay p parse engine (stored bs) options consumer c)) = c' \<and>
    rp_status r = (if n = length win then ReplayComplete else ReplayConsumerError) \<and>
    rp_replayed_records r = of_nat n \<and> rp_indexed_records r = of_nat (length (re_index engine)) \<and>
    rp_hash r = foldl hash_byte kFnvOffsetBasis (stream_bytes parse bs (take (Suc n) win)) \<and>
    rp_first_timestamp_ns r = (if n = 0 then None else Some (ix_collector_arrival_timestamp_ns (hd win))) \<and>
    rp_last_timestamp_ns r = (if n = 0 then None else Some (ix_collector_arrival_timestamp_ns (win ! (n - 1))))"
proof -
  obtain n c' where pres: "present consumer (map (record_at parse bs) win) c = (n, c')" by (metis surj_pair)
  then have "n \<le> length win" using present_le [of consumer "map (record_at parse bs) win" c] by simp
  with pres replay_unchanged [OF assms(1-3) pres [unfolded win_def engine_def]] show ?thesis
    by (simp add: summarise_def initial_result_def new_replay_result_def engine_def [symmetric] win_def [symmetric])
qed

theorem replay_window_witness:
  "rp_status (fst (replay 64 sample_parse (new_engine sample_parse (stored sample_log) 10) (stored sample_log)
      (sample_options None (Some 550) 0) None ())) = ReplayComplete"
  using replay_window [OF sample_engine(1) sample_len sample_options_ok, of None "()"]
  by (auto simp: present_None)

text \<open>
  C22: The replay speed only changes how long the replay takes: for any log and any file found at
  replay time, with the same window and consumer, two valid speeds give the same result, hash
  included, and leave the consumer in the same state.
\<close>

theorem replay_speed_irrelevant:
  assumes "f64_isfinite s" "\<not> f64_less s 0" "f64_isfinite t" "\<not> f64_less t 0"
  shows "fst (replay p parse engine file (options\<lparr>replay_speed := s\<rparr>) consumer c) =
      fst (replay p parse engine file (options\<lparr>replay_speed := t\<rparr>) consumer c) \<and>
    fst (snd (replay p parse engine file (options\<lparr>replay_speed := s\<rparr>) consumer c)) =
      fst (snd (replay p parse engine file (options\<lparr>replay_speed := t\<rparr>) consumer c))"
proof -
  have *: "rst_result a = rst_result b \<and> rst_consumer a = rst_consumer b" if "without_pacing a = without_pacing b" for a b :: "'c replay_state"
    using that by (cases a; cases b) (simp add: without_pacing_def)
  show ?thesis using assms
    by (auto simp: replay_def Let_def * [OF replay_loop_speed [OF refl, where s = s and t = t]] split: option.split)
qed

theorem replay_speed_irrelevant_witness:
  "fst (replay 64 sample_parse (new_engine sample_parse (stored sample_log) 10) (stored sample_log)
      ((sample_options None None 0)\<lparr>replay_speed := 0\<rparr>) None ()) =
   fst (replay 64 sample_parse (new_engine sample_parse (stored sample_log) 10) (stored sample_log)
      ((sample_options None None 0)\<lparr>replay_speed := 0x3FF0000000000000\<rparr>) None ())"
  by (rule conjunct1 [OF replay_speed_irrelevant [OF sample_speeds]])

lemma arrivals_sorted:
  assumes "engine_good (new_engine parse (stored bs) limit)" and "length bs < 2 ^ 64"
  shows "sorted (map arrival_ns (take n (filter P (re_index (new_engine parse (stored bs) limit)))))"
proof -
  have "sorted (map arrival_ns (re_index (new_engine parse (stored bs) limit)))"
    using engine_index_sorted(2) [OF assms] by (simp add: sorted_arrival sort_index_props)
  then show ?thesis by (simp add: take_map [symmetric] sorted_map_filter sorted_wrt_take)
qed

text \<open>
  C23: Pacing of an unchanged log.  With speed zero there is no waiting at all.  With a positive speed
  every record presented is preceded by one wait, until it is due: the first record at once, and none
  earlier than the record before it.  With a \<^verbatim>\<open>long double\<close> of at least 64 bits a record is due after
  the time recorded between it and the first record of the window, divided by the speed, rounded to a
  neighbouring whole number of nanoseconds; the only exception is a quotient that does not fit the
  64-bit duration of the clock, for which the conversion in the code has no defined result.
\<close>

theorem replay_pacing:
  fixes consumer :: "'c replay_consumer" and c :: 'c
  assumes "engine_good (new_engine parse (stored bs) limit)" and "length bs < 2 ^ 64" and "replay_options_ok options" and "0 < p"
  defines "engine \<equiv> new_engine parse (stored bs) limit"
  defines "win \<equiv> filter (in_window options) (re_index engine)"
  defines "arrivals \<equiv> map arrival_ns (take (Suc (fst (present consumer (map (record_at parse bs) win) c))) win)"
  defines "waits \<equiv> snd (snd (replay p parse engine (stored bs) options consumer c))"
  shows "if f64_less 0 (replay_speed options)
    then length waits = length arrivals \<and> sorted_wrt no_later waits \<and> (waits \<noteq> [] \<longrightarrow> hd waits = Some 0) \<and>
      (64 \<le> p \<longrightarrow> list_all2 (\<lambda>t wait. due_exactly (of_int (t - hd arrivals) / f64_value (replay_speed options)) wait) arrivals waits)
    else waits = []"
proof -
  let ?speed = "replay_speed options"
  obtain n c' where pres: "present consumer (map (record_at parse bs) win) c = (n, c')" by (metis surj_pair)
  define xs where "xs = take (Suc n) win"
  let ?due = "\<lambda>x. due_ns p ?speed (ix_collector_arrival_timestamp_ns x) (ix_collector_arrival_timestamp_ns (hd xs))"
  have waits: "waits = (if f64_less 0 ?speed then map ?due xs else [])"
    using replay_unchanged [OF assms(1-3) pres [unfolded engine_def win_def], of p]
    by (simp add: waits_def engine_def [symmetric] win_def [symmetric] paced_def xs_def)
  have arrivals: "arrivals = map arrival_ns xs" by (simp add: arrivals_def pres xs_def)
  have sorted: "sorted (map arrival_ns xs)" using arrivals_sorted [OF assms(1,2)] by (simp add: xs_def win_def engine_def)
  then have first: "arrival_ns (hd xs) \<le> arrival_ns x" if "x \<in> set xs" for x using that by (cases xs) auto
  have finite: "f64_isfinite ?speed" using assms(3) by (simp add: replay_options_ok_def)
  have ordered: "sorted_wrt no_later (map ?due xs)" if "f64_less 0 ?speed"
    unfolding sorted_wrt_map
    using sorted [unfolded sorted_wrt_map] by (rule sorted_wrt_mono_rel [rotated]) (use due_ns_mono [OF assms(4) finite that] first in auto)
  have start: "due_ns p ?speed t t = Some 0" for t by (simp add: due_ns_def duration_cast_ns_def)
  have zero: "due_exactly 0 (Some 0)" by (simp add: due_exactly_def)
  have exact: "due_exactly (of_int (arrival_ns x - arrival_ns (hd xs)) / f64_value ?speed) (?due x)"
    if "f64_less 0 ?speed" "64 \<le> p" "x \<in> set xs" for x
    using due_ns_exact [OF that(2) finite that(1) first [OF that(3)]] .
  show ?thesis
  proof (cases "f64_less 0 ?speed")
    case True
    then show ?thesis
      using ordered [OF True] exact [OF True] start
      by (cases xs) (auto simp: waits arrivals zero list_all2_map1 list_all2_map2 list_all2_same simp del: of_int_diff)
  qed (simp add: waits)
qed

lemma sample_engine_index: "re_index (new_engine sample_parse (stored sample_log) 10) = entries_at entry_index 0 32 sample_entries"
  by (simp add: new_engine_def Let_def sample_scan sort_index_def sample_entries_def entry_index_def index_key_def)

lemma sample_speed_one: "f64_value 0x3FF0000000000000 = 1" "f64_less 0 0x3FF0000000000000"
  by (simp_all add: f64_value_def f64_units_def Let_def f64_less_def f64_key_def f64_magnitude_def f64_isnan_def f64_negative_def)

theorem replay_pacing_witness:
  "snd (snd (replay 64 sample_parse (new_engine sample_parse (stored sample_log) 10) (stored sample_log)
     (sample_options None None 0x3FF0000000000000) None ())) = [Some 0, Some 100]"
proof -
  let ?options = "sample_options None None 0x3FF0000000000000"
  have ok: "replay_options_ok ?options" by (simp add: replay_options_ok_def sample_options_def sample_speeds)
  have all: "filter (in_window ?options) xs = xs" for xs by (simp add: in_window_def sample_options_def filter_id_conv)
  have speed: "replay_speed ?options = 0x3FF0000000000000" by (simp add: sample_options_def)
  have arrivals: "map arrival_ns (entries_at entry_index 0 32 sample_entries) = [500, 600]"
    by (simp add: sample_entries_def entry_index_def)
  have p: "0 < (64 :: nat)" by simp
  show ?thesis
    using replay_pacing [OF sample_engine(1) sample_len ok p, of None "()"]
    unfolding all speed sample_speed_one present_None sample_engine_index
    by (auto simp: arrivals list_all2_Cons1 due_exactly_def sample_speed_one split: option.splits)
qed

text \<open>
  C24: Windows compose.  Replaying an unchanged log from \<open>a\<close> until \<open>b\<close>, and then, with the consumer
  as that left it, from \<open>b\<close> until \<open>d\<close>, is the same for the consumer as replaying from \<open>a\<close> until \<open>d\<close>,
  and the counts add up; if the consumer rejects a record of the first window, the replay of the
  whole window ends in the same way.
\<close>

theorem replay_windows_compose:
  fixes p :: nat and options :: replay_options and consumer :: "'c replay_consumer" and c :: 'c and a b d :: i64
  assumes "engine_good (new_engine parse (stored bs) limit)" and "length bs < 2 ^ 64"
    and "f64_isfinite (replay_speed options)" "\<not> f64_less (replay_speed options) 0" and "sint a < sint b" "sint b < sint d"
  defines "run \<equiv> \<lambda>x y. replay p parse (new_engine parse (stored bs) limit) (stored bs)
    (options\<lparr>from_collector_timestamp_ns := Some x, until_collector_timestamp_ns := Some y\<rparr>) consumer"
  defines "first \<equiv> run a b c" and "second \<equiv> run b d (fst (snd (run a b c)))" and "whole \<equiv> run a d c"
  shows "if rp_status (fst first) = ReplayComplete
    then fst (snd whole) = fst (snd second) \<and> rp_status (fst whole) = rp_status (fst second) \<and>
      rp_replayed_records (fst whole) = rp_replayed_records (fst first) + rp_replayed_records (fst second)
    else fst (snd whole) = fst (snd first) \<and> rp_status (fst whole) = rp_status (fst first) \<and>
      rp_replayed_records (fst whole) = rp_replayed_records (fst first)"
proof -
  define engine where "engine = new_engine parse (stored bs) limit"
  let ?opts = "\<lambda>x y. options\<lparr>from_collector_timestamp_ns := Some x, until_collector_timestamp_ns := Some y\<rparr>"
  define win where "win = (\<lambda>x y. filter (in_window (?opts x y)) (re_index engine))"
  have ok: "replay_options_ok (?opts x y)" if "sint x < sint y" for x y
    using assms(3,4) that by (simp add: replay_options_ok_def)
  have run: "fst (snd (run x y e)) = c' \<and> rp_replayed_records (fst (run x y e)) = of_nat n \<and>
      rp_status (fst (run x y e)) = (if n = length (win x y) then ReplayComplete else ReplayConsumerError)"
    if "sint x < sint y" and "present consumer (map (record_at parse bs) (win x y)) e = (n, c')" for x y e n c'
    using replay_unchanged [OF assms(1,2) ok [OF that(1)] that(2) [unfolded win_def engine_def]]
    by (simp add: run_def summarise_def initial_result_def new_replay_result_def win_def engine_def)
  have "sorted (map arrival_ns (re_index engine))"
    using engine_index_sorted(2) [OF assms(1,2)] by (simp add: engine_def sorted_arrival sort_index_props)
  from filter_split_sorted [OF this, of "sint a" "sint b" "sint d"] assms(5,6)
  have split: "win a d = win a b @ win b d" by (simp add: win_def in_window_def [abs_def])
  obtain n1 c1 where p1: "present consumer (map (record_at parse bs) (win a b)) c = (n1, c1)" by (metis surj_pair)
  obtain n2 c2 where p2: "present consumer (map (record_at parse bs) (win b d)) c1 = (n2, c2)" by (metis surj_pair)
  have pw: "present consumer (map (record_at parse bs) (win a d)) c = (if n1 = length (win a b) then (n1 + n2, c2) else (n1, c1))"
    by (simp add: split present_append p1 p2)
  have le: "n1 \<le> length (win a b)" using present_le [of consumer "map (record_at parse bs) (win a b)" c] p1 by simp
  note r1 = run [OF assms(5) p1]
  have ad: "sint a < sint d" using assms(5,6) by simp
  show ?thesis
  proof (cases "n1 = length (win a b)")
    case True
    then show ?thesis
      using r1 run [OF assms(6) p2] run [OF ad, of c "n1 + n2" c2] pw by (simp add: first_def second_def whole_def split)
  next
    case False
    then show ?thesis
      using r1 run [OF ad, of c n1 c1] pw le by (simp add: first_def whole_def split)
  qed
qed

theorem replay_windows_compose_witness:
  "rp_replayed_records (fst (replay 64 sample_parse (new_engine sample_parse (stored sample_log) 10) (stored sample_log)
      ((sample_options None None 0)\<lparr>from_collector_timestamp_ns := Some 1, until_collector_timestamp_ns := Some 900\<rparr>) None ())) =
   rp_replayed_records (fst (replay 64 sample_parse (new_engine sample_parse (stored sample_log) 10) (stored sample_log)
      ((sample_options None None 0)\<lparr>from_collector_timestamp_ns := Some 1, until_collector_timestamp_ns := Some 550\<rparr>) None ())) +
   rp_replayed_records (fst (replay 64 sample_parse (new_engine sample_parse (stored sample_log) 10) (stored sample_log)
      ((sample_options None None 0)\<lparr>from_collector_timestamp_ns := Some 550, until_collector_timestamp_ns := Some 900\<rparr>) None ()))"
proof -
  have "replay_options_ok ((sample_options None None 0)\<lparr>from_collector_timestamp_ns := Some 1, until_collector_timestamp_ns := Some 550\<rparr>)"
    by (simp add: replay_options_ok_def sample_options_def sample_speeds)
  from replay_unchanged [OF sample_engine(1) sample_len this present_None [where c = "()"]]
  have "rp_status (fst (replay 64 sample_parse (new_engine sample_parse (stored sample_log) 10) (stored sample_log)
      ((sample_options None None 0)\<lparr>from_collector_timestamp_ns := Some 1, until_collector_timestamp_ns := Some 550\<rparr>) None ())) = ReplayComplete"
    by (simp add: summarise_def)
  then show ?thesis
    using replay_windows_compose [OF sample_engine(1) sample_len, of "sample_options None None 0" 1 550 900 64 None "()"]
    by (simp add: sample_options_def sample_speeds)
qed

text \<open>
  C25: A payload that changes between indexing and replay is caught: if one byte of the payload of
  any record in the window is different at replay time, the replay does not complete, and unless the
  consumer stops it earlier it ends with \<^verbatim>\<open>log_error\<close>.
\<close>

theorem changed_payload_detected:
  assumes "engine_good (new_engine parse (stored bs) limit)" and "length bs < 2 ^ 64" and "replay_options_ok options"
    and "x \<in> set (re_index (new_engine parse (stored bs) limit))" "in_window options x"
    and "unat (ix_file_offset x) + 36 \<le> i" "i < unat (ix_file_offset x) + 36 + unat (ix_payload_size x)" "b \<noteq> bs ! i"
  shows "rp_status (fst (replay p parse (new_engine parse (stored bs) limit) (stored (bs[i := b])) options consumer c)) \<in>
    (if consumer = None then {ReplayLogError} else {ReplayLogError, ReplayConsumerError})"
proof -
  define engine where "engine = new_engine parse (stored bs) limit"
  let ?bs = "bs[i := b]" and ?win = "filter (in_window options) (re_index engine)"
  note idx = engine_index_sorted [OF assms(1,2), folded engine_def]
  have "sorted (map arrival_ns (re_index engine))" by (simp add: idx(2) sorted_arrival sort_index_props)
  then obtain rest where rest: "drop (start_position options (re_index engine)) (re_index engine) = ?win @ rest"
    using split_at_until by metis
  have x: "inside bs x" "crc32c (payload_at bs x) = ix_payload_crc32c x" "x \<in> set ?win"
    using idx(4) assms(4,5) by (auto simp: engine_def [symmetric] idx(2) intact_def)
  let ?j = "i - (unat (ix_file_offset x) + 36)"
  have j: "?j < length (payload_at bs x)" and "b \<noteq> payload_at bs x ! ?j"
    using x(1) assms(6-8) by (auto simp: payload_at_def inside_def)
  then have "crc32c (payload_at ?bs x) \<noteq> ix_payload_crc32c x"
    using crc32c_one_byte [OF j, of b] x(2) payload_at_update [OF assms(6,7), of bs b] by simp
  then have "\<exists>x \<in> set ?win. \<not> intact parse ?bs x" using x(3) by (auto simp: intact_def)
  moreover have "\<forall>x \<in> set ?win. inside ?bs x \<and> before_until options x"
    using idx(4) in_window_before_until by (auto simp: idx(2) inside_def)
  moreover have "input_ok ?bs (initial_state engine ?bs c)" by (simp add: input_ok_def initial_state_def)
  ultimately show ?thesis
    using replay_loop_changed [of ?bs "initial_state engine ?bs c" ?win options parse p consumer rest] assms(2)
    unfolding engine_def [symmetric] by (simp add: replay_loop_started [OF assms(1) [folded engine_def] assms(3)] rest Let_def)
qed

theorem changed_payload_detected_witness:
  "rp_status (fst (replay 64 sample_parse (new_engine sample_parse (stored sample_log) 10) (stored (sample_log[68 := 9]))
      (sample_options None (Some 550) 0) None ())) = ReplayLogError"
proof -
  let ?x = "entry_index 0 32 (hd sample_entries)"
  have x: "?x \<in> set (re_index (new_engine sample_parse (stored sample_log) 10))"
    by (simp add: sample_engine sample_entries_def)
  have f: "unat (ix_file_offset ?x) = 32" "unat (ix_payload_size ?x) = 3" "in_window (sample_options None (Some 550) 0) ?x"
    by (simp_all add: entry_index_def sample_entries_def in_window_def sample_options_def)
  show ?thesis
    using changed_payload_detected [OF sample_engine(1) sample_len sample_options_ok x f(3), of 68 9 64 None "()"] f(1,2) sample_log_68
    by simp
qed

section \<open>Printing the hash\<close>

definition hex_value :: "char \<Rightarrow> nat" where
  "hex_value ch = length (takeWhile (\<lambda>d. d \<noteq> ch) ''0123456789abcdef'')"

definition parse_hex :: "string \<Rightarrow> nat" where
  "parse_hex s = foldl (\<lambda>n ch. 16 * n + hex_value ch) 0 s"

lemma hex_digit_value: "d < 16 \<Longrightarrow> hex_value (hex_digit d) = d \<and> hex_digit d \<in> set ''0123456789abcdef''"
proof -
  have "\<forall>d \<in> set [0..<16]. hex_value (hex_digit d) = d \<and> hex_digit d \<in> set ''0123456789abcdef''"
    by (simp add: hex_value_def hex_digit_def upt_rec)
  then show "d < 16 \<Longrightarrow> ?thesis" by simp
qed

lemma hex_digits_props:
  "parse_hex (hex_digits n) = n \<and> set (hex_digits n) \<subseteq> set ''0123456789abcdef'' \<and> hex_digits n \<noteq> []"
proof (induction n rule: hex_digits.induct)
  case (1 n)
  show ?case
  proof (cases "n < 16")
    case True
    then show ?thesis using hex_digit_value [of n] by (subst (1 2 3) hex_digits.simps) (simp add: parse_hex_def)
  next
    case False
    then have IH: "parse_hex (hex_digits (n div 16)) = n div 16" "set (hex_digits (n div 16)) \<subseteq> set ''0123456789abcdef''"
      using "1.IH" by auto
    have "parse_hex (hex_digits (n div 16) @ [hex_digit (n mod 16)]) = n"
      using IH(1) hex_digit_value [of "n mod 16"] by (simp add: parse_hex_def)
    then show ?thesis using False IH(2) hex_digit_value [of "n mod 16"] by (subst (1 2 3) hex_digits.simps) simp
  qed
qed

lemma length_hex_digits: "n < 16 ^ Suc k \<Longrightarrow> length (hex_digits n) \<le> Suc k"
proof (induction k arbitrary: n)
  case 0
  then show ?case by (subst hex_digits.simps) simp
next
  case (Suc k)
  show ?case
  proof (cases "n < 16")
    case False
    have "n div 16 < 16 ^ Suc k" using Suc.prems by (simp add: less_mult_imp_div_less mult.commute)
    then show ?thesis using Suc.IH False by (subst hex_digits.simps) simp
  qed (subst hex_digits.simps, simp)
qed

lemma parse_hex_zeros: "parse_hex (replicate k CHR ''0'' @ s) = parse_hex s"
  by (induction k) (simp_all add: parse_hex_def hex_value_def)

text \<open>
  C26: \<^verbatim>\<open>format_hash\<close> prints every hash as exactly sixteen lower-case hexadecimal digits that read
  back as the hash; so two hashes print the same only if they are the same.
\<close>

theorem format_hash_roundtrip:
  "length (format_hash h) = 16 \<and> set (format_hash h) \<subseteq> set ''0123456789abcdef'' \<and> of_nat (parse_hex (format_hash h)) = h"
proof -
  have "unat h < 16 ^ Suc 15" using unat_bound [of h] by simp
  then have "length (hex_digits (unat h)) \<le> 16" using length_hex_digits [of "unat h" 15] by simp
  then show ?thesis using hex_digits_props [of "unat h"]
    by (auto simp: format_hash_def Let_def parse_hex_zeros)
qed

end
