(* ===== verification/TF_Random.thy ===== *)
theory TF_Random
  imports TF_Prelude
begin

text \<open>
  \<^verbatim>\<open>PortableRandom\<close> of \<^verbatim>\<open>src/generator/workload_generator.cpp\<close>, over any engine: \<open>draw\<close> returns the
  next 64-bit value of the engine and its new state.  The source uses \<^verbatim>\<open>std::mt19937_64\<close>, defined
  below as the standard defines it.

  \<^verbatim>\<open>bounded\<close> draws until a value passes a threshold, so it is a partial function.  What makes it
  return is that the engine keeps producing large values (\<open>lively\<close>), a consequence of the
  equidistribution of the Mersenne Twister that the program relies on.

  Computations that draw random numbers are functions of the engine state into an optional result,
  which is an exception (\<open>Inl\<close>) or a value and the new state; \<open>None\<close> means that a draw never ends.
  \<open>returns\<close> states that such a computation ends without an exception.
\<close>

section \<open>The engine\<close>

type_synonym 'g engine = "'g \<Rightarrow> u64 \<times> 'g"

text \<open>\<^verbatim>\<open>std::mt19937_64\<close>: 312 words, the oldest first.\<close>

fun mt_fill :: "nat \<Rightarrow> u64 \<Rightarrow> u64 \<Rightarrow> u64 list" where
  "mt_fill 0 i x = []"
| "mt_fill (Suc n) i x = x # mt_fill n (i + 1) (6364136223846793005 * (x XOR drop_bit 62 x) + i)"

definition mt19937_64_seed :: "u64 \<Rightarrow> u64 list" where
  "mt19937_64_seed seed = mt_fill 312 1 seed"

definition mt_temper :: "u64 \<Rightarrow> u64" where
  "mt_temper x =
     (let x = x XOR (drop_bit 29 x AND 0x5555555555555555);
          x = x XOR (push_bit 17 x AND 0x71d67fffeda60000);
          x = x XOR (push_bit 37 x AND 0xfff7eee000000000)
      in x XOR drop_bit 43 x)"

definition mt19937_64 :: "u64 list engine" where
  "mt19937_64 st =
     (let y = (hd st AND 0xffffffff80000000) OR (st ! 1 AND 0x7fffffff);
          x = st ! 156 XOR drop_bit 1 y XOR (if y AND 1 = 1 then 0xb5026f5aa96619e9 else 0)
      in (mt_temper x, tl st @ [x]))"

section \<open>PortableRandom\<close>

partial_function (option) bounded_loop :: "'g engine \<Rightarrow> u64 \<Rightarrow> u64 \<Rightarrow> 'g \<Rightarrow> (u64 \<times> 'g) option" where
  "bounded_loop draw threshold upper_exclusive g =
     (case draw g of (v, g') \<Rightarrow>
        if threshold \<le> v then Some (v mod upper_exclusive, g')
        else bounded_loop draw threshold upper_exclusive g')"

definition bounded :: "'g engine \<Rightarrow> u64 \<Rightarrow> 'g \<Rightarrow> (u64 \<times> 'g) option" where
  "bounded draw upper_exclusive g =
     (if upper_exclusive = 0 then Some (0, g)
      else bounded_loop draw ((- upper_exclusive) mod upper_exclusive) upper_exclusive g)"

abbreviation kProbabilityScale :: u32 where "kProbabilityScale \<equiv> 1000000"

definition chance :: "'g engine \<Rightarrow> u32 \<Rightarrow> 'g \<Rightarrow> (bool \<times> 'g) option" where
  "chance draw per_million g = map_option (\<lambda>(v, g). (v < ucast per_million, g)) (bounded draw (ucast kProbabilityScale) g)"

section \<open>When it returns\<close>

definition drawn :: "'g engine \<Rightarrow> nat \<Rightarrow> 'g \<Rightarrow> u64" where
  "drawn draw n g = fst (draw (((snd \<circ> draw) ^^ n) g))"

definition lively :: "'g engine \<Rightarrow> 'g \<Rightarrow> bool" where
  "lively draw g \<longleftrightarrow> (\<forall>n. \<exists>m \<ge> n. 2 ^ 63 \<le> drawn draw m g)"

lemma drawn_Suc: "drawn draw (Suc n) g = drawn draw n (snd (draw g))"
  unfolding drawn_def funpow_Suc_right by simp

lemma lively_step: "lively draw g \<Longrightarrow> lively draw (snd (draw g))"
  unfolding lively_def
proof
  fix n
  assume *: "\<forall>n. \<exists>m \<ge> n. 2 ^ 63 \<le> drawn draw m g"
  then obtain m where "Suc n \<le> m" "2 ^ 63 \<le> drawn draw m g" by blast
  then show "\<exists>m \<ge> n. 2 ^ 63 \<le> drawn draw m (snd (draw g))" by (cases m) (auto simp: drawn_Suc)
qed

text \<open>The rejection threshold is \<open>2 ^ 64\<close> modulo the bound, and below half of the range.\<close>

lemma threshold_unat: "u \<noteq> 0 \<Longrightarrow> unat ((- u) mod u :: u64) = 2 ^ 64 mod unat u"
proof -
  assume u: "u \<noteq> 0"
  then have "0 < unat u" by (simp add: unat_gt_0)
  have "(unat (- u) + unat u) mod 2 ^ 64 = 0" using unat_word_ariths(1) [of "- u" u] by simp
  moreover have "unat (- u) + unat u < 2 * 2 ^ 64" using unat_bound [of u] unat_bound [of "- u"] by simp
  ultimately have "unat (- u) + unat u = 2 ^ 64" using \<open>0 < unat u\<close> by (auto simp: mod_eq_0_iff_dvd elim!: dvdE)
  then have "unat (- u) = 2 ^ 64 - unat u" by simp
  then have "unat ((- u) mod u) = (2 ^ 64 - unat u) mod unat u" by (simp add: unat_mod)
  also have "\<dots> = 2 ^ 64 mod unat u" using unat_bound [of u] by (subst le_mod_geq) simp_all
  finally show ?thesis .
qed

lemma threshold_half: "u \<noteq> 0 \<Longrightarrow> (- u) mod u < (2 ^ 63 :: u64)"
proof -
  assume u: "u \<noteq> 0"
  then have pos: "0 < unat u" by (simp add: unat_gt_0)
  have "(2 ^ 64 :: nat) mod unat u < 2 ^ 63"
  proof (cases "unat u \<le> 2 ^ 63")
    case True
    then show ?thesis using mod_less_divisor [OF pos, of "2 ^ 64"] by linarith
  next
    case False
    then have "(2 ^ 64 :: nat) mod unat u = 2 ^ 64 - unat u"
      using unat_bound [of u] by (subst le_mod_geq) (simp_all add: mod_less)
    then show ?thesis using False by simp
  qed
  then show ?thesis using threshold_unat [OF u] by (simp add: word_less_nat_alt)
qed

lemma bounded_loop_returns:
  assumes "2 ^ 63 \<le> drawn draw m g" and "t < 2 ^ 63" and "u \<noteq> 0" and "lively draw g"
  shows "\<exists>v g'. bounded_loop draw t u g = Some (v, g') \<and> v < u \<and> lively draw g'"
  using assms
proof (induction m arbitrary: g)
  case 0
  then have "t \<le> fst (draw g)" by (simp add: drawn_def)
  then show ?case using 0 lively_step [OF \<open>lively draw g\<close>]
    by (subst bounded_loop.simps) (auto simp: word_mod_less_divisor word_neq_0_conv split: prod.splits)
next
  case (Suc m)
  show ?case
  proof (cases "t \<le> fst (draw g)")
    case True
    then show ?thesis using Suc.prems lively_step [of draw g]
      by (subst bounded_loop.simps) (auto simp: word_mod_less_divisor word_neq_0_conv split: prod.splits)
  next
    case False
    then have "bounded_loop draw t u g = bounded_loop draw t u (snd (draw g))"
      by (subst bounded_loop.simps) (auto split: prod.splits)
    then show ?thesis using Suc lively_step [of draw g] by (simp add: drawn_Suc)
  qed
qed

lemma bounded_returns:
  assumes "lively draw g"
  shows "\<exists>v g'. bounded draw u g = Some (v, g') \<and> (u \<noteq> 0 \<longrightarrow> v < u) \<and> (u = 0 \<longrightarrow> v = 0) \<and> lively draw g'"
proof (cases "u = 0")
  case False
  obtain m where "2 ^ 63 \<le> drawn draw m g" using assms by (auto simp: lively_def)
  then show ?thesis using bounded_loop_returns [OF _ threshold_half False assms] False by (simp add: bounded_def)
qed (use assms in \<open>simp add: bounded_def\<close>)

section \<open>Computations that draw\<close>

type_synonym ('g, 'a) random_comp = "'g \<Rightarrow> (string + 'a \<times> 'g) option"

definition rreturn :: "'a \<Rightarrow> ('g, 'a) random_comp" where
  "rreturn a g = Some (Inr (a, g))"

definition rthrow :: "string \<Rightarrow> ('g, 'a) random_comp" where
  "rthrow message g = Some (Inl message)"

definition rdraw :: "('g \<Rightarrow> ('a \<times> 'g) option) \<Rightarrow> ('g, 'a) random_comp" where
  "rdraw m g = map_option Inr (m g)"

definition rbind :: "('g, 'a) random_comp \<Rightarrow> ('a \<Rightarrow> ('g, 'b) random_comp) \<Rightarrow> ('g, 'b) random_comp" where
  "rbind m f g = (case m g of None \<Rightarrow> None | Some (Inl e) \<Rightarrow> Some (Inl e) | Some (Inr (a, g')) \<Rightarrow> f a g')"

fun rmap :: "('x \<Rightarrow> ('g, 'a) random_comp) \<Rightarrow> 'x list \<Rightarrow> ('g, 'a list) random_comp" where
  "rmap f [] = rreturn []"
| "rmap f (x # xs) = rbind (f x) (\<lambda>y. rbind (rmap f xs) (\<lambda>ys. rreturn (y # ys)))"

text \<open>Total correctness: from every lively engine the computation ends, without an exception, with a
  value in \<open>Q\<close> and a lively engine.\<close>

definition returns :: "'g engine \<Rightarrow> ('g, 'a) random_comp \<Rightarrow> ('a \<Rightarrow> bool) \<Rightarrow> bool" where
  "returns draw m Q \<longleftrightarrow> (\<forall>g. lively draw g \<longrightarrow> (\<exists>a g'. m g = Some (Inr (a, g')) \<and> lively draw g' \<and> Q a))"

named_theorems random_intros \<open>rules for the random computations of the generator\<close>

lemma returns_return [random_intros]: "Q a \<Longrightarrow> returns draw (rreturn a) Q"
  by (auto simp: returns_def rreturn_def)

lemma returns_bind: "returns draw m P \<Longrightarrow> (\<And>a. P a \<Longrightarrow> returns draw (f a) Q) \<Longrightarrow> returns draw (rbind m f) Q"
  by (fastforce simp: returns_def rbind_def)

lemma returns_mono: "returns draw m P \<Longrightarrow> (\<And>a. P a \<Longrightarrow> Q a) \<Longrightarrow> returns draw m Q"
  by (fastforce simp: returns_def)

lemma returns_bounded: "returns draw (rdraw (bounded draw u)) (\<lambda>v. if u = 0 then v = 0 else v < u)"
  unfolding returns_def rdraw_def
proof (intro allI impI)
  fix g
  assume "lively draw g"
  from bounded_returns [OF this, of u] obtain v g' where "bounded draw u g = Some (v, g')" "u \<noteq> 0 \<longrightarrow> v < u"
      "u = 0 \<longrightarrow> v = 0" "lively draw g'"
    by blast
  then show "\<exists>a g'. map_option Inr (bounded draw u g) = Some (Inr (a, g')) \<and> lively draw g' \<and> (if u = 0 then a = 0 else a < u)"
    by auto
qed

lemma chance_returns: "lively draw g \<Longrightarrow> \<exists>b g'. chance draw p g = Some (b, g') \<and> lively draw g'"
  using bounded_returns [of draw g "ucast kProbabilityScale"] by (auto simp: chance_def)

lemma returns_chance [random_intros]: "returns draw (rdraw (chance draw p)) (\<lambda>_. True)"
  using chance_returns by (fastforce simp: returns_def rdraw_def)

lemma returns_rmap:
  assumes "\<And>x. x \<in> set xs \<Longrightarrow> returns draw (f x) (Q x)"
  shows "returns draw (rmap f xs) (list_all2 Q xs)"
  using assms
proof (induction xs)
  case Nil
  show ?case by (simp add: returns_return)
next
  case (Cons x xs)
  have "returns draw (f x) (Q x)" using Cons.prems by simp
  moreover have "returns draw (rmap f xs) (list_all2 Q xs)" using Cons by simp
  ultimately show ?case by (auto intro!: returns_return elim!: returns_bind)
qed

section \<open>No bias\<close>

lemma count_residues:
  fixes u r n :: nat
  assumes "r < u"
  shows "card {v. v < n * u \<and> v mod u = r} = n"
proof -
  have "bij_betw (\<lambda>k. k * u + r) {..<n} {v. v < n * u \<and> v mod u = r}"
  proof (rule bij_betw_imageI)
    show "inj_on (\<lambda>k. k * u + r) {..<n}" using assms by (auto simp: inj_on_def)
    show "(\<lambda>k. k * u + r) ` {..<n} = {v. v < n * u \<and> v mod u = r}"
    proof (intro subset_antisym subsetI)
      fix v
      assume "v \<in> (\<lambda>k. k * u + r) ` {..<n}"
      then obtain k where k: "k < n" "v = k * u + r" by auto
      then have "Suc k * u \<le> n * u" by (intro mult_le_mono1) simp
      with k assms show "v \<in> {v. v < n * u \<and> v mod u = r}" by simp
    next
      fix v
      assume v: "v \<in> {v. v < n * u \<and> v mod u = r}"
      then have "v = v div u * u + r" by (metis (mono_tags, lifting) div_mult_mod_eq mem_Collect_eq)
      moreover have "v div u < n" using v assms by (simp add: less_mult_imp_div_less)
      ultimately show "v \<in> (\<lambda>k. k * u + r) ` {..<n}" by blast
    qed
  qed
  then show ?thesis by (simp add: bij_betw_same_card [symmetric])
qed

lemma count_residues_from:
  fixes u r n t :: nat
  assumes "r < u" and "t < u" and "0 < n"
  shows "card {v. t \<le> v \<and> v < n * u + t \<and> v mod u = r} = n"
proof -
  define N where "N = n * u"
  have N: "u \<le> N" "\<And>k. (k + N) mod u = k mod u" using assms(3) by (simp_all add: N_def)
  have less: "(k - N) mod u = k mod u" if "N \<le> k" for k using that N(2) [of "k - N"] by simp
  have "bij_betw (\<lambda>k. if k < N then k else k - N) {v. t \<le> v \<and> v < N + t \<and> v mod u = r} {v. v < N \<and> v mod u = r}"
    by (rule bij_betw_byWitness [where f' = "\<lambda>k. if k < t then k + N else k"])
      (use N less assms(2) in \<open>auto simp del: mod_less\<close>)
  then show ?thesis using count_residues [OF assms(1), of n] by (simp add: bij_betw_same_card N_def)
qed

lemma card_words: "card {v::u64. P (unat v)} = card {k. k < 2 ^ 64 \<and> P k}"
proof -
  have "bij_betw unat {v::u64. P (unat v)} {k. k < 2 ^ 64 \<and> P k}"
  proof (rule bij_betw_imageI)
    show "inj_on unat {v::u64. P (unat v)}" by (simp add: inj_on_def word_unat_eq_iff)
    show "unat ` {v::u64. P (unat v)} = {k. k < 2 ^ 64 \<and> P k}"
    proof (intro subset_antisym subsetI)
      fix k
      assume "k \<in> {k. k < 2 ^ 64 \<and> P k}"
      then show "k \<in> unat ` {v::u64. P (unat v)}"
        by (intro image_eqI [where x = "of_nat k"]) (simp_all add: unat_of_nat_u64)
    qed (use unat_bound [where 'a = 64] in auto)
  qed
  then show ?thesis by (rule bij_betw_same_card)
qed

lemma accepted_residues:
  assumes "u \<noteq> 0" and "r < u"
  shows "card {v::u64. (- u) mod u \<le> v \<and> v mod u = r} = 2 ^ 64 div unat u"
proof -
  have u: "0 < unat u" using assms(1) by (simp add: unat_gt_0)
  let ?t = "2 ^ 64 mod unat u" and ?n = "2 ^ 64 div unat u"
  have n: "0 < ?n" using u unat_bound [of u] by (simp add: div_greater_zero_iff)
  have split: "?n * unat u + ?t = 2 ^ 64" by (rule div_mult_mod_eq)
  have "card {v::u64. (- u) mod u \<le> v \<and> v mod u = r} = card {v::u64. ?t \<le> unat v \<and> unat v mod unat u = unat r}"
    using threshold_unat [OF assms(1)] by (simp add: word_le_nat_alt word_unat_eq_iff unat_mod)
  also have "\<dots> = card {k. k < 2 ^ 64 \<and> ?t \<le> k \<and> k mod unat u = unat r}" by (rule card_words)
  also have "\<dots> = card {k. ?t \<le> k \<and> k < ?n * unat u + ?t \<and> k mod unat u = unat r}"
    unfolding split by (intro arg_cong [where f = card]) auto
  also have "\<dots> = ?n" using assms(2) u n by (intro count_residues_from) (simp_all add: word_less_nat_alt)
  finally show ?thesis .
qed

text \<open>An engine that reads its values from a list; its state is the position of the next one.\<close>

definition tape :: "u64 list \<Rightarrow> nat engine" where
  "tape vs k = (vs ! k, Suc k)"

lemma bounded_loop_advances:
  assumes "bounded_loop (tape vs) t u k = Some x"
  shows "k < snd x"
proof -
  have "draw = tape vs \<longrightarrow> k < snd x" if "bounded_loop draw t u k = Some x" for draw t u k x
  proof (rule bounded_loop.raw_induct [where P = "\<lambda>draw t u k x. draw = tape vs \<longrightarrow> k < snd x", OF _ that])
    fix loop and draw :: "nat engine" and t u :: u64 and k :: nat and y :: "u64 \<times> nat"
    assume IH: "\<And>draw t u k y. loop draw t u k = Some y \<Longrightarrow> draw = tape vs \<longrightarrow> k < snd y"
      and eq: "(case draw k of (v, k') \<Rightarrow> if t \<le> v then Some (v mod u, k') else loop draw t u k') = Some y"
    show "draw = tape vs \<longrightarrow> k < snd y"
    proof
      assume draw: "draw = tape vs"
      show "k < snd y"
      proof (cases "t \<le> vs ! k")
        case True
        then show ?thesis using eq by (auto simp: draw tape_def)
      next
        case False
        then have "loop (tape vs) t u (Suc k) = Some y" using eq by (simp add: draw tape_def)
        then show ?thesis using IH [of "tape vs" t u "Suc k" y] by simp
      qed
    qed
  qed
  with assms show ?thesis by blast
qed

text \<open>What must be on the tape for a draw to read all of it: rejected values, and an accepted one at the end.\<close>

lemma bounded_loop_reads_all:
  assumes "k < length vs"
  shows "bounded_loop (tape vs) t u k = Some (r, length vs) \<longleftrightarrow>
    (\<forall>v \<in> set (butlast (drop k vs)). v < t) \<and> t \<le> last vs \<and> last vs mod u = r"
  using assms
proof (induction "length vs - k" arbitrary: k)
  case (Suc d)
  have step: "bounded_loop (tape vs) t u k =
      (if t \<le> vs ! k then Some (vs ! k mod u, Suc k) else bounded_loop (tape vs) t u (Suc k))"
    by (subst bounded_loop.simps) (simp add: tape_def)
  have drop: "drop k vs = vs ! k # drop (Suc k) vs" using Suc.prems by (simp add: Cons_nth_drop_Suc)
  show ?case
  proof (cases "Suc k = length vs")
    case True
    then have "last vs = vs ! k" by (metis Suc_neq_Zero diff_Suc_1 last_conv_nth list.size(3))
    then show ?thesis using True bounded_loop_advances [of vs t u "Suc k" "(r, length vs)"] by (auto simp: step drop)
  next
    case False
    then have "Suc k < length vs" using Suc.prems by simp
    then have "bounded_loop (tape vs) t u (Suc k) = Some (r, length vs) \<longleftrightarrow>
        (\<forall>v \<in> set (butlast (drop (Suc k) vs)). v < t) \<and> t \<le> last vs \<and> last vs mod u = r"
      using Suc by (intro Suc.hyps(1)) simp_all
    then show ?thesis using False \<open>Suc k < length vs\<close> by (auto simp: step drop)
  qed
qed simp

lemma card_rejected: "u \<noteq> 0 \<Longrightarrow> card {v::u64. v < (- u) mod u} = 2 ^ 64 mod unat u"
proof -
  assume u: "u \<noteq> 0"
  have "card {v::u64. v < (- u) mod u} = card {k. k < 2 ^ 64 \<and> k < 2 ^ 64 mod unat u}"
    using card_words [of "\<lambda>k. k < 2 ^ 64 mod unat u"] threshold_unat [OF u] by (simp add: word_less_nat_alt)
  also have "{k. k < 2 ^ 64 \<and> k < 2 ^ 64 mod unat u} = {..<2 ^ 64 mod unat u}"
    using mod_less_eq_dividend [of "2 ^ 64" "unat u"] by (auto intro: less_le_trans)
  finally show ?thesis by simp
qed

lemma tapes_read:
  assumes "u \<noteq> 0"
  shows "{vs. length vs = Suc n \<and> bounded (tape vs) u 0 = Some (r, Suc n)} =
    (\<lambda>(xs, v). xs @ [v]) ` ({xs. set xs \<subseteq> {v. v < (- u) mod u} \<and> length xs = n} \<times> {v. (- u) mod u \<le> v \<and> v mod u = r})"
    (is "?read = ?image")
proof (intro set_eqI iffI)
  fix vs
  assume "vs \<in> ?read"
  then have "length vs = Suc n" "bounded_loop (tape vs) ((- u) mod u) u 0 = Some (r, length vs)"
    using assms by (simp_all add: bounded_def)
  then have "vs = (\<lambda>(xs, v). xs @ [v]) (butlast vs, last vs)" "(\<forall>v \<in> set (butlast vs). v < (- u) mod u) \<and> (- u) mod u \<le> last vs \<and> last vs mod u = r"
      "length (butlast vs) = n"
    using bounded_loop_reads_all [of 0 vs] append_butlast_last_id [of vs] by (cases "vs = []"; simp)+
  then show "vs \<in> ?image" by (intro image_eqI [of vs _ "(butlast vs, last vs)"]) auto
next
  fix vs
  assume "vs \<in> ?image"
  then show "vs \<in> ?read" using assms bounded_loop_reads_all [of 0 vs] by (auto simp: bounded_def)
qed

text \<open>
  C34: \<^verbatim>\<open>PortableRandom::bounded\<close> is unbiased and ends.  For every number \<open>n\<close> of draws, count the
  sequences of \<open>n\<close> engine values on which it takes exactly these draws and returns \<open>r\<close>: there are equally many for
  every \<open>r\<close> below the bound, namely those with \<open>n - 1\<close> of the \<open>2 ^ 64 mod u\<close> rejected values and one of
  \<open>2 ^ 64 div u\<close> accepted ones.  Fewer than half of all values are rejected, and on any engine that keeps producing
  large values it returns, with a result below the bound.
\<close>

theorem bounded_unbiased:
  assumes "u \<noteq> 0" and "r < u" and "0 < n" and "lively draw g"
  shows "card {vs. length vs = n \<and> bounded (tape vs) u 0 = Some (r, n)} = (2 ^ 64 mod unat u) ^ (n - 1) * (2 ^ 64 div unat u) \<and>
    2 ^ 64 mod unat u < 2 ^ 63 \<and> (\<exists>v g'. bounded draw u g = Some (v, g') \<and> v < u)"
proof -
  obtain m where n: "n = Suc m" using assms(3) by (cases n) auto
  have "inj_on (\<lambda>(xs, v). xs @ [v]) A" for A :: "(u64 list \<times> u64) set" by (auto simp: inj_on_def)
  then have "card {vs. length vs = n \<and> bounded (tape vs) u 0 = Some (r, n)} = (2 ^ 64 mod unat u) ^ m * (2 ^ 64 div unat u)"
    unfolding n tapes_read [OF assms(1)] by (subst card_image)
      (simp_all add: card_cartesian_product card_lists_length_eq card_rejected [OF assms(1)] accepted_residues [OF assms(1,2)])
  moreover have "2 ^ 64 mod unat u < 2 ^ 63"
    using threshold_half [OF assms(1)] threshold_unat [OF assms(1)] by (simp add: word_less_nat_alt)
  ultimately show ?thesis using bounded_returns [OF assms(4), of u] assms(1) by (auto simp: n)
qed

text \<open>An engine that counts upwards from the middle of the range.\<close>

definition counting_engine :: "u64 engine" where
  "counting_engine g = (2 ^ 63 + g mod 2 ^ 62, g + 1)"

lemma counting_engine_lively: "lively counting_engine g"
proof -
  have "2 ^ 63 \<le> fst (counting_engine h)" for h
  proof -
    have "h mod 2 ^ 62 < 2 ^ 62" by (simp add: word_mod_less_divisor)
    then have "unat (h mod 2 ^ 62) < 2 ^ 62" by (simp add: word_less_nat_alt)
    then have "unat (2 ^ 63 + h mod 2 ^ 62 :: u64) = 2 ^ 63 + unat (h mod 2 ^ 62)"
      by (subst unat_add_no_wrap) simp_all
    then show ?thesis by (simp add: counting_engine_def word_le_nat_alt)
  qed
  then show ?thesis by (auto simp: lively_def drawn_def)
qed

theorem bounded_unbiased_witness:
  "card {vs. length vs = 2 \<and> bounded (tape vs) 3 0 = Some (2, 2)} = 2 ^ 64 div 3 \<and> (\<exists>v g'. bounded counting_engine 3 5 = Some (v, g') \<and> v < 3)"
  using bounded_unbiased [OF _ _ _ counting_engine_lively, of 3 2 2 5] by simp

end
