(* ===== verification/TF_Generator.thy ===== *)
theory TF_Generator
  imports TF_Random TF_Double TF_Validation TF_Checksum
    "HOL-Library.Signed_Division" "HOL-Library.Product_Lexorder" "HOL-Library.List_Lexorder" "HOL-Library.Char_ord"
begin

text \<open>
  The synthetic workload generator of \<^verbatim>\<open>src/generator/workload_generator.cpp\<close>.

  Durations, jitter, drift and elapsed times are \<^verbatim>\<open>std::int64_t\<close> with arithmetic; they are integers
  here (\<open>sdiv\<close> and \<open>smod\<close> truncate as C++ does); \<open>TF_Generation\<close> shows
  that no intermediate result leaves the 64-bit range.  The unsigned computations of \<^verbatim>\<open>event_count\<close> and
  \<^verbatim>\<open>scheduled_time_ns\<close> are on words.  A thrown exception is \<open>Inl\<close> with its message.
\<close>

section \<open>Configuration\<close>

abbreviation kNanosecondsPerSecond :: int where "kNanosecondsPerSecond \<equiv> 1000000000"
abbreviation kBaseTimestampNs :: int where "kBaseTimestampNs \<equiv> 1700000000000000000"
abbreviation kMaxDurationNs :: int where "kMaxDurationNs \<equiv> 3600 * kNanosecondsPerSecond"
abbreviation kMaxSensorRateHz :: u32 where "kMaxSensorRateHz \<equiv> 10000"
abbreviation kMaxGeneratedEvents :: u64 where "kMaxGeneratedEvents \<equiv> 2000000"

record sensor_rates =
  accelerometer_hz :: u32
  gyroscope_hz :: u32
  camera_hz :: u32
  gps_hz :: u32
  temperature_hz :: u32
  fault_monitor_hz :: u32

record fault_injection =
  drop_per_million :: u32
  duplicate_per_million :: u32
  reorder_per_million :: u32

record generator_config =
  cfg_seed :: u64
  cfg_duration :: int
  cfg_max_jitter :: int
  cfg_clock_drift_ppm :: int
  cfg_rates :: sensor_rates
  cfg_faults :: fault_injection

definition default_generator_config :: generator_config where
  "default_generator_config = \<lparr>cfg_seed = 1, cfg_duration = kNanosecondsPerSecond, cfg_max_jitter = 0, cfg_clock_drift_ppm = 0,
     cfg_rates = \<lparr>accelerometer_hz = 50, gyroscope_hz = 50, camera_hz = 30, gps_hz = 10, temperature_hz = 1, fault_monitor_hz = 2\<rparr>,
     cfg_faults = \<lparr>drop_per_million = 0, duplicate_per_million = 0, reorder_per_million = 0\<rparr>\<rparr>"

definition validate_probability :: "u32 \<Rightarrow> string \<Rightarrow> string + unit" where
  "validate_probability probability name =
     (if probability > kProbabilityScale then Inl (name @ '' cannot exceed 1000000'') else Inr ())"

fun add_rates :: "u32 list \<Rightarrow> u64 \<Rightarrow> string + u64" where
  "add_rates [] combined_rate = Inr combined_rate"
| "add_rates (rate # rates) combined_rate =
     (if rate > kMaxSensorRateHz then Inl ''sensor rate cannot exceed 10000 Hz''
      else add_rates rates (combined_rate + ucast rate))"

definition rate_list :: "sensor_rates \<Rightarrow> u32 list" where
  "rate_list r = [accelerometer_hz r, gyroscope_hz r, camera_hz r, gps_hz r, temperature_hz r, fault_monitor_hz r]"

definition validate_config :: "generator_config \<Rightarrow> string + unit" where
  "validate_config config =
     (if cfg_duration config \<le> 0 \<or> cfg_duration config > kMaxDurationNs
      then Inl ''duration must be between one nanosecond and one hour''
      else if cfg_max_jitter config < 0 \<or> cfg_max_jitter config > kMaxDurationNs
      then Inl ''maximum jitter must be between zero and one hour''
      else if cfg_clock_drift_ppm config < - 1000000 \<or> cfg_clock_drift_ppm config > 1000000
      then Inl ''clock drift must be between -1000000 and 1000000 ppm''
      else case validate_probability (drop_per_million (cfg_faults config)) ''drop probability'' of Inl e \<Rightarrow> Inl e | Inr _ \<Rightarrow>
        case validate_probability (duplicate_per_million (cfg_faults config)) ''duplicate probability'' of Inl e \<Rightarrow> Inl e | Inr _ \<Rightarrow>
        case validate_probability (reorder_per_million (cfg_faults config)) ''reorder probability'' of Inl e \<Rightarrow> Inl e | Inr _ \<Rightarrow>
        case add_rates (rate_list (cfg_rates config)) 0 of Inl e \<Rightarrow> Inl e | Inr combined_rate \<Rightarrow>
          let rounded_duration_seconds = (of_int (cfg_duration config sdiv kNanosecondsPerSecond) :: u64) + 1
          in if combined_rate * rounded_duration_seconds > kMaxGeneratedEvents
             then Inl ''configuration would generate more than 2000000 events'' else Inr ())"

section \<open>Times\<close>

definition event_count :: "int \<Rightarrow> u32 \<Rightarrow> u64" where
  "event_count duration_ns rate_hz =
     (if rate_hz = 0 then 0
      else let whole_seconds = of_int (duration_ns sdiv kNanosecondsPerSecond) :: u64;
               remaining_ns = of_int (duration_ns smod kNanosecondsPerSecond) :: u64
           in whole_seconds * ucast rate_hz + (remaining_ns * ucast rate_hz) div of_int kNanosecondsPerSecond)"

definition scheduled_time_ns :: "u64 \<Rightarrow> u32 \<Rightarrow> int" where
  "scheduled_time_ns index rate_hz =
     (let whole_seconds = index div ucast rate_hz;
          fractional_index = index mod ucast rate_hz
      in sint (whole_seconds * of_int kNanosecondsPerSecond +
               (fractional_index * of_int kNanosecondsPerSecond) div ucast rate_hz))"

definition apply_clock_drift :: "int \<Rightarrow> int \<Rightarrow> int" where
  "apply_clock_drift elapsed_ns drift_ppm =
     (let whole_millions = elapsed_ns sdiv 1000000; remainder = elapsed_ns smod 1000000
      in elapsed_ns + whole_millions * drift_ppm + (remainder * drift_ppm) sdiv 1000000)"

definition sample_jitter :: "'g engine \<Rightarrow> int \<Rightarrow> ('g, int) random_comp" where
  "sample_jitter draw max_jitter_ns =
     (if max_jitter_ns = 0 then rreturn 0
      else if max_jitter_ns > (2 ^ 63 - 1 - 1) sdiv 2 then rthrow ''maximum jitter is too large''
      else rbind (rdraw (bounded draw (of_int (max_jitter_ns * 2 + 1)))) (\<lambda>v. rreturn (sint v - max_jitter_ns)))"

section \<open>Events\<close>

definition base_event :: "'g engine \<Rightarrow> string \<Rightarrow> u64 \<Rightarrow> int \<Rightarrow> generator_config \<Rightarrow> ('g, telemetry_event) random_comp" where
  "base_event draw producer sequence elapsed_ns config =
     rbind (sample_jitter draw (cfg_max_jitter config)) (\<lambda>jitter.
       rreturn (empty_event\<lparr>schema_version := kTelemetrySchemaVersion, producer_id := producer, sequence_number := sequence,
         source_timestamp_ns := of_int (kBaseTimestampNs + apply_clock_drift elapsed_ns (cfg_clock_drift_ppm config) + jitter),
         source_clock := CLOCK_DOMAIN_UTC\<rparr>))"

text \<open>\<open>populate\<close> is the lambda that fills in the payload of one kind of sensor.\<close>

definition periodic_event ::
  "'g engine \<Rightarrow> string \<Rightarrow> u32 \<Rightarrow> generator_config \<Rightarrow> (u64 \<Rightarrow> ('g, event_payload) random_comp) \<Rightarrow> nat \<Rightarrow> ('g, telemetry_event) random_comp" where
  "periodic_event draw producer rate_hz config populate i =
     (let sequence = of_nat i :: u64
      in rbind (base_event draw producer sequence (scheduled_time_ns sequence rate_hz) config) (\<lambda>event.
         rbind (populate sequence) (\<lambda>payload. rreturn (event\<lparr>ev_payload := payload\<rparr>))))"

definition append_periodic ::
  "'g engine \<Rightarrow> string \<Rightarrow> u32 \<Rightarrow> generator_config \<Rightarrow> (u64 \<Rightarrow> ('g, event_payload) random_comp) \<Rightarrow> ('g, telemetry_event list) random_comp" where
  "append_periodic draw producer rate_hz config populate =
     rmap (periodic_event draw producer rate_hz config populate) [0..<unat (event_count (cfg_duration config) rate_hz)]"

fun ControllerStatus_State_Name :: "int \<Rightarrow> string" where
  "ControllerStatus_State_Name n =
     (if n = STATE_UNSPECIFIED then ''STATE_UNSPECIFIED'' else if n = STATE_INITIALIZING then ''STATE_INITIALIZING''
      else if n = STATE_READY then ''STATE_READY'' else if n = STATE_DEGRADED then ''STATE_DEGRADED''
      else if n = STATE_STOPPED then ''STATE_STOPPED'' else [])"

definition controller_states :: "'g engine \<Rightarrow> int \<Rightarrow> ('g, (int \<times> int) list) random_comp" where
  "controller_states draw duration_ns =
     (let eighth = of_int (max (duration_ns sdiv 8) 1) :: u64
      in rbind (rdraw (bounded draw eighth)) (\<lambda>ready.
         rbind (rdraw (chance draw 500000)) (\<lambda>degraded.
         rbind (if degraded then rbind (rdraw (bounded draw eighth)) (\<lambda>v. rreturn [(duration_ns * 5 sdiv 8 + sint v, STATE_DEGRADED)])
                else rreturn []) (\<lambda>middle.
         rreturn ([(0, STATE_INITIALIZING), (duration_ns sdiv 4 + sint ready, STATE_READY)] @ middle @
                  [(duration_ns - 1, STATE_STOPPED)])))))"

definition controller_event :: "'g engine \<Rightarrow> generator_config \<Rightarrow> nat \<times> int \<times> int \<Rightarrow> ('g, telemetry_event) random_comp" where
  "controller_event draw config x =
     (case x of (i, elapsed_ns, state) \<Rightarrow>
        rbind (base_event draw ''sim-controller'' (of_nat i) elapsed_ns config) (\<lambda>event.
          rreturn (event\<lparr>ev_payload := ControllerStatus \<lparr>cs_state = state, cs_detail = ControllerStatus_State_Name state\<rparr>\<rparr>)))"

definition append_controller_events :: "'g engine \<Rightarrow> generator_config \<Rightarrow> ('g, telemetry_event list) random_comp" where
  "append_controller_events draw config =
     rbind (controller_states draw (cfg_duration config)) (\<lambda>states. rmap (controller_event draw config) (enumerate 0 states))"

definition fault_message :: "int \<Rightarrow> string" where
  "fault_message severity =
     (if severity = SEVERITY_WARNING then ''synthetic threshold warning''
      else if severity = SEVERITY_ERROR then ''synthetic sensor error''
      else if severity = SEVERITY_CRITICAL then ''synthetic critical fault''
      else ''synthetic unspecified fault'')"

text \<open>The payloads; \<open>n\<close> is the sequence number.\<close>

definition accelerometer_payload :: "u64 \<Rightarrow> event_payload" where
  "accelerometer_payload sequence = (let n = int (unat sequence) in Accelerometer
     \<lparr>vec_x = f64_dyadic (n mod 32 - 16) 4, vec_y = f64_dyadic (int (unat (sequence + 8)) mod 32 - 16) 4,
      vec_z = f64_dyadic (1256 + n mod 8) 7\<rparr>)"

definition gyroscope_payload :: "u64 \<Rightarrow> event_payload" where
  "gyroscope_payload sequence = (let n = int (unat sequence) in Gyroscope
     \<lparr>vec_x = f64_dyadic (n mod 16) 8, vec_y = f64_neg (f64_dyadic (n mod 8) 8), vec_z = f64_dyadic (n mod 4) 7\<rparr>)"

definition camera_payload :: "u64 \<Rightarrow> event_payload" where
  "camera_payload sequence = Camera \<lparr>frame_number = sequence, width_pixels = 1920, height_pixels = 1080,
     exposure_time_ns = 8000000 + (sequence mod 4) * 250000\<rparr>"

definition gps_payload :: "u64 \<Rightarrow> event_payload" where
  "gps_payload sequence = (let n = int (unat sequence) in Gps
     \<lparr>latitude_degrees = f64_dyadic (1941504 + n) 16, longitude_degrees = f64_dyadic (n - 5398528) 16,
      horizontal_accuracy_meters = f64_dyadic (12 + n mod 4) 2, is_mocked = False\<rparr>)"

definition temperature_payload :: "u64 \<Rightarrow> event_payload" where
  "temperature_payload sequence = Temperature \<lparr>degrees_celsius = f64_dyadic (640 + int (unat sequence) mod 16) 4\<rparr>"

definition fault_payload :: "'g engine \<Rightarrow> u64 \<Rightarrow> ('g, event_payload) random_comp" where
  "fault_payload draw sequence =
     rbind (rdraw (bounded draw 100)) (\<lambda>roll.
       let severity = (if roll < 70 then SEVERITY_WARNING else if roll < 95 then SEVERITY_ERROR else SEVERITY_CRITICAL)
       in rreturn (Fault \<lparr>fe_severity = severity, fe_code = ucast (1000 + sequence), fe_message = fault_message severity\<rparr>))"

definition base_events :: "'g engine \<Rightarrow> generator_config \<Rightarrow> ('g, telemetry_event list) random_comp" where
  "base_events draw config =
     (let periodic = (\<lambda>producer rate populate. append_periodic draw producer rate config populate); rates = cfg_rates config
      in rbind (periodic ''sim-accelerometer'' (accelerometer_hz rates) (rreturn \<circ> accelerometer_payload)) (\<lambda>e1.
         rbind (periodic ''sim-gyroscope'' (gyroscope_hz rates) (rreturn \<circ> gyroscope_payload)) (\<lambda>e2.
         rbind (periodic ''sim-camera'' (camera_hz rates) (rreturn \<circ> camera_payload)) (\<lambda>e3.
         rbind (periodic ''sim-gps'' (gps_hz rates) (rreturn \<circ> gps_payload)) (\<lambda>e4.
         rbind (periodic ''sim-temperature'' (temperature_hz rates) (rreturn \<circ> temperature_payload)) (\<lambda>e5.
         rbind (periodic ''sim-fault'' (fault_monitor_hz rates) (fault_payload draw)) (\<lambda>e6.
         rbind (append_controller_events draw config) (\<lambda>e7.
         rreturn (e1 @ e2 @ e3 @ e4 @ e5 @ e6 @ e7)))))))))"

text \<open>The order of \<^verbatim>\<open>std::sort\<close>: by time, producer and sequence number.\<close>

definition event_key :: "telemetry_event \<Rightarrow> int \<times> string \<times> nat" where
  "event_key e = (sint (source_timestamp_ns e), producer_id e, unat (sequence_number e))"

section \<open>Fault injection\<close>

record generation_stats =
  generated_events :: u64
  dropped_events :: u64
  duplicated_events :: u64
  reordered_pairs :: u64

record generated_workload =
  wl_events :: "telemetry_event list"
  wl_stats :: generation_stats
  wl_hash :: u64

fun inject_faults :: "'g engine \<Rightarrow> fault_injection \<Rightarrow> telemetry_event list \<Rightarrow> generation_stats \<Rightarrow>
    ('g, telemetry_event list \<times> generation_stats) random_comp" where
  "inject_faults draw faults [] stats = rreturn ([], stats)"
| "inject_faults draw faults (event # events) stats =
     rbind (rdraw (chance draw (drop_per_million faults))) (\<lambda>dropped.
       if dropped then inject_faults draw faults events (stats\<lparr>dropped_events := dropped_events stats + 1\<rparr>)
       else rbind (rdraw (chance draw (duplicate_per_million faults))) (\<lambda>duplicated.
         rbind (inject_faults draw faults events
             (if duplicated then stats\<lparr>duplicated_events := duplicated_events stats + 1\<rparr> else stats)) (\<lambda>(rest, stats).
           rreturn ((if duplicated then [event, event] else [event]) @ rest, stats))))"

fun reorder :: "'g engine \<Rightarrow> fault_injection \<Rightarrow> telemetry_event list \<Rightarrow> generation_stats \<Rightarrow>
    ('g, telemetry_event list \<times> generation_stats) random_comp" where
  "reorder draw faults (a # b # events) stats =
     rbind (rdraw (chance draw (reorder_per_million faults))) (\<lambda>swapped.
       if swapped
       then rbind (reorder draw faults events (stats\<lparr>reordered_pairs := reordered_pairs stats + 1\<rparr>)) (\<lambda>(rest, stats).
              rreturn (b # a # rest, stats))
       else rbind (reorder draw faults (b # events) stats) (\<lambda>(rest, stats). rreturn (a # rest, stats)))"
| "reorder draw faults events stats = rreturn (events, stats)"

text \<open>The hash of \<^verbatim>\<open>stable_event_hash\<close>: sizes as eight bytes, then the encoded event.\<close>

definition hash_size :: "u64 \<Rightarrow> u64 \<Rightarrow> u64" where
  "hash_size hash n = foldl (\<lambda>h k. hash_byte h (ucast (drop_bit (8 * k) n AND 0xFF))) hash [0..<8]"

fun stable_event_hash :: "(telemetry_event \<Rightarrow> bytes option) \<Rightarrow> telemetry_event list \<Rightarrow> u64 \<Rightarrow> string + u64" where
  "stable_event_hash serialize [] hash = Inr hash"
| "stable_event_hash serialize (event # events) hash =
     (case serialize event of
        None \<Rightarrow> Inl ''failed to serialize generated event''
      | Some encoded \<Rightarrow> stable_event_hash serialize events (foldl hash_byte (hash_size hash (of_nat (length encoded))) encoded))"

definition generate :: "'g engine \<Rightarrow> (telemetry_event \<Rightarrow> bytes option) \<Rightarrow> generator_config \<Rightarrow> ('g, generated_workload) random_comp" where
  "generate draw serialize config =
     rbind (base_events draw config) (\<lambda>events.
       let events = sort_key event_key events;
           stats = \<lparr>generated_events = of_nat (length events), dropped_events = 0, duplicated_events = 0, reordered_pairs = 0\<rparr>
       in rbind (inject_faults draw (cfg_faults config) events stats) (\<lambda>(events, stats).
          rbind (reorder draw (cfg_faults config) events stats) (\<lambda>(events, stats).
            case stable_event_hash serialize events kFnvOffsetBasis of
              Inl e \<Rightarrow> rthrow e
            | Inr hash \<Rightarrow> rreturn \<lparr>wl_events = events, wl_stats = stats, wl_hash = hash\<rparr>)))"

text \<open>\<^verbatim>\<open>WorkloadGenerator\<close>: the constructor checks the configuration, \<^verbatim>\<open>generate\<close> seeds the engine, which
  is given by its step \<open>draw\<close> and its initial state for a seed; the code uses \<open>mt19937_64\<close>.\<close>

definition generate_workload ::
  "'g engine \<Rightarrow> (u64 \<Rightarrow> 'g) \<Rightarrow> (telemetry_event \<Rightarrow> bytes option) \<Rightarrow> generator_config \<Rightarrow> (string + generated_workload) option" where
  "generate_workload draw init serialize config =
     (case validate_config config of
        Inl e \<Rightarrow> Some (Inl e)
      | Inr _ \<Rightarrow> map_option (map_sum id fst) (generate draw serialize config (init (cfg_seed config))))"

end
