(* ===== verification/TF_Faults.thy ===== *)
theory TF_Faults
  imports TF_Generator "HOL-Library.Sublist" "HOL-Library.Multiset"
begin

text \<open>
  Fault injection of the workload generator.  \<open>injected\<close> and \<open>reordered\<close> say what the two loops of
  \<^verbatim>\<open>generate\<close> may do to the events: how often each event is sent, which adjacent pairs change places, and
  the counters that go with it.
\<close>

section \<open>Draws\<close>

lemma returns_chance_certain:
  "returns draw (rdraw (chance draw p)) (\<lambda>b. (p = 0 \<longrightarrow> \<not> b) \<and> (kProbabilityScale \<le> p \<longrightarrow> b))"
proof -
  have "\<exists>b g'. chance draw p g = Some (b, g') \<and> lively draw g' \<and> (p = 0 \<longrightarrow> \<not> b) \<and> (kProbabilityScale \<le> p \<longrightarrow> b)"
    if "lively draw g" for g
  proof -
    have "(v :: u64) < ucast p" if "kProbabilityScale \<le> p" "v < ucast kProbabilityScale" for v
      using that by (simp add: word_less_nat_alt word_le_nat_alt unat_ucast_u32_u64)
    then show ?thesis using bounded_returns [OF \<open>lively draw g\<close>, of "ucast kProbabilityScale"] by (fastforce simp: chance_def)
  qed
  then show ?thesis by (fastforce simp: returns_def rdraw_def)
qed

section \<open>Drops and duplicates\<close>

text \<open>Every event is sent as often as the list says.\<close>

fun copies :: "nat list \<Rightarrow> 'a list \<Rightarrow> 'a list" where
  "copies (n # ns) (x # xs) = replicate n x @ copies ns xs"
| "copies ns xs = []"

lemma set_copies: "set (copies ns xs) \<subseteq> set xs"
  by (induction ns xs rule: copies.induct) (auto split: if_splits)

lemma copies_subseq: "set ns \<subseteq> {0, 1} \<Longrightarrow> subseq (copies ns xs) xs"
  by (induction ns xs rule: copies.induct) auto

lemma copies_all: "set ns \<subseteq> {1} \<Longrightarrow> length ns = length xs \<Longrightarrow> copies ns xs = xs"
  by (induction ns xs rule: copies.induct) auto

lemma length_copies:
  "set ns \<subseteq> {0, 1, 2} \<Longrightarrow> length ns = length xs \<Longrightarrow>
   length (copies ns xs) + count_list ns 0 = length xs + count_list ns 2 \<and> count_list ns 0 + count_list ns 2 \<le> length xs"
  by (induction ns xs rule: copies.induct) auto

definition injected :: "fault_injection \<Rightarrow> telemetry_event list \<Rightarrow> generation_stats \<Rightarrow> telemetry_event list \<times> generation_stats \<Rightarrow> bool" where
  "injected f es st x \<longleftrightarrow> (\<exists>ns. length ns = length es \<and> set ns \<subseteq> {0, 1, 2} \<and> fst x = copies ns es \<and>
     snd x = st\<lparr>dropped_events := dropped_events st + of_nat (count_list ns 0),
       duplicated_events := duplicated_events st + of_nat (count_list ns 2)\<rparr> \<and>
     (drop_per_million f = 0 \<longrightarrow> 0 \<notin> set ns) \<and> (kProbabilityScale \<le> drop_per_million f \<longrightarrow> set ns \<subseteq> {0}) \<and>
     (duplicate_per_million f = 0 \<longrightarrow> 2 \<notin> set ns) \<and> (kProbabilityScale \<le> duplicate_per_million f \<longrightarrow> 1 \<notin> set ns))"

lemma injected_drop:
  "injected f es (st\<lparr>dropped_events := dropped_events st + 1\<rparr>) x \<Longrightarrow> drop_per_million f \<noteq> 0 \<Longrightarrow> injected f (e # es) st x"
  unfolding injected_def by (elim exE, rename_tac ns, rule_tac x = "0 # ns" in exI) (auto simp: add_ac)

lemma injected_keep:
  "injected f es st x \<Longrightarrow> \<not> kProbabilityScale \<le> drop_per_million f \<Longrightarrow> \<not> kProbabilityScale \<le> duplicate_per_million f \<Longrightarrow>
   injected f (e # es) st (e # fst x, snd x)"
  unfolding injected_def by (elim exE, rename_tac ns, rule_tac x = "1 # ns" in exI) auto

lemma injected_duplicate:
  "injected f es (st\<lparr>duplicated_events := duplicated_events st + 1\<rparr>) x \<Longrightarrow> \<not> kProbabilityScale \<le> drop_per_million f \<Longrightarrow>
   duplicate_per_million f \<noteq> 0 \<Longrightarrow> injected f (e # es) st (e # e # fst x, snd x)"
  unfolding injected_def
  by (elim exE, rename_tac ns, rule_tac x = "2 # ns" in exI) (auto simp: add_ac numeral_2_eq_2)

lemma returns_inject_faults: "returns draw (inject_faults draw f es st) (injected f es st)"
proof (induction es arbitrary: st)
  case Nil
  show ?case by (auto intro!: returns_return simp: injected_def)
next
  case (Cons e es)
  have kept: "returns draw (rbind (rdraw (chance draw (duplicate_per_million f))) (\<lambda>duplicated.
      rbind (inject_faults draw f es (if duplicated then st\<lparr>duplicated_events := duplicated_events st + 1\<rparr> else st))
        (\<lambda>(rest, stats). rreturn ((if duplicated then [e, e] else [e]) @ rest, stats)))) (injected f (e # es) st)"
    if k: "\<not> kProbabilityScale \<le> drop_per_million f"
  proof (rule returns_bind [OF returns_chance_certain])
    fix duplicated
    assume d: "(duplicate_per_million f = 0 \<longrightarrow> \<not> duplicated) \<and> (kProbabilityScale \<le> duplicate_per_million f \<longrightarrow> duplicated)"
    show "returns draw (rbind (inject_faults draw f es (if duplicated then st\<lparr>duplicated_events := duplicated_events st + 1\<rparr> else st))
        (\<lambda>(rest, stats). rreturn ((if duplicated then [e, e] else [e]) @ rest, stats))) (injected f (e # es) st)"
    proof (cases duplicated)
      case True
      then show ?thesis using d
        by (auto intro!: returns_bind [OF Cons.IH] returns_return dest: injected_duplicate [OF _ k])
    next
      case False
      then show ?thesis using d
        by (auto intro!: returns_bind [OF Cons.IH] returns_return dest: injected_keep [OF _ k])
    qed
  qed
  show ?case unfolding inject_faults.simps
  proof (rule returns_bind [OF returns_chance_certain])
    fix dropped
    assume d: "(drop_per_million f = 0 \<longrightarrow> \<not> dropped) \<and> (kProbabilityScale \<le> drop_per_million f \<longrightarrow> dropped)"
    then show "returns draw (if dropped then inject_faults draw f es (st\<lparr>dropped_events := dropped_events st + 1\<rparr>)
       else rbind (rdraw (chance draw (duplicate_per_million f))) (\<lambda>duplicated.
         rbind (inject_faults draw f es
             (if duplicated then st\<lparr>duplicated_events := duplicated_events st + 1\<rparr> else st)) (\<lambda>(rest, stats).
           rreturn ((if duplicated then [e, e] else [e]) @ rest, stats)))) (injected f (e # es) st)"
      using kept by (cases dropped) (auto intro: returns_mono [OF Cons.IH injected_drop])
  qed
qed

section \<open>Reordering\<close>

text \<open>\<open>k\<close> disjoint pairs of neighbours change places.\<close>

inductive swapped :: "nat \<Rightarrow> 'a list \<Rightarrow> 'a list \<Rightarrow> bool" where
  swapped_Nil: "swapped 0 [] []"
| swapped_keep: "swapped k xs ys \<Longrightarrow> swapped k (x # xs) (x # ys)"
| swapped_pair: "swapped k xs ys \<Longrightarrow> swapped (Suc k) (x # y # xs) (y # x # ys)"

lemma swapped_mset: "swapped k xs ys \<Longrightarrow> mset ys = mset xs \<and> 2 * k \<le> length xs"
  by (induction rule: swapped.induct) auto

lemma swapped_zero: "swapped 0 xs ys \<Longrightarrow> ys = xs"
  by (induction "0::nat" xs ys rule: swapped.induct) auto

definition reordered :: "fault_injection \<Rightarrow> telemetry_event list \<Rightarrow> generation_stats \<Rightarrow> telemetry_event list \<times> generation_stats \<Rightarrow> bool" where
  "reordered f es st x \<longleftrightarrow> (\<exists>k. swapped k es (fst x) \<and> snd x = st\<lparr>reordered_pairs := reordered_pairs st + of_nat k\<rparr> \<and>
     (reorder_per_million f = 0 \<longrightarrow> k = 0) \<and> (kProbabilityScale \<le> reorder_per_million f \<longrightarrow> k = length es div 2))"

lemma reordered_swap:
  "reordered f es (st\<lparr>reordered_pairs := reordered_pairs st + 1\<rparr>) x \<Longrightarrow> reorder_per_million f \<noteq> 0 \<Longrightarrow>
   reordered f (a # b # es) st (b # a # fst x, snd x)"
  unfolding reordered_def
  by (elim exE, rename_tac k, rule_tac x = "Suc k" in exI) (auto simp: add_ac intro: swapped_pair)

lemma reordered_keep:
  "reordered f (b # es) st x \<Longrightarrow> \<not> kProbabilityScale \<le> reorder_per_million f \<Longrightarrow> reordered f (a # b # es) st (a # fst x, snd x)"
  unfolding reordered_def by (elim exE, rename_tac k, rule_tac x = k in exI) (auto intro: swapped_keep)

lemma reordered_short: "length es < 2 \<Longrightarrow> reordered f es st (es, st)"
  by (cases es) (auto simp: reordered_def intro!: exI [of _ "0::nat"] swapped.intros)

lemma returns_reorder: "returns draw (reorder draw f es st) (reordered f es st)"
proof (induction draw f es st rule: reorder.induct)
  case (1 draw f a b es st)
  show ?case unfolding reorder.simps
  proof (rule returns_bind [OF returns_chance_certain])
    fix swapped
    assume s: "(reorder_per_million f = 0 \<longrightarrow> \<not> swapped) \<and> (kProbabilityScale \<le> reorder_per_million f \<longrightarrow> swapped)"
    show "returns draw (if swapped
       then rbind (reorder draw f es (st\<lparr>reordered_pairs := reordered_pairs st + 1\<rparr>)) (\<lambda>(rest, stats). rreturn (b # a # rest, stats))
       else rbind (reorder draw f (b # es) st) (\<lambda>(rest, stats). rreturn (a # rest, stats))) (reordered f (a # b # es) st)"
    proof (cases swapped)
      case True
      then show ?thesis using s
        by (auto intro!: returns_bind [OF "1.IH"(1)] returns_return dest: reordered_swap)
    next
      case False
      then show ?thesis using s
        by (auto intro!: returns_bind [OF "1.IH"(2)] returns_return dest: reordered_keep)
    qed
  qed
qed (auto intro!: returns_return reordered_short)

end
