(* ===== verification/TF_Generation.thy ===== *)
theory TF_Generation
  imports TF_Faults
begin

text \<open>
  What the workload generator produces: the arithmetic of its schedule, that generation always
  returns, that every event it makes passes the collector's validator, and that a workload without
  fault injection and jitter makes one acceptable stream per producer.
\<close>

section \<open>A valid configuration\<close>

lemma sdiv_nonneg: "0 \<le> a \<Longrightarrow> 0 < b \<Longrightarrow> a sdiv b = a div (b::int)"
  by (cases "a = 0") (simp_all add: signed_divide_int_def)

lemma smod_nonneg: "0 \<le> a \<Longrightarrow> 0 < b \<Longrightarrow> a smod b = a mod (b::int)"
  by (cases "a = 0") (simp_all add: signed_modulo_int_def)

lemma unat_mult_no_wrap: "unat (a::'a::len word) * unat b < 2 ^ LENGTH('a) \<Longrightarrow> unat (a * b) = unat a * unat b"
  by (simp add: unat_word_ariths)

lemma sint_small: "unat w < 2 ^ 63 \<Longrightarrow> sint (w::u64) = int (unat w)"
proof -
  assume "unat w < 2 ^ 63"
  then have "int (unat w) < int (2 ^ 63)" by (simp only: of_nat_less_iff)
  then have "int (unat w) < 2 ^ 63" by simp
  moreover have "- (2 ^ 63) \<le> int (unat w)" by (rule order_trans [of _ 0]) simp_all
  moreover have "LENGTH(64) - Suc 0 = 63" by simp
  ultimately show ?thesis unfolding sint_uint uint_nat by (simp only: signed_take_bit_int_eq_self)
qed

lemma sint_of_int_small: "- (2 ^ 63) \<le> i \<Longrightarrow> i < 2 ^ 63 \<Longrightarrow> sint (of_int i :: u64) = i"
  by (simp add: sint_sbintrunc' signed_take_bit_int_eq_self)

lemma word_of_int_nat_div: "0 \<le> d \<Longrightarrow> word_of_int (d div 1000000000) = (of_nat (nat d div 1000000000) :: u64)"
proof -
  assume "0 \<le> d"
  then have "d div 1000000000 = int (nat d div 1000000000)" by (simp add: zdiv_int)
  then show ?thesis by (simp only: of_int_of_nat_eq)
qed

lemma word_of_int_nat_mod: "0 \<le> d \<Longrightarrow> word_of_int (d mod 1000000000) = (of_nat (nat d mod 1000000000) :: u64)"
proof -
  assume "0 \<le> d"
  then have "d mod 1000000000 = int (nat d mod 1000000000)" by (simp add: zmod_int)
  then show ?thesis by (simp only: of_int_of_nat_eq)
qed

lemma sdiv_minus: "0 \<le> a \<Longrightarrow> 0 < b \<Longrightarrow> (- a) sdiv b = - (a div (b::int))"
  by (cases "a = 0") (simp_all add: signed_divide_int_def)

lemma split_scaled_div: "r \<noteq> 0 \<Longrightarrow> i div r * s + i mod r * s div r = i * s div (r::'a::euclidean_semiring_cancel)"
proof -
  assume r: "r \<noteq> 0"
  have "i * s = i mod r * s + i div r * s * r"
    by (metis (no_types, lifting) distrib_right div_mult_mod_eq add.commute mult.assoc mult.commute)
  then show ?thesis using r by simp
qed

lemma add_rates_Inr:
  assumes "add_rates rs c = Inr tot" and "unat c + 10000 * length rs < 2 ^ 64"
  shows "(\<forall>r \<in> set rs. unat r \<le> 10000) \<and> unat tot = unat c + sum_list (map unat rs)"
  using assms
proof (induction rs arbitrary: c)
  case (Cons r rs)
  have r: "unat r \<le> 10000" and rest: "add_rates rs (c + ucast r) = Inr tot"
    using Cons.prems(1) by (auto simp: word_less_nat_alt split: if_splits)
  have "unat (c + ucast r) = unat c + unat r" using r Cons.prems(2) by (subst unat_add_no_wrap) simp_all
  then show ?case using Cons.IH [OF rest] Cons.prems(2) r by simp
qed simp

definition total_rate :: "generator_config \<Rightarrow> nat" where
  "total_rate config = sum_list (map unat (rate_list (cfg_rates config)))"

text \<open>The product of the last check does not wrap around.\<close>

lemma event_limit:
  assumes "add_rates (rate_list (cfg_rates config)) 0 = Inr tot" and "0 < cfg_duration config" and "cfg_duration config \<le> kMaxDurationNs"
  shows "tot * (of_int (cfg_duration config sdiv kNanosecondsPerSecond) + 1) > kMaxGeneratedEvents \<longleftrightarrow>
      total_rate config * (nat (cfg_duration config) div 10 ^ 9 + 1) > 2000000"
    and "\<forall>r \<in> set (rate_list (cfg_rates config)). unat r \<le> 10000"
proof -
  from add_rates_Inr [OF assms(1)] have r: "\<forall>r \<in> set (rate_list (cfg_rates config)). unat r \<le> 10000"
      "unat tot = total_rate config"
    by (simp_all add: rate_list_def total_rate_def)
  then show "\<forall>r \<in> set (rate_list (cfg_rates config)). unat r \<le> 10000" by simp
  have "total_rate config \<le> 60000" using r(1) by (simp add: total_rate_def rate_list_def)
  let ?s = "nat (cfg_duration config) div 10 ^ 9"
  have s: "?s \<le> 3600" using assms(3) by (simp add: nat_le_iff less_Suc_eq_le [symmetric] div_less_iff_less_mult)
  have "of_int (cfg_duration config sdiv kNanosecondsPerSecond) + 1 = (of_nat (?s + 1) :: u64)"
    using assms(2) by (simp add: sdiv_nonneg word_of_int_nat_div)
  moreover have "unat (of_nat (?s + 1) :: u64) = ?s + 1" using s by (intro unat_of_nat_u64) simp
  moreover have "total_rate config * (?s + 1) \<le> 60000 * 3601" using \<open>total_rate config \<le> 60000\<close> s by (intro mult_le_mono) simp_all
  ultimately show "tot * (of_int (cfg_duration config sdiv kNanosecondsPerSecond) + 1) > kMaxGeneratedEvents \<longleftrightarrow>
      total_rate config * (?s + 1) > 2000000"
    using r(2) unat_mult_no_wrap [of tot "of_nat (?s + 1)"] by (simp add: word_less_nat_alt add.commute [of 1])
qed

lemma valid_config:
  assumes "validate_config config = Inr u"
  shows "0 < cfg_duration config" "cfg_duration config \<le> kMaxDurationNs" "0 \<le> cfg_max_jitter config"
    "cfg_max_jitter config \<le> kMaxDurationNs" "\<bar>cfg_clock_drift_ppm config\<bar> \<le> 1000000"
    "\<forall>r \<in> set (rate_list (cfg_rates config)). unat r \<le> 10000"
    "total_rate config * (nat (cfg_duration config) div 10 ^ 9 + 1) \<le> 2000000"
proof -
  show d: "0 < cfg_duration config" "cfg_duration config \<le> kMaxDurationNs" and "0 \<le> cfg_max_jitter config"
    "cfg_max_jitter config \<le> kMaxDurationNs" "\<bar>cfg_clock_drift_ppm config\<bar> \<le> 1000000"
    using assms by (auto simp: validate_config_def split: if_splits)
  obtain tot where tot: "add_rates (rate_list (cfg_rates config)) 0 = Inr tot"
      "\<not> tot * ((of_int (cfg_duration config sdiv kNanosecondsPerSecond) :: u64) + 1) > kMaxGeneratedEvents"
    using assms by (auto simp: validate_config_def Let_def split: if_splits sum.splits)
  show "\<forall>r \<in> set (rate_list (cfg_rates config)). unat r \<le> 10000"
    "total_rate config * (nat (cfg_duration config) div 10 ^ 9 + 1) \<le> 2000000"
    using event_limit [OF tot(1) d] tot(2) by simp_all
qed

lemma add_rates_total: "\<forall>r \<in> set rs. unat r \<le> 10000 \<Longrightarrow> \<exists>tot. add_rates rs c = Inr tot"
  by (induction rs arbitrary: c) (auto simp: word_less_nat_alt)

section \<open>The schedule\<close>

lemma event_count_unat:
  assumes "0 < d" and "d \<le> kMaxDurationNs" and "unat r \<le> 10000"
  shows "unat (event_count d r) = nat d * unat r div 10 ^ 9"
proof (cases "r = 0")
  case False
  define w where "w = nat d div 10 ^ 9"
  define m where "m = nat d mod 10 ^ 9"
  have d: "nat d = w * 10 ^ 9 + m" by (simp add: w_def m_def)
  have m: "m < 10 ^ 9" by (simp add: m_def)
  have w: "w \<le> 3600" using assms(2) by (simp add: w_def nat_le_iff less_Suc_eq_le [symmetric] div_less_iff_less_mult)
  have ww: "(of_int (d sdiv kNanosecondsPerSecond) :: u64) = of_nat w" "(of_int (d smod kNanosecondsPerSecond) :: u64) = of_nat m"
    using assms(1) by (simp_all add: sdiv_nonneg smod_nonneg w_def m_def word_of_int_nat_div word_of_int_nat_mod)
  have uw: "unat (of_nat w :: u64) = w" "unat (of_nat m :: u64) = m" using w m by (simp_all add: unat_of_nat_u64)
  have "w * unat r \<le> 3600 * 10000" "m * unat r \<le> 10 ^ 9 * 10000" using w m assms(3) by (intro mult_le_mono; simp)+
  then have p: "unat (of_nat w * ucast r :: u64) = w * unat r" "unat (of_nat m * ucast r :: u64) = m * unat r"
    by (simp_all add: unat_mult_no_wrap uw)
  have q: "unat ((of_nat m * ucast r) div 1000000000 :: u64) = m * unat r div 10 ^ 9" by (simp add: unat_div p)
  have "m * unat r div 10 ^ 9 \<le> m * unat r" by simp
  then have "unat (event_count d r) = w * unat r + m * unat r div 10 ^ 9"
    using False \<open>w * unat r \<le> _\<close> \<open>m * unat r \<le> _\<close>
    by (simp add: event_count_def Let_def ww unat_add_no_wrap p q)
  also have "\<dots> = nat d * unat r div 10 ^ 9"
    unfolding d by (simp add: algebra_simps div_mult_self1 [symmetric])
  finally show ?thesis .
qed (simp add: event_count_def)

lemma scheduled_time_int:
  assumes "0 < unat r" and "unat r \<le> 10000" and "unat i \<le> 36000000"
  shows "scheduled_time_ns i r = int (unat i * 10 ^ 9 div unat r)"
proof -
  have "unat i div unat r * 10 ^ 9 \<le> 36000000 * 10 ^ 9"
    using assms(3) div_le_dividend [of "unat i" "unat r"] by (intro mult_le_mono1) linarith
  then have a: "unat (i div ucast r * 1000000000) = unat i div unat r * 10 ^ 9"
    by (subst unat_mult_no_wrap) (simp_all add: unat_div)
  have "unat i mod unat r * 10 ^ 9 \<le> 10000 * 10 ^ 9"
    using assms(1,2) mod_less_divisor [of "unat r" "unat i"] by (intro mult_le_mono1) linarith
  then have b: "unat (i mod ucast r * 1000000000 div ucast r) = unat i mod unat r * 10 ^ 9 div unat r"
    using unat_mult_no_wrap [of "i mod ucast r" 1000000000] by (simp add: unat_div unat_mod)
  have le: "unat i mod unat r * 10 ^ 9 div unat r \<le> 10000 * 10 ^ 9"
    using \<open>unat i mod unat r * 10 ^ 9 \<le> _\<close> div_le_dividend order_trans by blast
  have sum: "unat i div unat r * 10 ^ 9 + unat i mod unat r * 10 ^ 9 div unat r = unat i * 10 ^ 9 div unat r"
    using assms(1) by (intro split_scaled_div) simp
  have u: "unat (i div ucast r * 1000000000 + i mod ucast r * 1000000000 div ucast r) = unat i * 10 ^ 9 div unat r"
    using a b le \<open>unat i div unat r * 10 ^ 9 \<le> _\<close> unfolding sum [symmetric] by (subst unat_add_no_wrap) simp_all
  have "unat i * 10 ^ 9 div unat r \<le> unat i * 10 ^ 9" by (rule div_le_dividend)
  also have "\<dots> \<le> 36000000 * 10 ^ 9" by (rule mult_le_mono1 [OF assms(3)])
  finally have "unat i * 10 ^ 9 div unat r \<le> 36000000 * 10 ^ 9" .
  with u show ?thesis unfolding scheduled_time_ns_def Let_def by (subst sint_small) simp_all
qed

text \<open>The sum of the counts stays within \<^verbatim>\<open>kMaxGeneratedEvents\<close>.\<close>

definition event_counts :: "generator_config \<Rightarrow> nat list" where
  "event_counts config = map (\<lambda>r. unat (event_count (cfg_duration config) r)) (rate_list (cfg_rates config))"

lemma event_counts_bound:
  assumes "validate_config config = Inr u"
  shows "sum_list (event_counts config) \<le> 2000000"
proof -
  note v = valid_config [OF assms]
  let ?q = "nat (cfg_duration config) div 10 ^ 9"
  have count: "unat (event_count (cfg_duration config) r) \<le> unat r * (?q + 1)" if "r \<in> set (rate_list (cfg_rates config))" for r
  proof -
    have "nat (cfg_duration config) \<le> (?q + 1) * 10 ^ 9" by (simp add: dividend_less_div_times less_imp_le)
    then have "nat (cfg_duration config) * unat r \<le> (?q + 1) * 10 ^ 9 * unat r" by (rule mult_le_mono1)
    also have "\<dots> = (?q + 1) * unat r * 10 ^ 9" by (simp only: mult_ac)
    finally have "nat (cfg_duration config) * unat r \<le> (?q + 1) * unat r * 10 ^ 9" .
    then have "nat (cfg_duration config) * unat r div 10 ^ 9 \<le> (?q + 1) * unat r * 10 ^ 9 div 10 ^ 9" by (rule div_le_mono)
    then show ?thesis using event_count_unat [OF v(1,2), of r] v(6) that by (simp add: mult.commute)
  qed
  have "sum_list (event_counts config) \<le> (\<Sum>r\<leftarrow>rate_list (cfg_rates config). unat r * (?q + 1))"
    unfolding event_counts_def by (rule sum_list_mono) (rule count)
  also have "\<dots> = total_rate config * (?q + 1)" unfolding total_rate_def by (rule sum_list_mult_const)
  finally show ?thesis using v(7) by simp
qed

lemma scheduled_in_range:
  assumes "validate_config config = Inr u" and "r \<in> set (rate_list (cfg_rates config))"
    and i: "i < unat (event_count (cfg_duration config) r)"
  shows "scheduled_time_ns (of_nat i) r = int (i * 10 ^ 9 div unat r)" and "int (i * 10 ^ 9 div unat r) < cfg_duration config"
    and "i < 2000000"
proof -
  note v = valid_config [OF assms(1)]
  let ?n = "unat (event_count (cfg_duration config) r)" and ?d = "nat (cfg_duration config)"
  have n: "?n = ?d * unat r div 10 ^ 9" using v(6) assms(2) by (intro event_count_unat v(1,2)) blast
  have "?n \<le> sum_list (event_counts config)"
    using assms(2) by (intro member_le_sum_list) (auto simp: event_counts_def)
  then show small: "i < 2000000" using event_counts_bound [OF assms(1)] i by linarith
  have r: "0 < unat r" using i n by (cases "unat r = 0") simp_all
  have "Suc i * 10 ^ 9 \<le> ?d * unat r" using i n by (simp add: less_eq_div_iff_mult_less_eq [symmetric] Suc_le_eq)
  then have "i * 10 ^ 9 < ?d * unat r" by simp
  then have "i * 10 ^ 9 div unat r < ?d" using r by (simp add: div_less_iff_less_mult)
  then show "int (i * 10 ^ 9 div unat r) < cfg_duration config" by linarith
  show "scheduled_time_ns (of_nat i) r = int (i * 10 ^ 9 div unat r)"
    using scheduled_time_int [of r "of_nat i"] r v(6) assms(2) small by (simp add: unat_of_nat_u64)
qed

section \<open>Clock drift\<close>

lemma drift_closed:
  assumes "0 \<le> e"
  shows "apply_clock_drift e d = e + sgn d * (e * \<bar>d\<bar> div 1000000)"
proof (cases "0 \<le> d")
  case True
  then have "apply_clock_drift e d = e + (e div 1000000 * d + e mod 1000000 * d div 1000000)"
    using assms by (simp add: apply_clock_drift_def Let_def sdiv_nonneg smod_nonneg)
  also have "\<dots> = e + e * d div 1000000" by (subst split_scaled_div) simp_all
  finally show ?thesis using True by (cases "d = 0") simp_all
next
  case False
  have "(e mod 1000000 * d) sdiv 1000000 = - (e mod 1000000 * - d div 1000000)"
    using sdiv_minus [of "e mod 1000000 * - d" 1000000] False by (simp add: mult_nonneg_nonpos)
  then have "apply_clock_drift e d = e - (e div 1000000 * - d + e mod 1000000 * - d div 1000000)"
    using assms by (simp add: apply_clock_drift_def Let_def sdiv_nonneg smod_nonneg)
  also have "\<dots> = e - e * - d div 1000000" by (subst split_scaled_div) simp_all
  finally show ?thesis using False by simp
qed

lemma drift_share: "0 \<le> e \<Longrightarrow> \<bar>d\<bar> \<le> 1000000 \<Longrightarrow> 0 \<le> e * \<bar>d\<bar> div 1000000 \<and> e * \<bar>d\<bar> div 1000000 \<le> (e::int)"
  using zdiv_mono1 [of "e * \<bar>d\<bar>" "e * 1000000" 1000000] by (simp add: mult_left_mono pos_imp_zdiv_nonneg_iff)

lemma drift_bounds: "0 \<le> e \<Longrightarrow> \<bar>d\<bar> \<le> 1000000 \<Longrightarrow> 0 \<le> apply_clock_drift e d \<and> apply_clock_drift e d \<le> 2 * e"
  using drift_share [of e d] by (cases d "0::int" rule: linorder_cases) (simp_all add: drift_closed)

lemma drift_mono:
  assumes "0 \<le> e" and "e \<le> f" and "\<bar>d\<bar> \<le> 1000000"
  shows "apply_clock_drift e d \<le> apply_clock_drift f d"
proof -
  have up: "e * \<bar>d\<bar> div 1000000 \<le> f * \<bar>d\<bar> div 1000000" using assms by (intro zdiv_mono1 mult_right_mono) simp_all
  have "(f - e) * \<bar>d\<bar> \<le> (f - e) * 1000000" using assms by (intro mult_left_mono) simp_all
  then have "f * \<bar>d\<bar> \<le> e * \<bar>d\<bar> + (f - e) * 1000000" by (simp add: algebra_simps)
  then have "f * \<bar>d\<bar> div 1000000 \<le> (e * \<bar>d\<bar> + (f - e) * 1000000) div 1000000" by (rule zdiv_mono1) simp
  also have "\<dots> = e * \<bar>d\<bar> div 1000000 + (f - e)" by simp
  finally show ?thesis using up assms by (cases d "0::int" rule: linorder_cases) (simp_all add: drift_closed)
qed

text \<open>The products of \<^verbatim>\<open>apply_clock_drift\<close> stay far below \<open>2 ^ 63\<close>.\<close>

lemma drift_no_overflow:
  assumes "0 \<le> e" and "e \<le> kMaxDurationNs" and "\<bar>d\<bar> \<le> 1000000"
  shows "\<bar>e sdiv 1000000 * d\<bar> \<le> 10 ^ 13" and "\<bar>e smod 1000000 * d\<bar> \<le> 10 ^ 13"
proof -
  have "0 \<le> e sdiv 1000000" "e sdiv 1000000 \<le> 3600000" "0 \<le> e smod 1000000" "e smod 1000000 \<le> 1000000"
    using assms(1,2) by (simp_all add: sdiv_nonneg smod_nonneg pos_imp_zdiv_nonneg_iff)
  then have "\<bar>e sdiv 1000000\<bar> * \<bar>d\<bar> \<le> 3600000 * 1000000" "\<bar>e smod 1000000\<bar> * \<bar>d\<bar> \<le> 1000000 * 1000000"
    using assms(3) by (intro mult_mono; simp)+
  then show "\<bar>e sdiv 1000000 * d\<bar> \<le> 10 ^ 13" "\<bar>e smod 1000000 * d\<bar> \<le> 10 ^ 13" by (simp_all add: abs_mult)
qed

section \<open>Single events\<close>

lemma unat_of_int_small: "0 \<le> i \<Longrightarrow> i < 2 ^ 64 \<Longrightarrow> unat (of_int i :: u64) = nat i"
  by (cases i) (auto simp: unat_of_nat_u64)

lemma returns_small_bounded:
  assumes "0 < m" and "m < 2 ^ 63"
  shows "returns draw (rdraw (bounded draw (of_int m))) (\<lambda>v. 0 \<le> sint v \<and> sint v < m)"
proof (rule returns_mono [OF returns_bounded])
  fix v :: u64
  assume "if of_int m = (0::u64) then v = 0 else v < of_int m"
  moreover have u: "unat (of_int m :: u64) = nat m" using assms by (intro unat_of_int_small) simp_all
  ultimately have "unat v < nat m" using assms(1) by (auto simp: word_less_nat_alt split: if_splits)
  moreover have "nat m < 2 ^ 63" using assms by (simp add: nat_less_iff)
  moreover from calculation have "sint v = int (unat v)" by (intro sint_small) (rule less_trans)
  ultimately show "0 \<le> sint v \<and> sint v < m" by linarith
qed

lemma returns_jitter:
  assumes "0 \<le> m" and "m \<le> kMaxDurationNs"
  shows "returns draw (sample_jitter draw m) (\<lambda>j. \<bar>j\<bar> \<le> m)"
proof (cases "m = 0")
  case False
  have "returns draw (rdraw (bounded draw (of_int (m * 2 + 1)))) (\<lambda>v. 0 \<le> sint v \<and> sint v < m * 2 + 1)"
    using assms by (intro returns_small_bounded) simp_all
  then have "returns draw (rbind (rdraw (bounded draw (of_int (m * 2 + 1)))) (\<lambda>v. rreturn (sint v - m))) (\<lambda>j. \<bar>j\<bar> \<le> m)"
    by (rule returns_bind) (auto intro: returns_return)
  then show ?thesis using assms False by (simp add: sample_jitter_def sdiv_nonneg)
qed (simp add: sample_jitter_def returns_return)

text \<open>An event stamped with a producer, a position in its stream and a time of the schedule.\<close>

definition stamped :: "generator_config \<Rightarrow> string \<Rightarrow> nat \<Rightarrow> int \<Rightarrow> telemetry_event \<Rightarrow> bool" where
  "stamped config p i t e \<longleftrightarrow> schema_version e = kTelemetrySchemaVersion \<and> producer_id e = p \<and> sequence_number e = of_nat i \<and>
     source_clock e = CLOCK_DOMAIN_UTC \<and>
     \<bar>sint (source_timestamp_ns e) - (kBaseTimestampNs + apply_clock_drift t (cfg_clock_drift_ppm config))\<bar> \<le> cfg_max_jitter config"

lemma returns_base_event:
  assumes "validate_config config = Inr u" and "0 \<le> t" and "t < cfg_duration config"
  shows "returns draw (base_event draw p (of_nat i) t config) (stamped config p i t)"
proof -
  note v = valid_config [OF assms(1)]
  have d: "0 \<le> apply_clock_drift t (cfg_clock_drift_ppm config) \<and> apply_clock_drift t (cfg_clock_drift_ppm config) \<le> 2 * t"
    by (rule drift_bounds [OF assms(2) v(5)])
  show ?thesis unfolding base_event_def
  proof (rule returns_bind [OF returns_jitter [OF v(3,4)]], rule returns_return)
    fix j
    assume j: "\<bar>j\<bar> \<le> cfg_max_jitter config"
    let ?t = "kBaseTimestampNs + apply_clock_drift t (cfg_clock_drift_ppm config) + j"
    have "0 \<le> ?t" "?t \<le> 2000000000000000000" using d j v(2,4) assms(3) by linarith+
    then have "sint (of_int ?t :: u64) = ?t" by (intro sint_of_int_small) simp_all
    then show "stamped config p i t (empty_event\<lparr>schema_version := kTelemetrySchemaVersion, producer_id := p,
        sequence_number := of_nat i, source_timestamp_ns := of_int ?t, source_clock := CLOCK_DOMAIN_UTC\<rparr>)"
      using j by (simp add: stamped_def)
  qed
qed

lemma stamped_event_ok:
  assumes "validate_config config = Inr u" and "0 \<le> t" and "stamped config p i t e"
    and "p \<noteq> []" and "length p \<le> kMaxProducerIdBytes" and "accepted (validate_payload (ev_payload e))"
  shows "event_ok e"
proof -
  note v = valid_config [OF assms(1)]
  have "0 < sint (source_timestamp_ns e)"
    using drift_bounds [OF assms(2) v(5)] v(4) assms(3) unfolding stamped_def by linarith
  then show ?thesis using assms by (simp add: event_ok_def stamped_def ClockDomain_IsValid_def)
qed

section \<open>Payloads\<close>

lemma accelerometer_ok: "accepted (validate_payload (accelerometer_payload n))"
  by (simp add: accelerometer_payload_def is_finite_def Let_def)
    (intro conjI f64_dyadic_value; simp add: abs_le_iff; linarith?)

lemma gyroscope_ok: "accepted (validate_payload (gyroscope_payload n))"
  by (simp add: gyroscope_payload_def is_finite_def Let_def f64_neg_finite)
    (intro conjI f64_dyadic_value; simp add: abs_le_iff; linarith?)

lemma camera_ok: "accepted (validate_payload (camera_payload n))"
  by (simp add: camera_payload_def)

lemma temperature_ok: "accepted (validate_payload (temperature_payload n))"
  by (simp add: temperature_payload_def) (intro f64_dyadic_value; simp add: abs_le_iff; linarith?)

lemma f64_constants:
  "f64_90 = f64_dyadic 90 0" "f64_neg_90 = f64_dyadic (- 90) 0" "f64_180 = f64_dyadic 180 0" "f64_neg_180 = f64_dyadic (- 180) 0"
  "0 = f64_dyadic 0 0"
  by (simp_all add: f64_dyadic_def Let_def bits.simps)

text \<open>Latitude grows with the sequence number; the limit on the number of events keeps it below 90.\<close>

lemma gps_ok:
  assumes "unat n < 2000000"
  shows "accepted (validate_payload (gps_payload n))"
proof -
  define k where "k = int (unat n)"
  have n: "0 \<le> k" "k < 2000000" using assms unfolding k_def by linarith+
  have m: "0 \<le> k mod 4" "k mod 4 < 4" by simp_all
  have fin: "f64_isfinite (f64_dyadic (1941504 + k) 16)" "f64_isfinite (f64_dyadic (k - 5398528) 16)" "f64_isfinite (f64_dyadic (12 + k mod 4) 2)"
    using n m by (intro f64_dyadic_value(1); simp)+
  have less: "f64_less (f64_dyadic a i) (f64_dyadic b j) \<longleftrightarrow> of_int a / 2 ^ i < (of_int b / 2 ^ j :: rat)"
    if "\<bar>a\<bar> < 2 ^ 53" "\<bar>b\<bar> < 2 ^ 53" "i \<le> 1022" "j \<le> 1022" for a b i j
    using that by (simp add: f64_less_value f64_dyadic_value)
  show ?thesis unfolding gps_payload_def Let_def k_def [symmetric] validate_payload.simps f64_constants gps_fix.select_convs
    using fin n m by (simp add: less field_simps)
qed

lemma returns_fault_payload: "returns draw (fault_payload draw n) (\<lambda>p. accepted (validate_payload p))"
  unfolding fault_payload_def Let_def
  by (rule returns_bind [OF returns_bounded], rule returns_return)
    (auto simp: FaultEvent_Severity_IsValid_def fault_message_def)

section \<open>The parts of a workload\<close>

text \<open>The events of one producer, one for each time of its schedule.\<close>

definition made :: "generator_config \<Rightarrow> string \<Rightarrow> int list \<Rightarrow> telemetry_event list \<Rightarrow> bool" where
  "made config p ts es \<longleftrightarrow> length es = length ts \<and> (\<forall>i < length ts. stamped config p i (ts ! i) (es ! i)) \<and> (\<forall>e \<in> set es. event_ok e)"

definition schedule :: "generator_config \<Rightarrow> u32 \<Rightarrow> int list" where
  "schedule config r = map (\<lambda>i. int (i * 10 ^ 9 div unat r)) [0..<unat (event_count (cfg_duration config) r)]"

lemma returns_append_periodic:
  assumes valid: "validate_config config = Inr u" and r: "r \<in> set (rate_list (cfg_rates config))"
    and p: "p \<noteq> []" "length p \<le> kMaxProducerIdBytes"
    and populate: "\<And>n. unat n < 2000000 \<Longrightarrow> returns draw (populate n) (\<lambda>x. accepted (validate_payload x))"
  shows "returns draw (append_periodic draw p r config populate) (made config p (schedule config r))"
proof -
  let ?n = "unat (event_count (cfg_duration config) r)"
  let ?Q = "\<lambda>i e. stamped config p i (int (i * 10 ^ 9 div unat r)) e \<and> event_ok e"
  have one: "returns draw (periodic_event draw p r config populate i) (?Q i)" if "i \<in> set [0..<?n]" for i
  proof -
    let ?t = "int (i * 10 ^ 9 div unat r)"
    note t = scheduled_in_range [OF valid r, of i]
    have i: "i < ?n" using that by simp
    show ?thesis unfolding periodic_event_def Let_def t(1) [OF i]
    proof (rule returns_bind [OF returns_base_event [OF valid _ t(2) [OF i]]], simp, rule returns_bind [OF populate])
      show "unat (of_nat i :: u64) < 2000000" using t(3) [OF i] by (simp add: unat_of_nat_u64)
      fix e x
      assume e: "stamped config p i ?t e" and x: "accepted (validate_payload x)"
      have st: "stamped config p i ?t (e\<lparr>ev_payload := x\<rparr>)" using e by (simp add: stamped_def)
      then have "event_ok (e\<lparr>ev_payload := x\<rparr>)" using p x by (intro stamped_event_ok [OF valid]) simp_all
      with st show "returns draw (rreturn (e\<lparr>ev_payload := x\<rparr>)) (?Q i)" by (intro returns_return) simp
    qed
  qed
  show ?thesis unfolding append_periodic_def
    by (rule returns_mono [OF returns_rmap [OF one]]) (auto simp: list_all2_conv_all_nth made_def schedule_def in_set_conv_nth)
qed

text \<open>The controller reports three or four states, at times that do not decrease.\<close>

definition controller_times :: "int \<Rightarrow> int list \<Rightarrow> bool" where
  "controller_times d ts \<longleftrightarrow> length ts \<in> {3, 4} \<and> sorted ts \<and> (\<forall>t \<in> set ts. 0 \<le> t \<and> t < d)"

lemma returns_controller_states:
  assumes "0 < d" and "d \<le> kMaxDurationNs"
  shows "returns draw (controller_states draw d) (\<lambda>sts. controller_times d (map fst sts) \<and>
    (\<forall>s \<in> set (map snd sts). s \<in> {STATE_INITIALIZING, STATE_READY, STATE_DEGRADED, STATE_STOPPED}))"
proof -
  let ?e = "max (d sdiv 8) 1"
  have e: "0 < ?e" "?e < 2 ^ 63" using assms by (simp_all add: sdiv_nonneg)
  have quarter: "d sdiv 4 = d div 4" "d sdiv 8 = d div 8" "d * 5 sdiv 8 = d * 5 div 8" using assms(1) by (simp_all add: sdiv_nonneg)
  note draw = returns_small_bounded [OF e, of draw]
  show ?thesis unfolding controller_states_def Let_def
  proof (rule returns_bind [OF draw], rule returns_bind [OF returns_chance])
    fix x degraded
    assume x: "0 \<le> sint x \<and> sint x < ?e"
    let ?mid = "if degraded then rbind (rdraw (bounded draw (of_int ?e))) (\<lambda>v. rreturn [(d * 5 sdiv 8 + sint v, STATE_DEGRADED)]) else rreturn []"
    have "returns draw ?mid (\<lambda>m. m = [] \<or> (\<exists>y. 0 \<le> y \<and> y < ?e \<and> m = [(d * 5 sdiv 8 + y, STATE_DEGRADED)]))"
      by (cases degraded) (auto intro!: returns_return returns_bind [OF draw])
    then show "returns draw (rbind ?mid (\<lambda>middle. rreturn ([(0, STATE_INITIALIZING), (d sdiv 4 + sint x, STATE_READY)] @ middle @ [(d - 1, STATE_STOPPED)])))
       (\<lambda>sts. controller_times d (map fst sts) \<and> (\<forall>s \<in> set (map snd sts). s \<in> {STATE_INITIALIZING, STATE_READY, STATE_DEGRADED, STATE_STOPPED}))"
      by (rule returns_bind) (use x assms(1) in \<open>auto intro!: returns_return simp: controller_times_def quarter\<close>)
  qed
qed

lemma returns_controller_events:
  assumes valid: "validate_config config = Inr u"
  shows "returns draw (append_controller_events draw config)
    (\<lambda>es. \<exists>ts. controller_times (cfg_duration config) ts \<and> made config ''sim-controller'' ts es)"
  unfolding append_controller_events_def
proof (rule returns_bind [OF returns_controller_states [OF valid_config(1,2) [OF valid]]])
  fix sts :: "(int \<times> int) list"
  let ?p = "''sim-controller''" and ?ts = "map fst sts"
  assume *: "controller_times (cfg_duration config) ?ts \<and>
    (\<forall>s \<in> set (map snd sts). s \<in> {STATE_INITIALIZING, STATE_READY, STATE_DEGRADED, STATE_STOPPED})"
  let ?Q = "\<lambda>x e. stamped config ?p (fst x) (fst (snd x)) e \<and> event_ok e"
  have one: "returns draw (controller_event draw config x) (?Q x)" if "x \<in> set (enumerate 0 sts)" for x
  proof -
    obtain i t s where x: "x = (i, t, s)" by (cases x)
    then have mem: "(t, s) \<in> set sts" using that by (auto simp: enumerate_eq_zip dest: set_zip_rightD)
    then have t: "0 \<le> t" "t < cfg_duration config" and s: "s \<in> {STATE_INITIALIZING, STATE_READY, STATE_DEGRADED, STATE_STOPPED}"
      using * by (force simp: controller_times_def)+
    show ?thesis unfolding controller_event_def x prod.case
    proof (rule returns_bind [OF returns_base_event [OF valid t]], rule returns_return)
      fix e :: telemetry_event
      let ?e = "e\<lparr>ev_payload := ControllerStatus \<lparr>cs_state = s, cs_detail = ControllerStatus_State_Name s\<rparr>\<rparr>"
      assume "stamped config ?p i t e"
      then have st: "stamped config ?p i t ?e" by (simp add: stamped_def)
      moreover have "event_ok ?e"
        using s by (intro stamped_event_ok [OF valid t(1) st]) (auto simp: ControllerStatus_State_IsValid_def)
      ultimately show "stamped config ?p (fst (i, t, s)) (fst (snd (i, t, s))) ?e \<and> event_ok ?e" by simp
    qed
  qed
  show "returns draw (rmap (controller_event draw config) (enumerate 0 sts))
    (\<lambda>es. \<exists>ts. controller_times (cfg_duration config) ts \<and> made config ?p ts es)"
  proof (rule returns_mono [OF returns_rmap [OF one]])
    fix es
    assume "list_all2 ?Q (enumerate 0 sts) es"
    then have "made config ?p ?ts es" by (auto simp: list_all2_conv_all_nth made_def in_set_conv_nth nth_enumerate_eq)
    with * show "\<exists>ts. controller_times (cfg_duration config) ts \<and> made config ?p ts es" by blast
  qed
qed

text \<open>The whole list before sorting: one part per producer, in the order of the calls.\<close>

definition plan :: "generator_config \<Rightarrow> int list \<Rightarrow> (string \<times> int list) list" where
  "plan config ts =
     [(''sim-accelerometer'', schedule config (accelerometer_hz (cfg_rates config))),
      (''sim-gyroscope'', schedule config (gyroscope_hz (cfg_rates config))),
      (''sim-camera'', schedule config (camera_hz (cfg_rates config))),
      (''sim-gps'', schedule config (gps_hz (cfg_rates config))),
      (''sim-temperature'', schedule config (temperature_hz (cfg_rates config))),
      (''sim-fault'', schedule config (fault_monitor_hz (cfg_rates config))),
      (''sim-controller'', ts)]"

definition planned :: "generator_config \<Rightarrow> telemetry_event list \<Rightarrow> bool" where
  "planned config es \<longleftrightarrow> (\<exists>ts parts. controller_times (cfg_duration config) ts \<and>
     list_all2 (\<lambda>(p, ts) part. made config p ts part) (plan config ts) parts \<and> es = concat parts)"

lemma returns_base_events:
  assumes valid: "validate_config config = Inr u"
  shows "returns draw (base_events draw config) (planned config)"
proof -
  note periodic = returns_append_periodic [OF valid, of _ _ draw]
  show ?thesis unfolding base_events_def Let_def
    apply (rule returns_bind [OF periodic], simp add: rate_list_def, simp, simp, simp add: returns_return accelerometer_ok)
    apply (rule returns_bind [OF periodic], simp add: rate_list_def, simp, simp, simp add: returns_return gyroscope_ok)
    apply (rule returns_bind [OF periodic], simp add: rate_list_def, simp, simp, simp add: returns_return camera_ok)
    apply (rule returns_bind [OF periodic], simp add: rate_list_def, simp, simp, simp add: returns_return gps_ok)
    apply (rule returns_bind [OF periodic], simp add: rate_list_def, simp, simp, simp add: returns_return temperature_ok)
    apply (rule returns_bind [OF periodic], simp add: rate_list_def, simp, simp, rule returns_fault_payload)
    apply (rule returns_bind [OF returns_controller_events [OF valid]], rule returns_return)
    apply (clarsimp simp: planned_def)
    subgoal for e1 e2 e3 e4 e5 e6 e7 ts
      by (rule exI [of _ ts], simp, rule exI [of _ "[e1, e2, e3, e4, e5, e6, e7]"], simp add: plan_def)
    done
qed

section \<open>Streams of a plan\<close>

lemma stable_event_hash_total: "(\<forall>e \<in> set es. serialize e \<noteq> None) \<Longrightarrow> \<exists>h. stable_event_hash serialize es hash = Inr h"
  by (induction es arbitrary: hash) auto

lemma made_producer: "made config p ts es \<Longrightarrow> e \<in> set es \<Longrightarrow> producer_id e = p"
  by (auto simp: made_def stamped_def in_set_conv_nth)

lemma made_parts_event_ok:
  "list_all2 (\<lambda>(p, ts) part. made config p ts part) pl parts \<Longrightarrow> e \<in> set (concat parts) \<Longrightarrow> event_ok e"
  by (induction rule: list_all2_induct) (auto simp: made_def)

lemma planned_event_ok: "planned config es \<Longrightarrow> e \<in> set es \<Longrightarrow> event_ok e"
  by (auto simp: planned_def simp del: set_concat dest: made_parts_event_ok)

lemma planned_length:
  assumes "planned config es"
  shows "length es = sum_list (event_counts config) + 3 \<or> length es = sum_list (event_counts config) + 4"
proof -
  from assms obtain ts parts where *: "controller_times (cfg_duration config) ts" "es = concat parts"
      "list_all2 (\<lambda>(p, ts) part. made config p ts part) (plan config ts) parts"
    by (auto simp: planned_def)
  from *(3) have "map length parts = map (length \<circ> snd) (plan config ts)"
    by (induction) (auto simp: made_def)
  then have "length es = sum_list (map (length \<circ> snd) (plan config ts))" using *(2) by (simp add: length_concat)
  then show ?thesis using *(1) by (auto simp: plan_def event_counts_def rate_list_def schedule_def controller_times_def)
qed

lemma planned_small: "validate_config config = Inr u \<Longrightarrow> planned config es \<Longrightarrow> length es \<le> 2000004"
  using planned_length [of config es] event_counts_bound [of config u] by auto

lemma stream_of_plan:
  fixes q :: string
  assumes "list_all2 (\<lambda>(p, ts) part. made config p ts part) pl parts" and "distinct (map fst pl)"
  defines "fs \<equiv> filter (\<lambda>e. producer_id e = q) (concat parts)"
  shows "q \<notin> fst ` set pl \<and> fs = [] \<or> (\<exists>ts. (q, ts) \<in> set pl \<and> made config q ts fs)"
  using assms(1,2) unfolding fs_def
proof (induction)
  case (Cons x pl part parts)
  obtain p ts where x: "x = (p, ts)" by (cases x)
  then have m: "made config p ts part" using Cons.hyps(1) by simp
  have "filter (\<lambda>e. producer_id e = q) part = (if p = q then part else [])"
    using made_producer [OF m] by (auto simp: filter_id_conv filter_empty_conv)
  then show ?case using Cons m by (auto simp: x image_iff)
qed simp

lemma schedule_sorted: "sorted (schedule config r)"
  by (auto simp: schedule_def sorted_map sorted_wrt_iff_nth_less div_le_mono)

lemma schedule_nonneg: "t \<in> set (schedule config r) \<Longrightarrow> 0 \<le> t"
  by (auto simp: schedule_def)

lemma plan_times: "controller_times d ts \<Longrightarrow> (p, us) \<in> set (plan config ts) \<Longrightarrow> sorted us \<and> (\<forall>t \<in> set us. 0 \<le> t)"
  using schedule_sorted schedule_nonneg by (auto simp: plan_def controller_times_def)

lemma plan_distinct: "distinct (map fst (plan config ts))"
  by (simp add: plan_def)

lemma made_sequence: "made config p ts es \<Longrightarrow> map sequence_number es = map of_nat [0..<length es]"
  by (auto simp: made_def stamped_def intro!: nth_equalityI)

lemma made_sorted:
  assumes "made config p ts es" and "cfg_max_jitter config = 0" and "\<bar>cfg_clock_drift_ppm config\<bar> \<le> 1000000"
    and "sorted ts" and "\<forall>t \<in> set ts. 0 \<le> t" and "length es < 2 ^ 64"
  shows "sorted (map event_key es)"
proof -
  have "event_key (es ! i) \<le> event_key (es ! j)" if ij: "i \<le> j" "j < length es" for i j
  proof -
    have st: "stamped config p i (ts ! i) (es ! i)" "stamped config p j (ts ! j) (es ! j)" and len: "length ts = length es"
      using assms(1) ij by (auto simp: made_def)
    have "ts ! i \<le> ts ! j" using assms(4) ij len by (simp add: sorted_nth_mono)
    then have "apply_clock_drift (ts ! i) (cfg_clock_drift_ppm config) \<le> apply_clock_drift (ts ! j) (cfg_clock_drift_ppm config)"
      using assms(3,5) ij len by (intro drift_mono) auto
    then show ?thesis using st ij assms(2,6) by (auto simp: event_key_def stamped_def unat_of_nat_u64)
  qed
  then show ?thesis by (simp add: sorted_iff_nth_mono)
qed

text \<open>Sorted by time, the stream of each producer is in the order it was made.\<close>

lemma planned_stream:
  fixes q :: string
  assumes valid: "validate_config config = Inr u" and "planned config es" and jitter: "cfg_max_jitter config = 0"
  defines "fs \<equiv> filter (\<lambda>e. producer_id e = q) (sort_key event_key es)"
  shows "map sequence_number fs = map of_nat [0..<length fs]"
proof -
  from assms(2) obtain ts parts where *: "controller_times (cfg_duration config) ts" "es = concat parts"
      "list_all2 (\<lambda>(p, ts) part. made config p ts part) (plan config ts) parts"
    by (auto simp: planned_def)
  let ?gs = "filter (\<lambda>e. producer_id e = q) es"
  have fs: "fs = sort_key event_key ?gs" by (simp add: fs_def filter_sort)
  have "length ?gs \<le> 2000004" by (rule order_trans [OF length_filter_le planned_small [OF valid assms(2)]])
  then have small: "length ?gs < 2 ^ 64" by simp
  show ?thesis
  proof (cases "?gs = []")
    case False
    then obtain us where us: "(q, us) \<in> set (plan config ts)" "made config q us ?gs"
      using stream_of_plan [OF *(3) plan_distinct, of q] *(2) by auto
    have "sorted (map event_key ?gs)"
      using plan_times [OF *(1) us(1)] small by (intro made_sorted [OF us(2) jitter valid_config(5) [OF valid]]) simp_all
    then have "fs = ?gs" by (simp add: fs sort_key_id_if_sorted)
    then show ?thesis using made_sequence [OF us(2)] by simp
  qed (simp add: fs)
qed

section \<open>The generated workload\<close>

lemma subseq_subset: "subseq xs ys \<Longrightarrow> set xs \<subseteq> set ys"
  by (induction rule: list_emb.induct) auto

lemma sorted_wrt_subseq: "subseq xs ys \<Longrightarrow> sorted_wrt P ys \<Longrightarrow> sorted_wrt P xs"
  by (induction rule: list_emb.induct) (auto dest: subseq_subset)

definition fresh_stats :: "telemetry_event list \<Rightarrow> generation_stats" where
  "fresh_stats es = \<lparr>generated_events = of_nat (length es), dropped_events = 0, duplicated_events = 0, reordered_pairs = 0\<rparr>"

text \<open>Producer and sequence number name a scheduled event.\<close>

definition event_name :: "telemetry_event \<Rightarrow> string \<times> u64" where
  "event_name e = (producer_id e, sequence_number e)"

lemma distinct_names:
  "(\<And>q. distinct (map sequence_number (filter (\<lambda>e. producer_id e = q) es))) \<Longrightarrow> distinct (map event_name es)"
proof (induction es)
  case (Cons e es)
  have "distinct (map sequence_number (filter (\<lambda>e. producer_id e = q) es))" for q
    using Cons.prems [of q] by (simp split: if_splits)
  moreover have "event_name e \<notin> event_name ` set es"
    using Cons.prems [of "producer_id e"] by (auto simp: event_name_def)
  ultimately show ?case using Cons.IH by simp
qed simp

lemma planned_distinct:
  assumes valid: "validate_config config = Inr u" and "planned config es"
  shows "distinct (map event_name es)"
proof (rule distinct_names)
  fix q :: string
  from assms(2) obtain ts parts where *: "es = concat parts"
      "list_all2 (\<lambda>(p, ts) part. made config p ts part) (plan config ts) parts"
    by (auto simp: planned_def)
  let ?gs = "filter (\<lambda>e. producer_id e = q) es"
  have small: "length ?gs \<le> 2000004" by (rule order_trans [OF length_filter_le planned_small [OF assms]])
  show "distinct (map sequence_number ?gs)"
  proof (cases "?gs = []")
    case False
    then obtain us where "made config q us ?gs" using stream_of_plan [OF *(2) plan_distinct, of q] *(1) by auto
    then have "map sequence_number ?gs = map of_nat [0..<length ?gs]" by (rule made_sequence)
    moreover have "inj_on (of_nat :: nat \<Rightarrow> u64) {0..<length ?gs}"
      using small by (intro inj_onI) (auto simp: word_unat_eq_iff unat_of_nat_u64)
    ultimately show ?thesis by (simp add: distinct_map)
  qed simp
qed

text \<open>What \<^verbatim>\<open>generate\<close> makes of the scheduled events.\<close>

definition faults_applied :: "fault_injection \<Rightarrow> telemetry_event list \<Rightarrow> generated_workload \<Rightarrow> bool" where
  "faults_applied f es wl \<longleftrightarrow> (\<exists>es1 st1. injected f es (fresh_stats es) (es1, st1) \<and> reordered f es1 st1 (wl_events wl, wl_stats wl))"

lemma returns_generate:
  assumes base: "planned config base" and ser: "\<forall>e. event_ok e \<longrightarrow> serialize e \<noteq> None"
  shows "returns draw (let events = sort_key event_key base;
           stats = \<lparr>generated_events = of_nat (length events), dropped_events = 0, duplicated_events = 0, reordered_pairs = 0\<rparr>
       in rbind (inject_faults draw (cfg_faults config) events stats) (\<lambda>(events, stats).
          rbind (reorder draw (cfg_faults config) events stats) (\<lambda>(events, stats).
            case stable_event_hash serialize events kFnvOffsetBasis of
              Inl e \<Rightarrow> rthrow e
            | Inr hash \<Rightarrow> rreturn \<lparr>wl_events = events, wl_stats = stats, wl_hash = hash\<rparr>)))
     (faults_applied (cfg_faults config) (sort_key event_key base))"
  unfolding Let_def
proof (rule returns_bind [OF returns_inject_faults], clarify, rule returns_bind [OF returns_reorder], clarify)
  fix es1 st1 es2 st2
  assume *: "injected (cfg_faults config) (sort_key event_key base) \<lparr>generated_events = of_nat (length (sort_key event_key base)),
       dropped_events = 0, duplicated_events = 0, reordered_pairs = 0\<rparr> (es1, st1)"
    "reordered (cfg_faults config) es1 st1 (es2, st2)"
  have "set es2 = set es1" using *(2) by (auto simp: reordered_def dest!: swapped_mset mset_eq_setD)
  also have "\<dots> \<subseteq> set base" using *(1) set_copies [of _ "sort_key event_key base"] by (auto simp: injected_def)
  finally have "\<forall>e \<in> set es2. serialize e \<noteq> None" using planned_event_ok [OF base] ser by blast
  from stable_event_hash_total [OF this] obtain h where "stable_event_hash serialize es2 kFnvOffsetBasis = Inr h" by blast
  then show "returns draw (case stable_event_hash serialize es2 kFnvOffsetBasis of Inl e \<Rightarrow> rthrow e
      | Inr hash \<Rightarrow> rreturn \<lparr>wl_events = es2, wl_stats = st2, wl_hash = hash\<rparr>) (faults_applied (cfg_faults config) (sort_key event_key base))"
    using * by (simp, intro returns_return) (simp add: faults_applied_def fresh_stats_def, blast)
qed

lemma generate_parts:
  assumes "validate_config config = Inr u" and "lively draw g" and "\<forall>e. event_ok e \<longrightarrow> serialize e \<noteq> None"
  shows "\<exists>wl g' base g1. generate draw serialize config g = Some (Inr (wl, g')) \<and> base_events draw config g = Some (Inr (base, g1)) \<and>
    planned config base \<and> faults_applied (cfg_faults config) (sort_key event_key base) wl"
proof -
  obtain base g1 where base: "base_events draw config g = Some (Inr (base, g1))" "lively draw g1" "planned config base"
    using returns_base_events [OF assms(1), of draw] assms(2) by (fastforce simp: returns_def)
  show ?thesis
    using returns_generate [OF base(3) assms(3), of draw, unfolded returns_def, rule_format, OF base(2)] base
    unfolding generate_def rbind_def [of "base_events draw config"] by auto
qed

lemma faults_unordered:
  assumes "faults_applied f es wl" and "duplicate_per_million f = 0" and "reorder_per_million f = 0"
  shows "subseq (wl_events wl) es" and "drop_per_million f = 0 \<Longrightarrow> wl_events wl = es"
proof -
  from assms obtain ns where ns: "length ns = length es" "set ns \<subseteq> {0, 1, 2}" "2 \<notin> set ns" "wl_events wl = copies ns es"
      "drop_per_million f = 0 \<longrightarrow> 0 \<notin> set ns"
    unfolding faults_applied_def injected_def reordered_def by (auto dest: swapped_zero)
  then have "set ns \<subseteq> {0, 1}" by auto
  then show "subseq (wl_events wl) es" using ns(4) by (simp add: copies_subseq)
  show "wl_events wl = es" if "drop_per_million f = 0"
  proof -
    have "set ns \<subseteq> {1}" using \<open>set ns \<subseteq> {0, 1}\<close> ns(5) that by auto
    then show ?thesis using ns(1,4) by (simp add: copies_all)
  qed
qed

lemma faults_counts:
  assumes "faults_applied f es wl" and "length es \<le> 2000004"
  shows "\<exists>ns. length ns = length es \<and> set ns \<subseteq> {0, 1, 2} \<and> swapped (unat (reordered_pairs (wl_stats wl))) (copies ns es) (wl_events wl) \<and>
    unat (generated_events (wl_stats wl)) = length es \<and> unat (dropped_events (wl_stats wl)) = count_list ns 0 \<and>
    unat (duplicated_events (wl_stats wl)) = count_list ns 2 \<and>
    (drop_per_million f = 0 \<longrightarrow> 0 \<notin> set ns) \<and> (kProbabilityScale \<le> drop_per_million f \<longrightarrow> set ns \<subseteq> {0}) \<and>
    (duplicate_per_million f = 0 \<longrightarrow> 2 \<notin> set ns) \<and> (kProbabilityScale \<le> duplicate_per_million f \<longrightarrow> 1 \<notin> set ns) \<and>
    (reorder_per_million f = 0 \<longrightarrow> wl_events wl = copies ns es) \<and>
    (kProbabilityScale \<le> reorder_per_million f \<longrightarrow> unat (reordered_pairs (wl_stats wl)) = length (copies ns es) div 2)"
proof -
  from assms(1) obtain es1 st1 where inj: "injected f es (fresh_stats es) (es1, st1)" and reo: "reordered f es1 st1 (wl_events wl, wl_stats wl)"
    by (auto simp: faults_applied_def)
  from inj obtain ns where ns: "length ns = length es" "set ns \<subseteq> {0, 1, 2}" "es1 = copies ns es"
      "st1 = (fresh_stats es)\<lparr>dropped_events := of_nat (count_list ns 0), duplicated_events := of_nat (count_list ns 2)\<rparr>"
      "drop_per_million f = 0 \<longrightarrow> 0 \<notin> set ns" "kProbabilityScale \<le> drop_per_million f \<longrightarrow> set ns \<subseteq> {0}"
      "duplicate_per_million f = 0 \<longrightarrow> 2 \<notin> set ns" "kProbabilityScale \<le> duplicate_per_million f \<longrightarrow> 1 \<notin> set ns"
    unfolding injected_def by (auto simp: fresh_stats_def)
  from reo obtain k where k: "swapped k es1 (wl_events wl)" "wl_stats wl = st1\<lparr>reordered_pairs := of_nat k\<rparr>"
      "reorder_per_million f = 0 \<longrightarrow> k = 0" "kProbabilityScale \<le> reorder_per_million f \<longrightarrow> k = length es1 div 2"
    unfolding reordered_def by (auto simp: ns(4) fresh_stats_def)
  have len: "length es1 + count_list ns 0 = length es + count_list ns 2" "count_list ns 0 + count_list ns 2 \<le> length es"
    using length_copies [OF ns(2,1)] by (simp_all add: ns(3))
  then have "k \<le> 4000008" "count_list ns 0 \<le> 4000008" "count_list ns 2 \<le> 4000008"
    using swapped_mset [OF k(1)] assms(2) by linarith+
  moreover have u: "unat (of_nat n :: u64) = n" if "n \<le> 4000008" for n using that by (intro unat_of_nat_u64) simp
  ultimately show ?thesis using ns k assms(2) swapped_zero [of es1 "wl_events wl"]
    by (intro exI [of _ ns]) (auto simp: fresh_stats_def u)
qed

text \<open>
  C28: For every configuration the constructor of \<^verbatim>\<open>WorkloadGenerator\<close> accepts, \<^verbatim>\<open>generate\<close> returns:
  no draw runs forever and no exception is thrown, given an engine that keeps producing large values
  and a serializer that does not fail on well-formed events.  Every event of the workload passes the
  collector's checks on single events (schema version, producer, clock, positive timestamp, finite
  and in-range payload).  The workload consists of the scheduled events, of which no two have the same producer and sequence
  number, in order of time, each sent never, once or twice, with some disjoint pairs of neighbours swapped; and
  the statistics are exact: they are the number of scheduled events, at most 2000004, of those never sent, of
  those sent twice, and of the swapped pairs.  A probability of zero means never and a million per million always.
\<close>

theorem generation_returns:
  assumes "validate_config config = Inr u" and "lively draw g" and "\<forall>e. event_ok e \<longrightarrow> serialize e \<noteq> None"
  shows "\<exists>wl g' base g1 ns. generate draw serialize config g = Some (Inr (wl, g')) \<and> (\<forall>e \<in> set (wl_events wl). event_ok e) \<and>
    base_events draw config g = Some (Inr (base, g1)) \<and> distinct (map event_name base) \<and>
    length base \<in> {sum_list (event_counts config) + 3, sum_list (event_counts config) + 4} \<and> length base \<le> 2000004 \<and>
    (let es = sort_key event_key base; st = wl_stats wl; f = cfg_faults config in
     length ns = length es \<and> set ns \<subseteq> {0, 1, 2} \<and> swapped (unat (reordered_pairs st)) (copies ns es) (wl_events wl) \<and>
     unat (generated_events st) = length es \<and> unat (dropped_events st) = count_list ns 0 \<and> unat (duplicated_events st) = count_list ns 2 \<and>
     (drop_per_million f = 0 \<longrightarrow> 0 \<notin> set ns) \<and> (kProbabilityScale \<le> drop_per_million f \<longrightarrow> set ns \<subseteq> {0}) \<and>
     (duplicate_per_million f = 0 \<longrightarrow> 2 \<notin> set ns) \<and> (kProbabilityScale \<le> duplicate_per_million f \<longrightarrow> 1 \<notin> set ns) \<and>
     (reorder_per_million f = 0 \<longrightarrow> wl_events wl = copies ns es) \<and>
     (kProbabilityScale \<le> reorder_per_million f \<longrightarrow> unat (reordered_pairs st) = length (copies ns es) div 2))"
proof -
  from generate_parts [OF assms] obtain wl g' base g1 where
    wl: "generate draw serialize config g = Some (Inr (wl, g'))" and ev: "base_events draw config g = Some (Inr (base, g1))" and
    base: "planned config base" and faults: "faults_applied (cfg_faults config) (sort_key event_key base) wl"
    by blast
  have small: "length base \<le> 2000004" by (rule planned_small [OF assms(1) base])
  then have "length (sort_key event_key base) \<le> 2000004" by simp
  from faults_counts [OF faults this] obtain ns where ns: "length ns = length (sort_key event_key base)"
      "swapped (unat (reordered_pairs (wl_stats wl))) (copies ns (sort_key event_key base)) (wl_events wl)" and
    rest: "set ns \<subseteq> {0, 1, 2} \<and> unat (generated_events (wl_stats wl)) = length (sort_key event_key base) \<and>
      unat (dropped_events (wl_stats wl)) = count_list ns 0 \<and> unat (duplicated_events (wl_stats wl)) = count_list ns 2 \<and>
     (drop_per_million (cfg_faults config) = 0 \<longrightarrow> 0 \<notin> set ns) \<and> (kProbabilityScale \<le> drop_per_million (cfg_faults config) \<longrightarrow> set ns \<subseteq> {0}) \<and>
     (duplicate_per_million (cfg_faults config) = 0 \<longrightarrow> 2 \<notin> set ns) \<and> (kProbabilityScale \<le> duplicate_per_million (cfg_faults config) \<longrightarrow> 1 \<notin> set ns) \<and>
     (reorder_per_million (cfg_faults config) = 0 \<longrightarrow> wl_events wl = copies ns (sort_key event_key base)) \<and>
     (kProbabilityScale \<le> reorder_per_million (cfg_faults config) \<longrightarrow>
        unat (reordered_pairs (wl_stats wl)) = length (copies ns (sort_key event_key base)) div 2)"
    by blast
  have "set (wl_events wl) \<subseteq> set base"
    using conjunct1 [OF swapped_mset [OF ns(2)]] set_copies [of ns "sort_key event_key base"] by (metis mset_eq_setD set_sort)
  then have "\<forall>e \<in> set (wl_events wl). event_ok e" using planned_event_ok [OF base] by blast
  then show ?thesis unfolding Let_def
    using wl ev planned_distinct [OF assms(1) base] planned_length [OF base] small ns rest by blast
qed

text \<open>Two seconds of all sensors, with every fault and a drifting clock.\<close>

definition sample_config :: generator_config where
  "sample_config = \<lparr>cfg_seed = 42, cfg_duration = 2000000000, cfg_max_jitter = 0, cfg_clock_drift_ppm = - 25,
     cfg_rates = \<lparr>accelerometer_hz = 100, gyroscope_hz = 100, camera_hz = 30, gps_hz = 5, temperature_hz = 1, fault_monitor_hz = 1\<rparr>,
     cfg_faults = \<lparr>drop_per_million = 0, duplicate_per_million = 0, reorder_per_million = 0\<rparr>\<rparr>"

definition faulty_config :: generator_config where
  "faulty_config = sample_config\<lparr>cfg_max_jitter := 5000,
     cfg_faults := \<lparr>drop_per_million = 10000, duplicate_per_million = 20000, reorder_per_million = 1000000\<rparr>\<rparr>"

lemma sample_config_valid: "validate_config sample_config = Inr ()" "validate_config faulty_config = Inr ()"
  by code_simp+

theorem generation_returns_witness:
  "\<exists>wl g'. generate counting_engine (\<lambda>_. Some []) faulty_config 7 = Some (Inr (wl, g')) \<and> (\<forall>e \<in> set (wl_events wl). event_ok e)"
  using generation_returns [OF sample_config_valid(2) counting_engine_lively, where serialize = "\<lambda>_. Some []" and g = 7] by auto

lemma generated_streams:
  assumes "validate_config config = Inr u" and "lively draw g" and "\<forall>e. event_ok e \<longrightarrow> serialize e \<noteq> None"
    and "cfg_max_jitter config = 0" and "duplicate_per_million (cfg_faults config) = 0" and "reorder_per_million (cfg_faults config) = 0"
  shows "\<exists>wl g'. generate draw serialize config g = Some (Inr (wl, g')) \<and> sorted (map event_key (wl_events wl)) \<and>
    (\<forall>p. \<exists>v. accept_all new_validator (filter (\<lambda>e. producer_id e = p) (wl_events wl)) = Some v) \<and>
    (\<forall>p. drop_per_million (cfg_faults config) = 0 \<longrightarrow>
       map sequence_number (filter (\<lambda>e. producer_id e = p) (wl_events wl)) = map of_nat [0..<length (filter (\<lambda>e. producer_id e = p) (wl_events wl))])"
proof -
  from generate_parts [OF assms(1-3)] obtain wl g' base g1 where
    wl: "generate draw serialize config g = Some (Inr (wl, g'))" and base: "planned config base" and
    faults: "faults_applied (cfg_faults config) (sort_key event_key base) wl"
    by blast
  let ?sorted = "sort_key event_key base"
  have sub: "subseq (wl_events wl) ?sorted" and same: "drop_per_million (cfg_faults config) = 0 \<Longrightarrow> wl_events wl = ?sorted"
    using faults_unordered [OF faults assms(5,6)] by blast+
  have "(\<exists>v. accept_all new_validator (filter (\<lambda>e. producer_id e = p) (wl_events wl)) = Some v)" for p
  proof -
    let ?f = "filter (\<lambda>e. producer_id e = p)"
    have seq: "map sequence_number (?f ?sorted) = map of_nat [0..<length (?f ?sorted)]"
      by (rule planned_stream [OF assms(1) base assms(4)])
    have len: "length (?f ?sorted) \<le> 2000004"
      by (rule order_trans [OF length_filter_le]) (simp add: planned_small [OF assms(1) base])
    have sub': "subseq (?f (wl_events wl)) (?f ?sorted)" using sub by (rule subseq_filter)
    have "sorted_wrt (<) (map sequence_number (?f ?sorted))"
      unfolding seq using len by (auto simp: sorted_wrt_iff_nth_less word_less_nat_alt unat_of_nat_u64)
    then have "sorted_wrt (<) (map sequence_number (?f (wl_events wl)))"
      using sub' by (metis sorted_wrt_subseq subseq_map)
    moreover have "\<forall>e \<in> set (?f (wl_events wl)). event_ok e"
      using planned_event_ok [OF base] subseq_subset [OF sub] by auto
    moreover have "length (?f (wl_events wl)) < 2 ^ 64"
      using list_emb_length [OF sub'] len by simp
    ultimately show ?thesis by (subst accept_all_new_iff) auto
  qed
  moreover have "sorted (map event_key (wl_events wl))"
    using sub by (metis sorted_sort_key sorted_wrt_subseq subseq_map)
  ultimately show ?thesis using wl same planned_stream [OF assms(1) base assms(4)]
    by (intro exI [of _ wl] exI [of _ g']) simp
qed

text \<open>
  C27: Without jitter, duplicates and reordering, the stream of every producer in the generated
  workload passes the collector's stream validation, whatever clock drift and drop probability are
  configured; and without drops its sequence numbers are 0, 1, 2 and so on, with no gap.
\<close>

theorem generated_streams_accepted:
  assumes "validate_config config = Inr u" and "lively draw g" and "\<forall>e. event_ok e \<longrightarrow> serialize e \<noteq> None"
    and "cfg_max_jitter config = 0" and "duplicate_per_million (cfg_faults config) = 0" and "reorder_per_million (cfg_faults config) = 0"
  shows "\<exists>wl g'. generate draw serialize config g = Some (Inr (wl, g')) \<and> sorted (map event_key (wl_events wl)) \<and>
    (\<forall>p. let es = filter (\<lambda>e. producer_id e = p) (wl_events wl) in
       (\<exists>v. accept_all new_validator es = Some v) \<and>
       (drop_per_million (cfg_faults config) = 0 \<longrightarrow> map sequence_number es = map of_nat [0..<length es]))"
  using generated_streams [OF assms] unfolding Let_def by blast

theorem generated_streams_accepted_witness:
  "\<exists>wl g'. generate counting_engine (\<lambda>_. Some []) sample_config 7 = Some (Inr (wl, g')) \<and>
     (\<exists>v. accept_all new_validator (filter (\<lambda>e. producer_id e = ''sim-gps'') (wl_events wl)) = Some v)"
  using generated_streams_accepted [OF sample_config_valid(1) counting_engine_lively, where serialize = "\<lambda>_. Some []" and g = 7]
  by (auto simp: sample_config_def Let_def)

section \<open>Acceptable configurations and the schedule\<close>

lemma valid_config_limits:
  "validate_config config = Inr () \<longleftrightarrow>
      0 < cfg_duration config \<and> cfg_duration config \<le> kMaxDurationNs \<and> 0 \<le> cfg_max_jitter config \<and>
      cfg_max_jitter config \<le> kMaxDurationNs \<and> \<bar>cfg_clock_drift_ppm config\<bar> \<le> 1000000 \<and>
      unat (drop_per_million (cfg_faults config)) \<le> 1000000 \<and> unat (duplicate_per_million (cfg_faults config)) \<le> 1000000 \<and>
      unat (reorder_per_million (cfg_faults config)) \<le> 1000000 \<and>
      list_all (\<lambda>r. unat r \<le> 10000) (rate_list (cfg_rates config)) \<and>
      sum_list (map unat (rate_list (cfg_rates config))) * (nat (cfg_duration config) div 10 ^ 9 + 1) \<le> 2000000"
    (is "?ok \<longleftrightarrow> ?limits")
proof -
  have probability: "validate_probability p name = Inr () \<longleftrightarrow> unat p \<le> 1000000"
      "(\<exists>m. validate_probability p name = Inl m) \<longleftrightarrow> \<not> unat p \<le> 1000000" for p name
    by (auto simp: validate_probability_def word_less_nat_alt)
  show "?ok \<longleftrightarrow> ?limits"
  proof
    assume ?ok
    moreover from this have "unat (drop_per_million (cfg_faults config)) \<le> 1000000"
        "unat (duplicate_per_million (cfg_faults config)) \<le> 1000000" "unat (reorder_per_million (cfg_faults config)) \<le> 1000000"
      using probability by (auto simp: validate_config_def split: if_splits sum.splits)
    ultimately show ?limits using valid_config [of config "()"] by (simp add: list_all_iff total_rate_def)
  next
    assume l: ?limits
    then obtain tot where tot: "add_rates (rate_list (cfg_rates config)) 0 = Inr tot"
      using add_rates_total [of "rate_list (cfg_rates config)" 0] by (auto simp: list_all_iff)
    have "validate_probability p name = Inr ()" if "unat p \<le> 1000000" for p name using probability that by blast
    then show ?ok using l tot event_limit(1) [OF tot] by (simp add: validate_config_def Let_def total_rate_def abs_le_iff not_less)
  qed
qed

text \<open>
  C32: \<^verbatim>\<open>validate_config\<close> accepts exactly the configurations within the documented limits, with the
  rates and the number of events counted without wrap-around; every other configuration makes the
  constructor throw before anything is generated.
\<close>

theorem config_accepted_iff:
  "(validate_config config = Inr () \<longleftrightarrow>
      0 < cfg_duration config \<and> cfg_duration config \<le> kMaxDurationNs \<and> 0 \<le> cfg_max_jitter config \<and>
      cfg_max_jitter config \<le> kMaxDurationNs \<and> \<bar>cfg_clock_drift_ppm config\<bar> \<le> 1000000 \<and>
      unat (drop_per_million (cfg_faults config)) \<le> 1000000 \<and> unat (duplicate_per_million (cfg_faults config)) \<le> 1000000 \<and>
      unat (reorder_per_million (cfg_faults config)) \<le> 1000000 \<and>
      list_all (\<lambda>r. unat r \<le> 10000) (rate_list (cfg_rates config)) \<and>
      sum_list (map unat (rate_list (cfg_rates config))) * (nat (cfg_duration config) div 10 ^ 9 + 1) \<le> 2000000) \<and>
   (validate_config config \<noteq> Inr () \<longleftrightarrow> (\<exists>message. generate_workload draw init serialize config = Some (Inl message) \<and>
      validate_config config = Inl message))"
  using valid_config_limits [of config]
  by (cases "validate_config config") (auto simp: generate_workload_def map_option_case split: option.splits)

text \<open>
  C33: The schedule is exact integer arithmetic: a sensor of rate \<open>r\<close> makes \<open>duration * r div 10 ^ 9\<close>
  events, the \<open>i\<close>th at \<open>i * 10 ^ 9 div r\<close> nanoseconds, strictly increasing and before the end; the
  drifted clock never runs backwards, stays within twice the elapsed time, and is the elapsed time
  plus the share \<open>drift / 10 ^ 6\<close> of it, truncated towards zero.  The products on the way stay
  below \<open>10 ^ 13\<close>, far from the limits of \<^verbatim>\<open>std::int64_t\<close>.
\<close>

theorem schedule_exact:
  assumes "validate_config config = Inr u" and "r \<in> set (rate_list (cfg_rates config))" and "i < j"
    and "j < unat (event_count (cfg_duration config) r)"
  defines "t \<equiv> \<lambda>k. scheduled_time_ns (of_nat k) r" and "drifted \<equiv> \<lambda>e. apply_clock_drift e (cfg_clock_drift_ppm config)"
  shows "unat (event_count (cfg_duration config) r) = nat (cfg_duration config) * unat r div 10 ^ 9 \<and>
    t i = int (i * 10 ^ 9 div unat r) \<and> t i < t j \<and> t j < cfg_duration config \<and>
    drifted (t i) \<le> drifted (t j) \<and> 0 \<le> drifted (t i) \<and> drifted (t j) \<le> 2 * t j \<and>
    drifted (t j) = t j + sgn (cfg_clock_drift_ppm config) * (t j * \<bar>cfg_clock_drift_ppm config\<bar> div 10 ^ 6) \<and>
    \<bar>t j sdiv 1000000 * cfg_clock_drift_ppm config\<bar> \<le> 10 ^ 13 \<and> \<bar>t j smod 1000000 * cfg_clock_drift_ppm config\<bar> \<le> 10 ^ 13"
proof -
  note v = valid_config [OF assms(1)]
  have ti: "t i = int (i * 10 ^ 9 div unat r)" and tj: "t j = int (j * 10 ^ 9 div unat r)" and before: "t j < cfg_duration config"
    using scheduled_in_range [OF assms(1,2)] assms(3,4) by (simp_all add: t_def)
  have n: "unat (event_count (cfg_duration config) r) = nat (cfg_duration config) * unat r div 10 ^ 9"
    using v(6) assms(2) by (intro event_count_unat v(1,2)) blast
  have r: "0 < unat r" "unat r \<le> 10000" using assms(2,4) n v(6) by (cases "unat r = 0"; simp)+
  have "i * 10 ^ 9 + unat r \<le> j * 10 ^ 9" using assms(3) r by simp
  then have "(i * 10 ^ 9 + unat r) div unat r \<le> j * 10 ^ 9 div unat r" by (rule div_le_mono)
  then have lt: "t i < t j" using r(1) by (simp add: ti tj)
  have nn: "0 \<le> t i" "0 \<le> t j" by (simp_all add: ti tj)
  show ?thesis
    using n ti before lt drift_mono [OF nn(1) less_imp_le [OF lt] v(5)] drift_bounds [OF nn(1) v(5)] drift_bounds [OF nn(2) v(5)]
      drift_closed [OF nn(2), of "cfg_clock_drift_ppm config"] drift_no_overflow [OF nn(2) _ v(5)] v(2)
    by (simp add: drifted_def)
qed

theorem schedule_exact_witness:
  "scheduled_time_ns 7 30 = 233333333 \<and> unat (event_count 2000000000 30) = 60"
  using schedule_exact [OF sample_config_valid(1), of 30 7 8] by (simp add: sample_config_def rate_list_def event_count_def)

end
