(* ===== verification/TF_Ordered_Map.thy ===== *)
theory TF_Ordered_Map
  imports TF_Prelude
begin

text \<open>
  \<^verbatim>\<open>std::map\<close>, as the analyzer and the publisher use it: filled through \<^verbatim>\<open>operator[]\<close>, looked up
  with \<^verbatim>\<open>find\<close> and traversed in key order.  A map is the list of its entries in key order.

  The interface is the locale \<open>std_map\<close>; what it is used for here, sorting a sequence of items into
  one accumulator per key, is analysed once against the interface (\<open>find_group\<close>, \<open>entries_group\<close>).
\<close>

lemma filter_other_key [simp]: "k \<notin> key ` set xs \<Longrightarrow> filter (\<lambda>x. key x = k) xs = []"
  by (auto simp: filter_empty_conv)

text \<open>Sorting items by key loses none and counts none twice.\<close>

lemma count_by_key:
  assumes "finite K" and "key ` set xs \<subseteq> K"
  shows "(\<Sum>k\<in>K. length (filter (\<lambda>x. key x = k) xs)) = length xs"
  using assms(2)
proof (induction xs)
  case (Cons x xs)
  have "(\<Sum>k\<in>K. length (filter (\<lambda>y. key y = k) (x # xs))) =
      (\<Sum>k\<in>K. (if k = key x then 1 else 0) + length (filter (\<lambda>y. key y = k) xs))"
    by (intro sum.cong) auto
  then show ?case using Cons assms(1) by (simp add: sum.distrib)
qed simp

lemma count_by_sorted_key:
  "(\<Sum>k\<leftarrow>sorted_list_of_set (key ` set xs). length (filter (\<lambda>x. key x = k) xs)) = length xs"
  using count_by_key [of "key ` set xs" key xs] by (simp add: sum_list_distinct_conv_sum_set)

section \<open>The interface\<close>

locale std_map =
  fixes empty_map :: 'm
    and valid :: "'m \<Rightarrow> bool"
    and lookup :: "'m \<Rightarrow> 'k::linorder \<Rightarrow> 'v option"
    and modify :: "'k \<Rightarrow> ('v \<Rightarrow> 'v) \<Rightarrow> 'v \<Rightarrow> 'm \<Rightarrow> 'm"
    and entries :: "'m \<Rightarrow> ('k \<times> 'v) list"
  assumes valid_empty: "valid empty_map"
    and lookup_empty: "lookup empty_map k = None"
    and valid_modify: "valid m \<Longrightarrow> valid (modify k f d m)"
    and lookup_modify: "valid m \<Longrightarrow> lookup (modify k f d m) k' =
          (if k' = k then Some (f (case lookup m k of None \<Rightarrow> d | Some v \<Rightarrow> v)) else lookup m k')"
    and entries_sorted: "valid m \<Longrightarrow> sorted_wrt (<) (map fst (entries m))"
    and entries_lookup: "valid m \<Longrightarrow> map_of (entries m) = lookup m"
begin

definition group :: "('a \<Rightarrow> 'k) \<Rightarrow> ('a \<Rightarrow> 'v \<Rightarrow> 'v) \<Rightarrow> 'v \<Rightarrow> 'a list \<Rightarrow> 'm \<Rightarrow> 'm" where
  "group key step d xs m = fold (\<lambda>x. modify (key x) (step x) d) xs m"

lemma valid_group: "valid m \<Longrightarrow> valid (group key step d xs m)"
  unfolding group_def by (induction xs arbitrary: m) (simp_all add: valid_modify)

lemma find_group_from:
  "valid m \<Longrightarrow> lookup (group key step d xs m) k =
     (if k \<in> key ` set xs then Some (fold step (filter (\<lambda>x. key x = k) xs) (case lookup m k of None \<Rightarrow> d | Some v \<Rightarrow> v))
      else lookup m k)"
  unfolding group_def by (induction xs arbitrary: m) (auto simp: valid_modify lookup_modify)

lemma find_group:
  "lookup (group key step d xs empty_map) k =
     (if k \<in> key ` set xs then Some (fold step (filter (\<lambda>x. key x = k) xs) d) else None)"
  using find_group_from [OF valid_empty, of key step d xs k] by (simp add: lookup_empty)

lemma keys_unique: "valid m \<Longrightarrow> map fst (entries m) = sorted_list_of_set (dom (lookup m))"
proof -
  assume v: "valid m"
  have "set (map fst (entries m)) = dom (lookup m)" using entries_lookup [OF v] by (metis dom_map_of_conv_image_fst set_map)
  then show ?thesis using entries_sorted [OF v] by (metis sorted_list_of_set.idem_if_sorted_distinct strict_sorted_iff)
qed

lemma entries_eqI:
  assumes v: "valid m" and look: "\<And>k. lookup m k = (if k \<in> K then Some (g k) else None)"
  shows "entries m = map (\<lambda>k. (k, g k)) (sorted_list_of_set K)"
proof -
  have "dom (lookup m) = K" by (auto simp: look split: if_splits)
  then have keys: "map fst (entries m) = sorted_list_of_set K" using keys_unique [OF v] by simp
  have "distinct (map fst (entries m))" using entries_sorted [OF v] by (simp add: strict_sorted_iff)
  then have "(k, w) \<in> set (entries m) \<Longrightarrow> lookup m k = Some w" for k w using entries_lookup [OF v] by (metis map_of_is_SomeI)
  then have "\<forall>(k, w) \<in> set (entries m). w = g k" by (force simp: look split: if_splits)
  then have "entries m = map (\<lambda>k. (k, g k)) (map fst (entries m))" by (subst map_map, intro sym [OF map_idI]) auto
  then show ?thesis by (simp only: keys)
qed

text \<open>The entries, in key order: each key with its items folded in their original order.\<close>

lemma entries_group:
  "entries (group key step d xs empty_map) =
     map (\<lambda>k. (k, fold step (filter (\<lambda>x. key x = k) xs) d)) (sorted_list_of_set (key ` set xs))"
  by (rule entries_eqI [OF valid_group [OF valid_empty] find_group])

end

section \<open>The map as an ordered list\<close>

fun ord_update :: "'k::linorder \<Rightarrow> ('v \<Rightarrow> 'v) \<Rightarrow> 'v \<Rightarrow> ('k \<times> 'v) list \<Rightarrow> ('k \<times> 'v) list" where
  "ord_update k f d [] = [(k, f d)]"
| "ord_update k f d ((k', v) # m) =
     (if k < k' then (k, f d) # (k', v) # m
      else if k = k' then (k', f v) # m
      else (k', v) # ord_update k f d m)"

definition ord_valid :: "('k::linorder \<times> 'v) list \<Rightarrow> bool" where
  "ord_valid m \<longleftrightarrow> sorted_wrt (<) (map fst m)"

lemma ord_update_keys: "fst ` set (ord_update k f d m) = insert k (fst ` set m)"
  by (induction m rule: ord_update.induct) auto

lemma ord_update_valid: "ord_valid m \<Longrightarrow> ord_valid (ord_update k f d m)"
  unfolding ord_valid_def
proof (induction k f d m rule: ord_update.induct)
  case (2 k f d k' v m)
  have "\<forall>x \<in> fst ` set (ord_update k f d m). k' < x" if "k' < k"
    unfolding ord_update_keys using that 2 by auto
  then show ?case using 2 by auto
qed simp

lemma ord_update_lookup:
  "ord_valid m \<Longrightarrow> map_of (ord_update k f d m) k' =
     (if k' = k then Some (f (case map_of m k of None \<Rightarrow> d | Some v \<Rightarrow> v)) else map_of m k')"
  unfolding ord_valid_def
proof (induction k f d m rule: ord_update.induct)
  case (2 k f d k'' v m)
  have "map_of m k = None" if "k < k''" using that 2(2) by (force simp: map_of_eq_None_iff)
  then show ?case using 2 by auto
qed simp

interpretation om: std_map "[]" ord_valid map_of ord_update "\<lambda>m. m"
  by unfold_locales (simp_all add: ord_update_valid ord_update_lookup, simp_all add: ord_valid_def)

end
