(* ===== verification/TF_Publisher.thy ===== *)
theory TF_Publisher
  imports TF_Ordered_Map TF_Collector "HOL-Library.List_Lexorder" "HOL-Library.Char_ord"
begin

text \<open>
  \<^verbatim>\<open>src/generator/workload_publisher.cpp\<close>: one client stream per producer.  The gRPC client library
  is not part of the repository: \<open>online\<close> is the answer of \<^verbatim>\<open>WaitForConnected\<close>, and an \<open>rpc\<close> tells
  for each producer which of the calls of \<^verbatim>\<open>Write\<close> succeed, and the status and summary the stream ends
  with.  The threads write to disjoint entries of the report, so their order does not matter, and the
  report is a map over the producers.
\<close>

section \<open>Results\<close>

record producer_publish_result =
  pp_producer_id :: string
  pp_attempted_events :: u64
  pp_written_events :: u64
  pp_accepted_events :: u64
  pp_sequence_gaps :: u64
  pp_grpc_status_code :: int
  pp_error_message :: string

definition empty_publish_result :: producer_publish_result where
  "empty_publish_result = \<lparr>pp_producer_id = [], pp_attempted_events = 0, pp_written_events = 0, pp_accepted_events = 0,
     pp_sequence_gaps = 0, pp_grpc_status_code = 0, pp_error_message = []\<rparr>"

text \<open>Values of \<^verbatim>\<open>grpc::StatusCode\<close>.\<close>

abbreviation (input) StatusCode_OK :: int where "StatusCode_OK \<equiv> 0"
abbreviation (input) StatusCode_UNAVAILABLE :: int where "StatusCode_UNAVAILABLE \<equiv> 14"

definition result_succeeded :: "producer_publish_result \<Rightarrow> bool" where
  "result_succeeded result = (pp_grpc_status_code result = StatusCode_OK \<and>
     pp_written_events result = pp_attempted_events result \<and> pp_accepted_events result = pp_attempted_events result)"

text \<open>The members of \<^verbatim>\<open>PublishReport\<close>, whose only field is the list of results.\<close>

definition report_succeeded :: "producer_publish_result list \<Rightarrow> bool" where
  "report_succeeded producers = list_all result_succeeded producers"

definition report_attempted_events :: "producer_publish_result list \<Rightarrow> u64" where
  "report_attempted_events producers = foldl (\<lambda>sum result. sum + pp_attempted_events result) 0 producers"

definition report_accepted_events :: "producer_publish_result list \<Rightarrow> u64" where
  "report_accepted_events producers = foldl (\<lambda>sum result. sum + pp_accepted_events result) 0 producers"

section \<open>Grouping\<close>

definition group_by_producer :: "telemetry_event list \<Rightarrow> (string \<times> telemetry_event list) list" where
  "group_by_producer events = fold (\<lambda>event. ord_update (producer_id event) (\<lambda>es. es @ [event]) []) events []"

section \<open>Publishing\<close>

record workload_publisher_config =
  wp_target :: string
  wp_connect_timeout_ms :: int

definition new_publisher :: "workload_publisher_config \<Rightarrow> string + workload_publisher_config" where
  "new_publisher config =
     (if wp_target config = [] then Inl ''publisher target cannot be empty''
      else if wp_connect_timeout_ms config \<le> 0 then Inl ''connect timeout must be positive''
      else Inr config)"

text \<open>What the client library makes of one stream.\<close>

record rpc_stream =
  rs_write_ok :: "nat \<Rightarrow> bool"
  rs_status_code :: int
  rs_error_message :: string
  rs_summary :: stream_summary

fun write_events :: "(nat \<Rightarrow> bool) \<Rightarrow> nat \<Rightarrow> telemetry_event list \<Rightarrow> u64 \<Rightarrow> u64" where
  "write_events ok i [] written = written"
| "write_events ok i (event # events) written =
     (if \<not> ok i then written else write_events ok (i + 1) events (written + 1))"

definition publish_producer :: "(string \<Rightarrow> rpc_stream) \<Rightarrow> string \<times> telemetry_event list \<Rightarrow> producer_publish_result" where
  "publish_producer rpc producer =
     (case producer of (name, events) \<Rightarrow>
        let stream = rpc name;
            result = empty_publish_result\<lparr>pp_producer_id := name, pp_attempted_events := of_nat (length events),
              pp_written_events := write_events (rs_write_ok stream) 0 events 0,
              pp_grpc_status_code := rs_status_code stream, pp_error_message := rs_error_message stream\<rparr>
        in if rs_status_code stream = StatusCode_OK
           then result\<lparr>pp_accepted_events := summary_accepted_events (rs_summary stream),
                       pp_sequence_gaps := summary_sequence_gaps (rs_summary stream)\<rparr>
           else result)"

definition publish :: "bool \<Rightarrow> (string \<Rightarrow> rpc_stream) \<Rightarrow> telemetry_event list \<Rightarrow> producer_publish_result list" where
  "publish online rpc events =
     (let producer_events = group_by_producer events
      in if producer_events = [] then []
         else if \<not> online
         then map (\<lambda>(name, events). empty_publish_result\<lparr>pp_producer_id := name,
                pp_attempted_events := of_nat (length events), pp_grpc_status_code := StatusCode_UNAVAILABLE,
                pp_error_message := ''collector connection timed out''\<rparr>) producer_events
         else map (publish_producer rpc) producer_events)"

end
