(* ===== verification/TF_Publishing.thy ===== *)
theory TF_Publishing
  imports TF_Publisher TF_Generation
begin

text \<open>
  What a publish report says: which events it covers, and what success means when the streams are
  served by the collector of \<open>TF_Collector\<close>.
\<close>

section \<open>Groups\<close>

definition producer_names :: "telemetry_event list \<Rightarrow> string list" where
  "producer_names es = sorted_list_of_set (producer_id ` set es)"

lemma fold_snoc: "fold (\<lambda>e acc. acc @ [e]) es acc = acc @ es"
  by (induction es arbitrary: acc) auto

lemma group_by_producer_closed:
  "group_by_producer es = map (\<lambda>q. (q, filter (\<lambda>e. producer_id e = q) es)) (producer_names es)"
proof -
  have "group_by_producer es = om.group producer_id (\<lambda>e acc. acc @ [e]) [] es []"
    by (simp add: group_by_producer_def om.group_def)
  then show ?thesis by (simp add: om.entries_group fold_snoc producer_names_def)
qed

lemma group_nonempty: "q \<in> set (producer_names es) \<Longrightarrow> filter (\<lambda>e. producer_id e = q) es \<noteq> []"
  by (auto simp: producer_names_def filter_empty_conv)

lemma producer_names_empty: "producer_names es = [] \<longleftrightarrow> es = []"
  by (simp add: producer_names_def)

section \<open>One producer\<close>

lemma write_events_exact: "write_events ok i es w = w + of_nat (length (takeWhile ok [i..<i + length es]))"
proof (induction es arbitrary: i w)
  case (Cons e es)
  then show ?case using upt_conv_Cons [of i "i + length (e # es)"] by (simp add: add_ac del: upt_Suc)
qed simp

lemma write_events_all: "(\<And>i. ok i) \<Longrightarrow> write_events ok i es w = w + of_nat (length es)"
  by (induction es arbitrary: i w) (auto simp: add_ac)

section \<open>Totals\<close>

lemma foldl_sum: "foldl (\<lambda>sum x. sum + f x) c xs = c + sum_list (map f xs)" for c :: "'a::comm_monoid_add"
  by (induction xs arbitrary: c) (simp_all add: add_ac)

lemma group_total:
  "(\<Sum>q\<leftarrow>producer_names es. of_nat (length (filter (\<lambda>e. producer_id e = q) es)) :: u64) = of_nat (length es)"
proof -
  have "(\<Sum>q\<leftarrow>qs. of_nat (f q) :: u64) = of_nat (\<Sum>q\<leftarrow>qs. f q)" for qs and f :: "string \<Rightarrow> nat"
    by (induction qs) simp_all
  then show ?thesis using count_by_sorted_key [of producer_id es] by (simp add: producer_names_def)
qed

lemma publish_closed:
  "publish online rpc es = map (\<lambda>q. let mine = filter (\<lambda>e. producer_id e = q) es in
     if online then publish_producer rpc (q, mine)
     else empty_publish_result\<lparr>pp_producer_id := q, pp_attempted_events := of_nat (length mine),
       pp_grpc_status_code := StatusCode_UNAVAILABLE, pp_error_message := ''collector connection timed out''\<rparr>) (producer_names es)"
  by (auto simp: publish_def Let_def group_by_producer_closed)

lemma publish_producer_fields:
  "pp_producer_id (publish_producer rpc (q, es)) = q"
  "pp_attempted_events (publish_producer rpc (q, es)) = of_nat (length es)"
  "pp_written_events (publish_producer rpc (q, es)) = write_events (rs_write_ok (rpc q)) 0 es 0"
  "pp_grpc_status_code (publish_producer rpc (q, es)) = rs_status_code (rpc q)"
  "pp_error_message (publish_producer rpc (q, es)) = rs_error_message (rpc q)"
  "pp_accepted_events (publish_producer rpc (q, es)) =
     (if rs_status_code (rpc q) = StatusCode_OK then summary_accepted_events (rs_summary (rpc q)) else 0)"
  "pp_sequence_gaps (publish_producer rpc (q, es)) =
     (if rs_status_code (rpc q) = StatusCode_OK then summary_sequence_gaps (rs_summary (rpc q)) else 0)"
  by (simp_all add: publish_producer_def Let_def empty_publish_result_def)

text \<open>
  C30: The report of \<^verbatim>\<open>publish\<close> covers the whole workload: one entry per producer, in order, whose
  attempted events are that producer's events and add up to the workload.  The written events of an entry are
  the writes before the first one that fails, so never more than the attempted ones; status and message are those the stream ended with, and
  accepted events and gaps are those of the collector's summary if the status is \<^verbatim>\<open>OK\<close>, and none otherwise.
  Without a connection every entry says that nothing was written or accepted, and that the collector was
  unavailable, and a workload that is not empty is never reported as published.  A report that succeeded has accepted as
  many events as the workload has.
\<close>

theorem publish_covers_workload:
  fixes rpc :: "string \<Rightarrow> rpc_stream" and online :: bool
  assumes "length es < 2 ^ 64"
  defines "report \<equiv> publish online rpc es"
  shows "map pp_producer_id report = sorted_list_of_set (producer_id ` set es) \<and>
    list_all (\<lambda>r. let mine = filter (\<lambda>e. producer_id e = pp_producer_id r) es; stream = rpc (pp_producer_id r) in
      unat (pp_attempted_events r) = length mine \<and> pp_written_events r \<le> pp_attempted_events r \<and>
      (if online
       then unat (pp_written_events r) = length (takeWhile (rs_write_ok stream) [0..<length mine]) \<and>
         pp_grpc_status_code r = rs_status_code stream \<and> pp_error_message r = rs_error_message stream \<and>
         pp_accepted_events r = (if rs_status_code stream = StatusCode_OK then summary_accepted_events (rs_summary stream) else 0) \<and>
         pp_sequence_gaps r = (if rs_status_code stream = StatusCode_OK then summary_sequence_gaps (rs_summary stream) else 0)
       else pp_written_events r = 0 \<and> pp_accepted_events r = 0 \<and> pp_sequence_gaps r = 0 \<and>
         pp_grpc_status_code r = StatusCode_UNAVAILABLE \<and> pp_error_message r = ''collector connection timed out'')) report \<and>
    unat (report_attempted_events report) = length es \<and>
    (\<not> online \<longrightarrow> (report_succeeded report \<longleftrightarrow> es = []) \<and> report_accepted_events report = 0) \<and>
    (report_succeeded report \<longrightarrow> unat (report_accepted_events report) = length es)"
    (is "_ \<and> list_all ?entry report \<and> _")
proof -
  let ?mine = "\<lambda>q. filter (\<lambda>e. producer_id e = q) es"
  have small: "length (?mine q) < 2 ^ 64" for q using assms(1) by (rule le_less_trans [OF length_filter_le])
  then have u: "unat (of_nat (length (?mine q)) :: u64) = length (?mine q)" for q by (rule unat_of_nat_u64)
  have w: "unat (write_events ok 0 (?mine q) 0) = length (takeWhile ok [0..<length (?mine q)])"
      "write_events ok 0 (?mine q) 0 \<le> of_nat (length (?mine q))" for ok q
  proof -
    have le: "length (takeWhile ok [0..<length (?mine q)]) \<le> length (?mine q)"
      using length_takeWhile_le [of ok "[0..<length (?mine q)]"] by simp
    then show "unat (write_events ok 0 (?mine q) 0) = length (takeWhile ok [0..<length (?mine q)])"
      using small [of q] by (simp add: write_events_exact unat_of_nat_u64)
    with le u show "write_events ok 0 (?mine q) 0 \<le> of_nat (length (?mine q))" by (simp add: word_le_nat_alt)
  qed
  have attempted: "map pp_attempted_events report = map (\<lambda>q. of_nat (length (?mine q))) (producer_names es)"
    by (simp add: report_def publish_closed Let_def publish_producer_fields)
  have ids: "map pp_producer_id report = producer_names es"
    by (cases online) (simp_all add: report_def publish_closed Let_def publish_producer_fields comp_def)
  have total_attempted: "report_attempted_events report = of_nat (length es)"
    by (simp add: report_attempted_events_def foldl_sum attempted group_total)
  have entries: "list_all ?entry report"
    by (cases online) (simp_all add: report_def publish_closed Let_def list.pred_map comp_def publish_producer_fields u w list_all_iff empty_publish_result_def)
  have accepted: "unat (report_accepted_events report) = length es" if "report_succeeded report"
  proof -
    have "map pp_accepted_events report = map pp_attempted_events report"
      using that by (auto simp: report_succeeded_def result_succeeded_def list_all_iff)
    then show ?thesis using assms(1) by (simp add: report_accepted_events_def foldl_sum attempted group_total unat_of_nat_u64)
  qed
  have unconnected: "(report_succeeded report \<longleftrightarrow> es = []) \<and> report_accepted_events report = 0" if "\<not> online"
  proof -
    have "sum_list (map pp_accepted_events report) = 0"
      using that by (simp add: report_def publish_closed Let_def comp_def empty_publish_result_def)
    moreover have "report_succeeded report \<longleftrightarrow> producer_names es = []"
      using that by (cases "producer_names es")
        (simp_all add: report_def publish_closed Let_def report_succeeded_def result_succeeded_def empty_publish_result_def)
    ultimately show ?thesis by (simp add: report_accepted_events_def foldl_sum producer_names_empty)
  qed
  show ?thesis using ids entries total_attempted accepted unconnected assms(1)
    by (simp add: producer_names_def unat_of_nat_u64)
qed

text \<open>Two events of one producer whose second write fails.\<close>

definition sample_rpc :: "string \<Rightarrow> rpc_stream" where
  "sample_rpc q = \<lparr>rs_write_ok = (\<lambda>i. i < 1), rs_status_code = 3, rs_error_message = ''stale'', rs_summary = empty_summary\<rparr>"

theorem publish_covers_workload_witness:
  "unat (report_attempted_events (publish True sample_rpc [sample_event 7 100, sample_event 7 200])) = 2"
  using publish_covers_workload [of "[sample_event 7 100, sample_event 7 200]" True sample_rpc] by simp

section \<open>Streams served by the collector\<close>

fun grpc_code :: "status_code \<Rightarrow> int" where
  "grpc_code GrpcOK = 0"
| "grpc_code GrpcInvalidArgument = 3"
| "grpc_code GrpcResourceExhausted = 8"
| "grpc_code GrpcUnavailable = 14"

text \<open>
  A stream is served when the collector has run on the events followed by the end of the stream, and
  the client library hands on the status and the summary; writes only fail on a stream that does not
  end with \<^verbatim>\<open>OK\<close>.
\<close>

definition served :: "(collected_event \<Rightarrow> 's \<Rightarrow> sink_result \<times> 's) \<Rightarrow> telemetry_event list \<Rightarrow> rpc_stream \<Rightarrow>
    (collected_event \<times> sink_result) list \<Rightarrow> bool" where
  "served offer es stream calls \<longleftrightarrow> (\<exists>inputs s r s' st. map si_message inputs = map Some es @ [None] \<and>
     StreamTelemetry offer inputs (new_reactor empty_summary) s = (calls, r, s') \<and> sr_finished r = Some st \<and>
     rs_status_code stream = grpc_code (gs_code st) \<and> rs_summary stream = sr_response r \<and>
     (gs_code st = GrpcOK \<longrightarrow> (\<forall>i. rs_write_ok stream i)))"

lemma grpc_code_OK: "grpc_code c = 0 \<longleftrightarrow> c = GrpcOK"
  by (cases c) simp_all

lemma served_OK:
  assumes "served offer es stream calls" and "rs_status_code stream = StatusCode_OK"
  shows "\<exists>v. accept_all new_validator es = Some v \<and> rs_summary stream = populate_summary v empty_summary"
    and "map (ce_event \<circ> fst) calls = es" and "all_accepted calls" and "rs_write_ok stream i"
proof -
  obtain inputs s r s' st where run: "map si_message inputs = map Some es @ [None]"
      "StreamTelemetry offer inputs (new_reactor empty_summary) s = (calls, r, s')" "sr_finished r = Some st"
      "rs_status_code stream = grpc_code (gs_code st)" "rs_summary stream = sr_response r"
      "gs_code st = GrpcOK \<longrightarrow> (\<forall>i. rs_write_ok stream i)"
    using assms(1) by (auto simp: served_def)
  have ok: "gs_code st = GrpcOK" using run(4) assms(2) by (simp add: grpc_code_OK)
  then show "rs_write_ok stream i" using run(6) by simp
  have course: "stream_course (new_reactor empty_summary) inputs calls r"
    by (rule stream_course_run [OF run(2)]) (simp_all add: new_reactor_simps)
  have ends: "all_accepted calls" "length calls < length inputs" "si_message (inputs ! length calls) = None"
    using course run(3) ok by (simp_all add: stream_course_def)
  then show "all_accepted calls" by simp
  have len: "length inputs = Suc (length es)" using arg_cong [OF run(1), of length] by simp
  have "map si_message inputs ! length calls = None" using ends(2,3) by simp
  then have n: "length calls = length es"
    unfolding run(1) using ends(2) len by (cases "length calls < length es") (simp_all add: nth_append)
  have "map (ce_event \<circ> fst) calls = map ce_event (map collected_at (take (length calls) inputs))"
    using course by (simp add: stream_course_def flip: map_map)
  also have "\<dots> = map the (take (length es) (map si_message inputs))" by (simp add: collected_at_def n take_map)
  finally show events: "map (ce_event \<circ> fst) calls = es" unfolding run(1) by simp
  show "\<exists>v. accept_all new_validator es = Some v \<and> rs_summary stream = populate_summary v empty_summary"
    using course run(3,5) ok by (simp add: stream_course_def events new_reactor_simps)
qed

lemma accept_all_count: "accept_all v es = Some w \<Longrightarrow> sv_accepted_events w = sv_accepted_events v + of_nat (length es)"
proof (induction es arbitrary: v)
  case (Cons e es)
  then have "accept_all (record_event v e) es = Some w" by (simp only: accept_all_Cons_iff)
  then show ?case using Cons.IH [of "record_event v e"] by (simp add: record_event_def Let_def)
qed simp

lemma served_entry:
  assumes "served offer es stream calls" and "rpc q = stream"
  shows "result_succeeded (publish_producer rpc (q, es)) \<longleftrightarrow> rs_status_code stream = StatusCode_OK"
proof
  assume ok: "rs_status_code stream = StatusCode_OK"
  obtain v where v: "accept_all new_validator es = Some v" "rs_summary stream = populate_summary v empty_summary"
    using served_OK(1) [OF assms(1) ok] by blast
  have "write_events (rs_write_ok stream) 0 es 0 = of_nat (length es)"
    using write_events_all [of "rs_write_ok stream"] served_OK(4) [OF assms(1) ok] by simp
  then show "result_succeeded (publish_producer rpc (q, es))"
    using ok v accept_all_count [OF v(1)] assms(2)
    by (simp add: result_succeeded_def publish_producer_fields populate_summary_def new_validator_def)
qed (simp add: result_succeeded_def publish_producer_fields assms(2))

text \<open>
  C14: Publishing tells the truth.  When every stream is served by the collector, the report succeeded
  exactly if every stream ended with \<^verbatim>\<open>OK\<close>; and an entry that succeeded means that the collector
  validated all events of that producer as one stream, offered each of them to the sink, once and in
  order, and the sink accepted every one.
\<close>

theorem publish_success_means_delivered:
  assumes "\<And>q. served offer (filter (\<lambda>e. producer_id e = q) es) (rpc q) (calls q)"
  defines "report \<equiv> publish True rpc es"
  shows "(report_succeeded report \<longleftrightarrow> list_all (\<lambda>q. rs_status_code (rpc q) = StatusCode_OK) (sorted_list_of_set (producer_id ` set es))) \<and>
    (\<forall>r \<in> set report. result_succeeded r \<longrightarrow> (let mine = filter (\<lambda>e. producer_id e = pp_producer_id r) es; served_calls = calls (pp_producer_id r) in
       map (ce_event \<circ> fst) served_calls = mine \<and> all_accepted served_calls \<and>
       (\<exists>v. accept_all new_validator mine = Some v \<and> pp_sequence_gaps r = sv_sequence_gaps v)))"
proof -
  let ?mine = "\<lambda>q. filter (\<lambda>e. producer_id e = q) es"
  have report: "report = map (\<lambda>q. publish_producer rpc (q, ?mine q)) (producer_names es)"
    by (simp add: report_def publish_closed Let_def)
  have entry: "result_succeeded (publish_producer rpc (q, ?mine q)) \<longleftrightarrow> rs_status_code (rpc q) = StatusCode_OK" for q
    using served_entry [OF assms(1) refl] .
  have "map (ce_event \<circ> fst) (calls q) = ?mine q \<and> all_accepted (calls q) \<and>
      (\<exists>v. accept_all new_validator (?mine q) = Some v \<and> pp_sequence_gaps (publish_producer rpc (q, ?mine q)) = sv_sequence_gaps v)"
    if "rs_status_code (rpc q) = StatusCode_OK" for q
    using served_OK(1-3) [OF assms(1) [of q] that] that by (auto simp: publish_producer_fields populate_summary_def)
  then show ?thesis
    by (simp add: report report_succeeded_def list.pred_map comp_def entry producer_names_def publish_producer_fields Let_def)
qed

section \<open>Generate and publish\<close>

lemma served_valid:
  assumes "map si_message inputs = map Some es @ [None]" and "StreamTelemetry offer inputs r s = (calls, r', s')"
    and "sr_reading r" and "accept_all (sr_validator r) es = Some v" and "\<And>e s. fst (offer e s) = SinkAccepted"
  shows "map_option gs_code (sr_finished r') = Some GrpcOK"
  using assms(1-4)
proof (induction es arbitrary: inputs r s calls)
  case Nil
  then obtain i where i: "inputs = [i]" "si_message i = None" by (auto simp: map_eq_Cons_conv)
  then show ?case using Nil by (auto simp: grpc_read_def OnReadDone_def Finish_def Let_def)
next
  case (Cons e es)
  then obtain i is' where i: "inputs = i # is'" "si_message i = Some e" "map si_message is' = map Some es @ [None]"
    by (auto simp: map_eq_Cons_conv)
  have acc: "accepted (fst (accept (sr_validator r) e))" "accept_all (snd (accept (sr_validator r) e)) es = Some v"
    using Cons.prems(4) by (auto split: prod.splits if_splits)
  obtain call r1 s1 where one: "grpc_read offer i r s = (call, r1, s1)" by (metis prod_cases3)
  obtain x s2 where off: "offer \<lparr>ce_event = e, ce_arrival_ns = si_now i\<rparr> (si_others i s) = (SinkAccepted, s2)"
    using assms(5) by (metis surj_pair fst_conv)
  have r1: "sr_reading r1" "sr_validator r1 = snd (accept (sr_validator r) e)"
    using one acc(1) off i(2) by (auto simp: grpc_read_def OnReadDone_def StartRead_def Let_def split: prod.splits)
  obtain calls1 where "StreamTelemetry offer is' r1 s1 = (calls1, r', s')"
    using Cons.prems(2,3) one i(1) by (auto split: prod.splits)
  then show ?case using Cons.IH [OF i(3)] r1 acc(2) by simp
qed

lemma gaps_of_summary: "summary_sequence_gaps (populate_summary v s) = sv_sequence_gaps v"
  by (simp add: populate_summary_def)

lemma served_status:
  assumes "served offer es stream calls" and "accept_all new_validator es = Some v" and "\<And>e s. fst (offer e s) = SinkAccepted"
  shows "rs_status_code stream = StatusCode_OK"
  using assms(1) served_valid [OF _ _ _ _ assms(3), where v = v and es = es] assms(2)
  by (fastforce simp: served_def new_reactor_simps)

lemma consecutive_no_gaps:
  assumes "accept_all u es = Some v" and "map sequence_number es = map of_nat [k..<k + length es]"
    and "sv_accepted_events u = 0 \<or> sv_last_sequence_number u = of_nat k - 1"
  shows "sv_sequence_gaps v = sv_sequence_gaps u"
  using assms
proof (induction es arbitrary: u k)
  case (Cons e es)
  have rest: "accept_all (record_event u e) es = Some v" using Cons.prems(1) by (simp only: accept_all_Cons_iff)
  have seq: "sequence_number e = of_nat k" "map sequence_number es = map of_nat [Suc k..<Suc k + length es]"
    using Cons.prems(2) upt_conv_Cons [of k "k + length (e # es)"] by (simp_all del: upt_Suc)
  have "sv_sequence_gaps v = sv_sequence_gaps (record_event u e)"
    by (rule Cons.IH [OF rest seq(2)]) (simp add: record_event_def Let_def seq(1))
  then show ?case using Cons.prems(3) seq(1) by (auto simp: record_event_def Let_def)
qed simp

theorem publish_success_means_delivered_witness:
  "\<exists>rpc calls. report_succeeded (publish True rpc [sample_event 7 100]) \<and> served (\<lambda>_ s. (SinkAccepted, s :: nat)) [sample_event 7 100] (rpc ''probe'') (calls ''probe'')"
proof -
  let ?offer = "\<lambda>_ s. (SinkAccepted, s :: nat)"
  let ?mine = "\<lambda>q. filter (\<lambda>e. producer_id e = q) [sample_event 7 100]"
  have run: "\<exists>stream calls. served ?offer es stream calls \<and> rs_status_code stream = 0" if "es = [] \<or> es = [sample_event 7 100]" for es
  proof -
    let ?i = "sample_stream (map Some es @ [None]) :: nat stream_input list"
    obtain calls r s' where run: "StreamTelemetry ?offer ?i (new_reactor empty_summary) 0 = (calls, r, s')" by (metis prod_cases3)
    have msgs: "map si_message ?i = map Some es @ [None]" by (simp add: sample_stream_def)
    have "accepted (fst (accept new_validator (sample_event 7 100)))"
      using event_ok_sample [of 100 7] by (simp add: accept_accepted_iff new_validator_continues)
    then have "\<exists>v. accept_all new_validator es = Some v" using that by (auto split: prod.splits)
    then have "map_option gs_code (sr_finished r) = Some GrpcOK"
      using served_valid [OF msgs run] by (auto simp: new_reactor_simps)
    then obtain st where "sr_finished r = Some st" "gs_code st = GrpcOK" by auto
    with run msgs have "served ?offer es \<lparr>rs_write_ok = \<lambda>_. True, rs_status_code = 0, rs_error_message = [], rs_summary = sr_response r\<rparr> calls"
      unfolding served_def by (intro exI conjI) auto
    then show ?thesis by (intro exI conjI) auto
  qed
  have "\<forall>q. \<exists>stream calls. served ?offer (?mine q) stream calls \<and> rs_status_code stream = 0"
    using run by (auto simp: sample_event_def)
  then obtain rpc calls where rpc: "\<And>q. served ?offer (?mine q) (rpc q) (calls q)" "\<And>q. rs_status_code (rpc q) = 0" by metis
  have "report_succeeded (publish True rpc [sample_event 7 100])"
    using publish_success_means_delivered [OF rpc(1)] rpc(2) by (simp add: list_all_iff)
  moreover have "served ?offer [sample_event 7 100] (rpc ''probe'') (calls ''probe'')"
    using rpc(1) [of "''probe''"] by (simp add: sample_event_def)
  ultimately show ?thesis by blast
qed

text \<open>
  C29: The generator's deterministic workload survives the whole way.  A workload generated without
  jitter, duplicates and reordering, published to collectors whose sinks have room, is published
  successfully: all attempted events are accepted, as many as the workload has, whatever the drift and
  the drop probability; and without drops no producer is told of a gap.
\<close>

theorem generated_workload_published:
  assumes "validate_config config = Inr u" and "lively draw g" and "\<forall>e. event_ok e \<longrightarrow> serialize e \<noteq> None"
    and "cfg_max_jitter config = 0" and "duplicate_per_million (cfg_faults config) = 0" and "reorder_per_million (cfg_faults config) = 0"
    and "\<And>e s. fst (offer e s) = SinkAccepted"
  shows "\<exists>wl g'. generate draw serialize config g = Some (Inr (wl, g')) \<and>
    (\<forall>rpc calls. (\<forall>q. served offer (filter (\<lambda>e. producer_id e = q) (wl_events wl)) (rpc q) (calls q)) \<longrightarrow>
       report_succeeded (publish True rpc (wl_events wl)) \<and>
       (drop_per_million (cfg_faults config) = 0 \<longrightarrow> (\<forall>r \<in> set (publish True rpc (wl_events wl)). pp_sequence_gaps r = 0)))"
proof -
  obtain wl g' where wl: "generate draw serialize config g = Some (Inr (wl, g'))"
    and streams: "\<And>p. \<exists>v. accept_all new_validator (filter (\<lambda>e. producer_id e = p) (wl_events wl)) = Some v"
    and seq: "\<And>p. drop_per_million (cfg_faults config) = 0 \<Longrightarrow>
      map sequence_number (filter (\<lambda>e. producer_id e = p) (wl_events wl)) = map of_nat [0..<length (filter (\<lambda>e. producer_id e = p) (wl_events wl))]"
    using generated_streams [OF assms(1-6)] by blast
  have "report_succeeded (publish True rpc (wl_events wl)) \<and>
       (drop_per_million (cfg_faults config) = 0 \<longrightarrow> (\<forall>r \<in> set (publish True rpc (wl_events wl)). pp_sequence_gaps r = 0))"
    if served: "\<forall>q. served offer (filter (\<lambda>e. producer_id e = q) (wl_events wl)) (rpc q) (calls q)" for rpc calls
  proof -
    let ?mine = "\<lambda>q. filter (\<lambda>e. producer_id e = q) (wl_events wl)"
    have report: "publish True rpc (wl_events wl) = map (\<lambda>q. publish_producer rpc (q, ?mine q)) (producer_names (wl_events wl))"
      by (simp add: publish_closed Let_def)
    have ok: "rs_status_code (rpc q) = StatusCode_OK" for q
      using served_status [OF spec [OF served] _ assms(7)] streams by blast
    have "sv_sequence_gaps v = 0" if "drop_per_million (cfg_faults config) = 0" "accept_all new_validator (?mine q) = Some v" for q v
      using consecutive_no_gaps [OF that(2), of 0] seq [OF that(1)] by (simp add: new_validator_def)
    moreover have "\<exists>v. accept_all new_validator (?mine q) = Some v \<and> rs_summary (rpc q) = populate_summary v empty_summary" for q
      by (rule served_OK(1) [OF spec [OF served] ok])
    ultimately have "drop_per_million (cfg_faults config) = 0 \<Longrightarrow> pp_sequence_gaps (publish_producer rpc (q, ?mine q)) = 0" for q
      by (metis (no_types, lifting) publish_producer_fields(7) gaps_of_summary)
    moreover have "result_succeeded (publish_producer rpc (q, ?mine q))" for q
      using served_entry [where rpc = rpc and q = q, OF spec [OF served] refl] ok by blast
    ultimately show ?thesis by (simp add: report report_succeeded_def list_all_iff)
  qed
  with wl show ?thesis by blast
qed

theorem generated_workload_published_witness:
  "\<exists>wl g'. generate counting_engine (\<lambda>_. Some []) sample_config 7 = Some (Inr (wl, g')) \<and>
     (\<forall>rpc calls. (\<forall>q. served (\<lambda>_ s. (SinkAccepted, s :: nat)) (filter (\<lambda>e. producer_id e = q) (wl_events wl)) (rpc q) (calls q)) \<longrightarrow>
        report_succeeded (publish True rpc (wl_events wl)))"
  using generated_workload_published [OF sample_config_valid(1) counting_engine_lively,
      where serialize = "\<lambda>_. Some []" and g = 7 and offer = "\<lambda>_ s. (SinkAccepted, s :: nat)"]
  by (fastforce simp: sample_config_def)

end
