(* ===== verification/TF_Analyzer.thy ===== *)
theory TF_Analyzer
  imports TF_Reader TF_Rounding TF_Ordered_Map
    "HOL-Library.Product_Lexorder" "HOL-Library.List_Lexorder" "HOL-Library.Char_ord"
begin

text \<open>
  \<^verbatim>\<open>src/analysis/analyzer.cpp\<close>: the statistics of a complete log.  The three \<^verbatim>\<open>std::map\<close>s are ordered
  lists; timestamps are read as signed integers; doubles are rationals with every rounding of the code
  written out (\<open>fl 53\<close> for \<^verbatim>\<open>double\<close>, \<open>fl p\<close> for \<^verbatim>\<open>long double\<close>, whose precision \<open>p\<close> is an argument).
  \<^verbatim>\<open>percentile\<close> is only called on a non-empty vector.
\<close>

section \<open>Reports\<close>

datatype analysis_status = AnalysisComplete | LogError

record producer_stats =
  ps_producer_id :: string
  ps_records :: u64
  ps_sequence_gaps :: u64
  ps_non_increasing_sequences :: u64

record stream_stats =
  ss_producer_id :: string
  ss_payload :: string
  ss_records :: u64
  ss_observed_rate_hz :: "rat option"
  ss_interarrival_p50_ms :: "rat option"
  ss_jitter_p95_ms :: "rat option"
  ss_source_timestamp_regressions :: u64

record distribution_stats =
  ds_samples :: u64
  ds_p50_ms :: rat
  ds_p95_ms :: rat
  ds_p99_ms :: rat
  ds_maximum_ms :: rat

record fault_stats =
  fs_warnings :: u64
  fs_errors :: u64
  fs_critical :: u64

record analysis_report =
  ar_status :: analysis_status
  ar_records :: u64
  ar_file_bytes :: u64
  ar_duration_seconds :: "rat option"
  ar_producers :: "producer_stats list"
  ar_streams :: "stream_stats list"
  ar_utc_arrival_delta :: "distribution_stats option"
  ar_faults :: fault_stats
  ar_message :: string

definition new_report :: analysis_report where
  "new_report = \<lparr>ar_status = LogError, ar_records = 0, ar_file_bytes = 0, ar_duration_seconds = None, ar_producers = [],
     ar_streams = [], ar_utc_arrival_delta = None, ar_faults = \<lparr>fs_warnings = 0, fs_errors = 0, fs_critical = 0\<rparr>, ar_message = []\<rparr>"

section \<open>Accumulators\<close>

record producer_accumulator =
  pa_stats :: producer_stats
  pa_previous_sequence :: "u64 option"

record stream_accumulator =
  sa_stats :: stream_stats
  sa_collector_timestamps :: "int list"

definition new_producer_accumulator :: producer_accumulator where
  "new_producer_accumulator = \<lparr>pa_stats = \<lparr>ps_producer_id = [], ps_records = 0, ps_sequence_gaps = 0,
     ps_non_increasing_sequences = 0\<rparr>, pa_previous_sequence = None\<rparr>"

definition new_stream_accumulator :: stream_accumulator where
  "new_stream_accumulator = \<lparr>sa_stats = \<lparr>ss_producer_id = [], ss_payload = [], ss_records = 0, ss_observed_rate_hz = None,
     ss_interarrival_p50_ms = None, ss_jitter_p95_ms = None, ss_source_timestamp_regressions = 0\<rparr>,
     sa_collector_timestamps = []\<rparr>"

type_synonym stream_key = "string \<times> string"
type_synonym source_clock_key = "string \<times> string \<times> int"

section \<open>Statistics\<close>

definition nanoseconds_to_milliseconds :: "nat \<Rightarrow> rat \<Rightarrow> rat" where
  "nanoseconds_to_milliseconds p nanoseconds = fl 53 (fl p (nanoseconds / 1000000))"

text \<open>The difference of two timestamps in \<^verbatim>\<open>long double\<close>.\<close>

definition timestamp_difference :: "nat \<Rightarrow> int \<Rightarrow> int \<Rightarrow> rat" where
  "timestamp_difference p a b = fl p (fl p (of_int a) - fl p (of_int b))"

definition percentile :: "rat list \<Rightarrow> rat \<Rightarrow> rat" where
  "percentile values fraction =
     (let values = sort values;
          rank = nat \<lceil>fl 53 (fraction * fl 53 (of_nat (length values)))\<rceil>;
          index = (if rank = 0 then 0 else rank - 1)
      in values ! min index (length values - 1))"

text \<open>The literals 0.50, 0.95 and 0.99.\<close>

definition d050 :: rat where "d050 = fl 53 (50 / 100)"
definition d095 :: rat where "d095 = fl 53 (95 / 100)"
definition d099 :: rat where "d099 = fl 53 (99 / 100)"

definition distribution :: "rat list \<Rightarrow> distribution_stats" where
  "distribution values = \<lparr>ds_samples = of_nat (length values), ds_p50_ms = percentile values d050,
     ds_p95_ms = percentile values d095, ds_p99_ms = percentile values d099, ds_maximum_ms = Max (set values)\<rparr>"

definition intervals :: "nat \<Rightarrow> int list \<Rightarrow> rat list" where
  "intervals p timestamps =
     map (\<lambda>i. nanoseconds_to_milliseconds p (timestamp_difference p (timestamps ! i) (timestamps ! (i - 1)))) [1..<length timestamps]"

definition finish_stream :: "nat \<Rightarrow> stream_accumulator \<Rightarrow> stream_accumulator" where
  "finish_stream p stream =
     (if length (sa_collector_timestamps stream) < 2 then stream
      else let timestamps = sort (sa_collector_timestamps stream);
               span_ns = timestamp_difference p (last timestamps) (hd timestamps);
               stats = sa_stats stream;
               stats = (if span_ns > 0
                        then stats\<lparr>ss_observed_rate_hz := Some (fl 53 (fl p (fl p (fl p (of_nat (length timestamps - 1)) * 1000000000) / span_ns)))\<rparr>
                        else stats);
               intervals_ms = intervals p timestamps;
               median_interval_ms = percentile intervals_ms d050;
               absolute_deviations_ms = map (\<lambda>interval_ms. \<bar>fl 53 (interval_ms - median_interval_ms)\<bar>) intervals_ms
           in \<lparr>sa_stats = stats\<lparr>ss_interarrival_p50_ms := Some median_interval_ms,
                  ss_jitter_p95_ms := Some (percentile absolute_deviations_ms d095)\<rparr>,
               sa_collector_timestamps = timestamps\<rparr>)"

section \<open>One record\<close>

record analysis_state =
  as_producers :: "(string \<times> producer_accumulator) list"
  as_streams :: "(stream_key \<times> stream_accumulator) list"
  as_previous_source_timestamps :: "(source_clock_key \<times> int) list"
  as_utc_arrival_delta_ms :: "rat list"
  as_first_collector_timestamp :: "int option"
  as_last_collector_timestamp :: "int option"
  as_faults :: fault_stats

definition new_analysis_state :: analysis_state where
  "new_analysis_state = \<lparr>as_producers = [], as_streams = [], as_previous_source_timestamps = [], as_utc_arrival_delta_ms = [],
     as_first_collector_timestamp = None, as_last_collector_timestamp = None,
     as_faults = \<lparr>fs_warnings = 0, fs_errors = 0, fs_critical = 0\<rparr>\<rparr>"

definition count_producer :: "telemetry_event \<Rightarrow> producer_accumulator \<Rightarrow> producer_accumulator" where
  "count_producer event producer =
     (let stats = (pa_stats producer)\<lparr>ps_producer_id := producer_id event, ps_records := ps_records (pa_stats producer) + 1\<rparr>;
          stats = (case pa_previous_sequence producer of
              None \<Rightarrow> stats
            | Some previous \<Rightarrow>
                if sequence_number event \<le> previous
                then stats\<lparr>ps_non_increasing_sequences := ps_non_increasing_sequences stats + 1\<rparr>
                else stats\<lparr>ps_sequence_gaps := ps_sequence_gaps stats + (sequence_number event - previous - 1)\<rparr>)
      in \<lparr>pa_stats = stats, pa_previous_sequence = Some (sequence_number event)\<rparr>)"

text \<open>\<open>regressed\<close> is the outcome of the comparison with \<^verbatim>\<open>previous_source_timestamps\<close>.\<close>

definition count_stream :: "log_record \<Rightarrow> bool \<Rightarrow> stream_accumulator \<Rightarrow> stream_accumulator" where
  "count_stream record regressed stream =
     \<lparr>sa_stats = (sa_stats stream)\<lparr>ss_producer_id := producer_id (lr_event record), ss_payload := payload_name (ev_payload (lr_event record)),
        ss_records := ss_records (sa_stats stream) + 1,
        ss_source_timestamp_regressions := ss_source_timestamp_regressions (sa_stats stream) + (if regressed then 1 else 0)\<rparr>,
      sa_collector_timestamps = sa_collector_timestamps stream @ [sint (lr_collector_arrival_timestamp_ns record)]\<rparr>"

definition count_fault :: "event_payload \<Rightarrow> fault_stats \<Rightarrow> fault_stats" where
  "count_fault payload faults =
     (case payload of
        Fault f \<Rightarrow>
          if fe_severity f = SEVERITY_WARNING then faults\<lparr>fs_warnings := fs_warnings faults + 1\<rparr>
          else if fe_severity f = SEVERITY_ERROR then faults\<lparr>fs_errors := fs_errors faults + 1\<rparr>
          else if fe_severity f = SEVERITY_CRITICAL then faults\<lparr>fs_critical := fs_critical faults + 1\<rparr>
          else faults
      | _ \<Rightarrow> faults)"

definition stream_key_of :: "log_record \<Rightarrow> stream_key" where
  "stream_key_of record = (producer_id (lr_event record), payload_name (ev_payload (lr_event record)))"

definition source_key_of :: "log_record \<Rightarrow> source_clock_key" where
  "source_key_of record = (producer_id (lr_event record), payload_name (ev_payload (lr_event record)), source_clock (lr_event record))"

definition analyze_record :: "nat \<Rightarrow> log_record \<Rightarrow> analysis_state \<Rightarrow> analysis_state" where
  "analyze_record p record st =
     (let event = lr_event record;
          arrival = sint (lr_collector_arrival_timestamp_ns record);
          source_timestamp = sint (source_timestamp_ns event);
          regressed = (case map_of (as_previous_source_timestamps st) (source_key_of record) of
              None \<Rightarrow> False | Some previous \<Rightarrow> source_timestamp \<le> previous)
      in st\<lparr>as_producers := ord_update (producer_id event) (count_producer event) new_producer_accumulator (as_producers st),
            as_streams := ord_update (stream_key_of record) (count_stream record regressed) new_stream_accumulator (as_streams st),
            as_previous_source_timestamps := ord_update (source_key_of record) (\<lambda>_. source_timestamp) 0 (as_previous_source_timestamps st),
            as_utc_arrival_delta_ms := (if source_clock event = CLOCK_DOMAIN_UTC
              then as_utc_arrival_delta_ms st @ [nanoseconds_to_milliseconds p (timestamp_difference p arrival source_timestamp)]
              else as_utc_arrival_delta_ms st),
            as_first_collector_timestamp := (case as_first_collector_timestamp st of
              None \<Rightarrow> Some arrival | Some earliest \<Rightarrow> if arrival < earliest then Some arrival else Some earliest),
            as_last_collector_timestamp := (case as_last_collector_timestamp st of
              None \<Rightarrow> Some arrival | Some latest \<Rightarrow> if arrival > latest then Some arrival else Some latest),
            as_faults := count_fault (ev_payload event) (as_faults st)\<rparr>)"

section \<open>analyze\_log\<close>

definition analyze_records :: "nat \<Rightarrow> log_record list \<Rightarrow> analysis_report \<Rightarrow> analysis_report" where
  "analyze_records p records report =
     (let st = fold (analyze_record p) records new_analysis_state
      in report\<lparr>ar_status := AnalysisComplete, ar_records := of_nat (length records),
           ar_duration_seconds := (case (as_first_collector_timestamp st, as_last_collector_timestamp st) of
               (Some earliest, Some latest) \<Rightarrow> Some (fl 53 (fl p (timestamp_difference p latest earliest / 1000000000)))
             | _ \<Rightarrow> ar_duration_seconds report),
           ar_producers := map (\<lambda>(_, producer). pa_stats producer) (as_producers st),
           ar_streams := map (\<lambda>(_, stream). sa_stats (finish_stream p stream)) (as_streams st),
           ar_utc_arrival_delta := (if as_utc_arrival_delta_ms st \<noteq> [] then Some (distribution (as_utc_arrival_delta_ms st))
             else ar_utc_arrival_delta report),
           ar_faults := as_faults st, ar_message := ''analysis completed''\<rparr>)"

definition analyze_log :: "nat \<Rightarrow> parser \<Rightarrow> file_view \<Rightarrow> nat \<Rightarrow> analysis_report" where
  "analyze_log p parse file maximum =
     (let result = read_log parse file \<lparr>maximum_records = maximum, retain_records = True\<rparr>;
          report = new_report\<lparr>ar_file_bytes := rr_file_size result\<rparr>
      in if rr_status result \<noteq> Complete
         then report\<lparr>ar_message := ''cannot analyze telemetry log: '' @ rr_message result\<rparr>
         else analyze_records p (rr_records result) report)"

definition analysis_status_name :: "analysis_status \<Rightarrow> string" where
  "analysis_status_name status = (case status of AnalysisComplete \<Rightarrow> ''complete'' | LogError \<Rightarrow> ''log_error'')"

end
