(* ===== verification/TF_Percentile.thy ===== *)
theory TF_Percentile
  imports TF_Analyzer "HOL-Library.Multiset"
begin

text \<open>
  The percentiles of the analyzer.  The rank is computed in floating point from a rounded literal;
  here it is shown to be the exact ceiling of the percentage, so that \<^verbatim>\<open>percentile\<close> is the
  nearest-rank percentile of statistics, and the distribution is in order.
\<close>

section \<open>The rank\<close>

definition literal_of :: "nat \<Rightarrow> rat \<Rightarrow> bool" where
  "literal_of a q \<longleftrightarrow> a \<in> {1..100} \<and> q \<le> of_nat a / 100 \<and> of_nat a / 100 - 1 / 10 ^ 15 \<le> q"

lemma literal_values: "d050 = 1 / 2" "d095 = 8556839292003942 / 2 ^ 53" "d099 = 8917127262193582 / 2 ^ 53"
proof -
  note p = power_int_minus
  show "d050 = 1 / 2" using fl_eqI [of "1 / 2" "- 1" "2 ^ 52" 53] by (simp add: d050_def p)
  show "d095 = 8556839292003942 / 2 ^ 53" using fl_eqI [of "19 / 20" "- 1" 8556839292003942 53] by (simp add: d095_def p)
  show "d099 = 8917127262193582 / 2 ^ 53" using fl_eqI [of "99 / 100" "- 1" 8917127262193582 53] by (simp add: d099_def p)
qed

lemma literals: "literal_of 50 d050" "literal_of 95 d095" "literal_of 99 d099"
  by (simp_all add: literal_of_def literal_values)

lemma ceiling_gap: "of_int \<lceil>of_int m / (100 :: rat)\<rceil> - 1 + 1 / 100 \<le> of_int m / (100 :: rat)"
proof -
  let ?k = "\<lceil>of_int m / (100 :: rat)\<rceil>"
  have "of_int ?k - 1 < of_int m / (100 :: rat)" by linarith
  then have "of_int (100 * (?k - 1)) < (of_int m :: rat)" by simp
  then have "100 * (?k - 1) + 1 \<le> m" by (simp only: of_int_less_iff)
  then have "of_int (100 * (?k - 1) + 1) \<le> (of_int m :: rat)" by (simp only: of_int_le_iff)
  then show ?thesis by simp
qed

lemma rank_exact:
  assumes q: "literal_of a q" and n: "0 < n" "n \<le> 10 ^ 10"
  shows "\<lceil>fl 53 (q * fl 53 (of_nat n))\<rceil> = \<lceil>of_int (int (a * n)) / (100 :: rat)\<rceil>"
proof -
  define A N z :: rat where "A = of_nat a" and "N = of_nat n" and "z = of_int (int (a * n)) / 100"
  let ?k = "\<lceil>z\<rceil>" and ?y = "q * N"
  have z: "z = A / 100 * N" by (simp add: z_def A_def N_def)
  have a: "1 \<le> A" "A \<le> 100" and q: "q \<le> A / 100" "A / 100 - 1 / 10 ^ 15 \<le> q" using q by (auto simp: literal_of_def A_def)
  have N: "0 < N" "N \<le> 10 ^ 10" using n of_nat_mono [OF n(2), where 'a = rat] by (simp_all add: N_def)
  have "fl 53 (of_int (int n)) = of_int (int n)" using n by (intro fl_int) simp
  then have fn: "fl 53 (of_nat n) = N" by (simp add: N_def)
  have "z \<le> 1 * 10 ^ 10" unfolding z using a N by (intro mult_mono) simp_all
  then have "?k \<le> 10 ^ 10" by (simp add: ceiling_le_iff)
  moreover have "0 \<le> z" unfolding z using a N by simp
  then have "0 \<le> ?k" by linarith
  ultimately have k: "?k \<le> 10 ^ 10" "0 \<le> ?k" by simp_all
  have yz: "?y \<le> z" unfolding z using q(1) N by (intro mult_right_mono) simp_all
  also have "z \<le> of_int ?k" by (rule le_of_int_ceiling)
  finally have "fl 53 ?y \<le> fl 53 (of_int ?k)" by (rule fl_mono) simp
  also have "fl 53 (of_int ?k) = of_int ?k" using k by (intro fl_int) simp
  finally have hi: "fl 53 ?y \<le> of_int ?k" .
  have "(A / 100 - 1 / 10 ^ 15) * N \<le> ?y" using q(2) N by (intro mult_right_mono) simp_all
  then have lo: "z - 1 / 10 ^ 5 \<le> ?y" using N by (simp add: left_diff_distrib z)
  have "0 \<le> q" using q(2) a by simp
  then have "\<bar>?y\<bar> \<le> 10 ^ 10" using yz \<open>z \<le> 1 * 10 ^ 10\<close> N by simp
  then have "\<bar>?y\<bar> / 2 ^ 53 \<le> 1 / 10 ^ 4" by (simp add: divide_le_eq)
  then have "?y - 1 / 10 ^ 4 \<le> fl 53 ?y" using fl_error [of 53 ?y] by linarith
  then have "of_int ?k - 1 < fl 53 ?y" using lo ceiling_gap [of "int (a * n)"] unfolding z_def [symmetric] by simp
  then show ?thesis using hi unfolding fn z_def [symmetric] by (intro ceiling_unique) simp_all
qed

section \<open>The percentile\<close>

lemma nearest_rank_bounds:
  assumes "a \<in> {1..100}" and "0 < n"
  defines "k \<equiv> nat \<lceil>of_int (int (a * n)) / (100 :: rat)\<rceil>"
  shows "0 < k" and "k \<le> n" and "a * n \<le> 100 * k" and "100 * (k - 1) < a * n"
proof -
  let ?z = "of_int (int (a * n)) / (100 :: rat)"
  have pos: "0 < ?z" using assms by simp
  then have "0 < \<lceil>?z\<rceil>" by simp
  then show k: "0 < k" by (simp add: k_def)
  have ik: "int k = \<lceil>?z\<rceil>" using pos by (simp add: k_def)
  have "?z \<le> of_int (int k)" unfolding ik by (rule le_of_int_ceiling)
  then have "of_int (int (a * n)) \<le> (of_int (int (100 * k)) :: rat)" by (simp add: divide_le_eq)
  then show "a * n \<le> 100 * k" by (simp only: of_int_le_iff of_nat_le_iff)
  have "of_int (int k) - 1 < ?z" unfolding ik by linarith
  then have "of_int (int (100 * k)) - 100 < (of_int (int (a * n)) :: rat)" by (simp add: less_divide_eq)
  then have "of_int (int (100 * k) - 100) < (of_int (int (a * n)) :: rat)" by simp
  then have "int (100 * k) - 100 < int (a * n)" by (simp only: of_int_less_iff)
  then have "int (100 * k) < int (a * n + 100)" by simp
  then have "100 * k < a * n + 100" by (simp only: of_nat_less_iff)
  then show "100 * (k - 1) < a * n" using k by (simp add: diff_mult_distrib2)
  have "a * n \<le> 100 * n" using assms by simp
  with \<open>100 * (k - 1) < a * n\<close> have "100 * (k - 1) < 100 * n" by (rule less_le_trans)
  then show "k \<le> n" using k by simp
qed

lemma percentile_nth:
  assumes "literal_of a q" and "values \<noteq> []" and "length values \<le> 10 ^ 10"
  shows "percentile values q = sort values ! (nat \<lceil>of_int (int (a * length values)) / (100 :: rat)\<rceil> - 1)"
proof -
  have n: "0 < length values" using assms(2) by simp
  have a: "a \<in> {1..100}" using assms(1) by (simp add: literal_of_def)
  note k = nearest_rank_bounds [OF a n]
  show ?thesis
    using k(1,2) rank_exact [OF assms(1) n assms(3)] by (simp add: percentile_def Let_def min_def)
qed

lemma sorted_count_le:
  assumes "sorted ys" and "i < length ys"
  shows "i < length (filter (\<lambda>x. x \<le> ys ! i) ys)" and "length (filter (\<lambda>x. x < ys ! i) ys) \<le> i"
proof -
  have "filter (\<lambda>x. x \<le> ys ! i) (take (Suc i) ys) = take (Suc i) ys"
    using assms by (auto simp: filter_id_conv in_set_conv_nth less_Suc_eq_le intro!: sorted_nth_mono)
  then have "Suc i \<le> length (filter (\<lambda>x. x \<le> ys ! i) (take (Suc i) ys @ drop (Suc i) ys))" using assms(2) by (simp only: filter_append length_append) simp
  then show "i < length (filter (\<lambda>x. x \<le> ys ! i) ys)" by simp
  have "filter (\<lambda>x. x < ys ! i) (drop i ys) = []"
    using assms by (auto simp: filter_empty_conv in_set_conv_nth not_less intro!: sorted_nth_mono)
  then have "length (filter (\<lambda>x. x < ys ! i) (take i ys @ drop i ys)) \<le> i"
    by (simp only: filter_append) (simp add: le_trans [OF length_filter_le])
  then show "length (filter (\<lambda>x. x < ys ! i) ys) \<le> i" by simp
qed

lemma length_filter_sort: "length (filter P (sort xs)) = length (filter P (xs :: rat list))"
  by (metis length_sort filter_sort)

lemma nearest_rank:
  assumes "literal_of a q" and "values \<noteq> []" and "length values \<le> 10 ^ 10"
  shows "percentile values q \<in> set values"
    and "a * length values \<le> 100 * length (filter (\<lambda>x. x \<le> percentile values q) values)"
    and "100 * length (filter (\<lambda>x. x < percentile values q) values) < a * length values"
proof -
  define i where "i = nat \<lceil>of_int (int (a * length values)) / (100 :: rat)\<rceil> - 1"
  have a: "a \<in> {1..100}" using assms(1) by (simp add: literal_of_def)
  have n: "0 < length values" using assms(2) by simp
  note k = nearest_rank_bounds [OF a n]
  have i: "i < length (sort values)" "a * length values \<le> 100 * Suc i" "100 * i < a * length values" using k by (simp_all add: i_def)
  have v: "percentile values q = sort values ! i" unfolding i_def by (rule percentile_nth [OF assms])
  have "sort values ! i \<in> set (sort values)" by (rule nth_mem [OF i(1)])
  then show "percentile values q \<in> set values" unfolding v by simp
  note c = sorted_count_le [OF sorted_sort i(1), unfolded length_filter_sort, folded v]
  show "a * length values \<le> 100 * length (filter (\<lambda>x. x \<le> percentile values q) values)"
    using i(2) c(1) by (meson Suc_leI le_trans mult_le_mono2)
  show "100 * length (filter (\<lambda>x. x < percentile values q) values) < a * length values"
    using i(3) c(2) by (meson le_less_trans mult_le_mono2)
qed

lemma percentile_mono:
  assumes "literal_of a q" and "literal_of b r" and "a \<le> b" and "values \<noteq> []" and "length values \<le> 10 ^ 10"
  shows "percentile values q \<le> percentile values r"
proof -
  let ?k = "\<lambda>a. nat \<lceil>of_int (int (a * length values)) / (100 :: rat)\<rceil>"
  have "?k a - 1 \<le> ?k b - 1" using assms(3)
    by (intro diff_le_mono nat_mono ceiling_mono divide_right_mono) (simp_all add: mult_right_mono)
  moreover have "?k b - 1 < length (sort values)"
    using nearest_rank_bounds [of b "length values"] assms(2,4) by (simp add: literal_of_def)
  ultimately show ?thesis
    unfolding percentile_nth [OF assms(1,4,5)] percentile_nth [OF assms(2,4,5)] by (intro sorted_nth_mono) simp_all
qed

text \<open>
  C38: On up to \<open>10 ^ 10\<close> samples \<^verbatim>\<open>percentile\<close> is the nearest-rank percentile, in spite of the rounded
  literals and products it computes the rank with: the result is a sample, at least the given
  percentage of the samples are not above it, and less than that percentage are below it.  The
  figures of a distribution are in order, and the maximum is a sample that none exceeds.
\<close>

theorem distribution_nearest_rank:
  assumes "samples \<noteq> []" and "length samples \<le> 10 ^ 10" and "(a, q) \<in> {(50, d050), (95, d095), (99, d099)}"
  shows "percentile samples q \<in> set samples \<and>
    a * length samples \<le> 100 * length (filter (\<lambda>x. x \<le> percentile samples q) samples) \<and>
    100 * length (filter (\<lambda>x. x < percentile samples q) samples) < a * length samples \<and>
    ds_samples (distribution samples) = of_nat (length samples) \<and>
    ds_p50_ms (distribution samples) \<le> ds_p95_ms (distribution samples) \<and>
    ds_p95_ms (distribution samples) \<le> ds_p99_ms (distribution samples) \<and>
    ds_p99_ms (distribution samples) \<le> ds_maximum_ms (distribution samples) \<and>
    ds_maximum_ms (distribution samples) \<in> set samples"
proof -
  have q: "literal_of a q" using assms(3) literals by auto
  have "percentile samples d099 \<le> Max (set samples)"
    using nearest_rank(1) [OF literals(3) assms(1,2)] by (intro Max_ge) simp_all
  then show ?thesis
    using nearest_rank [OF q assms(1,2)] percentile_mono [OF literals(1,2) _ assms(1,2)] percentile_mono [OF literals(2,3) _ assms(1,2)] assms(1)
    by (simp add: distribution_def)
qed

theorem distribution_nearest_rank_witness:
  "percentile [3, 1, 2, 7] d095 \<in> {3, 1, 2, 7} \<and> ds_p50_ms (distribution [3, 1, 2, 7]) \<le> ds_p95_ms (distribution [3, 1, 2, 7])"
  using distribution_nearest_rank [of "[3, 1, 2, 7]" 95 d095] by simp

end
