(* ===== verification/TF_Timing.thy ===== *)
theory TF_Timing
  imports TF_Percentile
begin

text \<open>
  The timing figures of a stream, against their definition in exact arithmetic: with a
  \<^verbatim>\<open>long double\<close> of at least 64 bits, rate, median interval and jitter are what
  \<^verbatim>\<open>docs/analysis.md\<close> says, up to the rounding of a double.
\<close>

section \<open>Nearest rank\<close>

text \<open>The nearest-rank percentile, in integers.\<close>

definition ranked :: "nat \<Rightarrow> 'a::linorder list \<Rightarrow> 'a" where
  "ranked a xs = sort xs ! ((a * length xs + 99) div 100 - 1)"

lemma ceiling_hundredth: "nat \<lceil>of_int (int k) / (100 :: rat)\<rceil> = (k + 99) div 100"
proof -
  define d where "d = (k + 99) div 100"
  have "100 * d \<le> k + 99" "k + 99 < 100 * d + 100" unfolding d_def by linarith+
  then have "int (100 * d) \<le> int (k + 99)" "int (k + 99) < int (100 * d + 100)" by (simp_all only: of_nat_le_iff of_nat_less_iff)
  then have "int k \<le> 100 * int d" "100 * (int d - 1) < int k" by simp_all
  then have "of_int (int k) \<le> (of_int (100 * int d) :: rat)" "of_int (100 * (int d - 1)) < (of_int (int k) :: rat)"
    by (simp_all only: of_int_le_iff of_int_less_iff)
  then have "\<lceil>of_int (int k) / (100 :: rat)\<rceil> = int d" by (intro ceiling_unique) simp_all
  then show ?thesis by (simp add: d_def)
qed

lemma percentile_ranked:
  "literal_of a q \<Longrightarrow> vs \<noteq> [] \<Longrightarrow> length vs \<le> 10 ^ 10 \<Longrightarrow> percentile vs q = ranked a vs"
  using percentile_nth [of a q vs] unfolding ranked_def ceiling_hundredth by simp

text \<open>Changing every sample by at most \<open>e\<close> changes the percentile by at most \<open>e\<close>.\<close>

lemma ranked_le:
  fixes xs ys :: "rat list"
  assumes q: "literal_of a q" and n: "length ys = length xs" "xs \<noteq> []" "length xs \<le> 10 ^ 10"
    and le: "\<And>i. i < length xs \<Longrightarrow> ys ! i \<le> xs ! i + e"
  shows "ranked a ys \<le> ranked a xs + e"
proof (rule ccontr)
  assume above: "\<not> ranked a ys \<le> ranked a xs + e"
  have ys: "ys \<noteq> []" "length ys \<le> 10 ^ 10" using n by auto
  have "{i. i < length xs \<and> xs ! i \<le> ranked a xs} \<subseteq> {i. i < length ys \<and> ys ! i < ranked a ys}"
  proof clarify
    fix i
    assume "i < length xs" "xs ! i \<le> ranked a xs"
    then have "ys ! i \<le> ranked a xs + e" using le [of i] by linarith
    then show "i < length ys \<and> ys ! i < ranked a ys" using above \<open>i < length xs\<close> n(1) by linarith
  qed
  then have "length (filter (\<lambda>x. x \<le> ranked a xs) xs) \<le> length (filter (\<lambda>y. y < ranked a ys) ys)"
    unfolding length_filter_conv_card by (intro card_mono) simp_all
  moreover have "a * length xs \<le> 100 * length (filter (\<lambda>x. x \<le> ranked a xs) xs)"
    using nearest_rank(2) [OF q n(2,3)] percentile_ranked [OF q n(2,3)] by simp
  moreover have "100 * length (filter (\<lambda>y. y < ranked a ys) ys) < a * length xs"
    using nearest_rank(3) [OF q ys] percentile_ranked [OF q ys] n(1) by simp
  ultimately show False by linarith
qed

lemma ranked_close:
  fixes xs ys :: "rat list"
  assumes "literal_of a q" and "length ys = length xs" and "xs \<noteq> []" and "length xs \<le> 10 ^ 10"
    and close: "\<And>i. i < length xs \<Longrightarrow> \<bar>ys ! i - xs ! i\<bar> \<le> e"
  shows "\<bar>ranked a ys - ranked a xs\<bar> \<le> e"
proof -
  have "ys ! i \<le> xs ! i + e" "xs ! i \<le> ys ! i + e" if "i < length xs" for i using close [OF that] by linarith+
  then have "ranked a ys \<le> ranked a xs + e" "ranked a xs \<le> ranked a ys + e"
    using ranked_le [of a q ys xs e] ranked_le [of a q xs ys e] assms(1-4) by force+
  then show ?thesis by linarith
qed

lemma ranked_map:
  fixes xs :: "rat list"
  assumes "mono f" and "literal_of a q" and "xs \<noteq> []"
  shows "ranked a (map f xs) = f (ranked a xs)"
proof -
  have "sort (map f xs) = map f (sort xs)"
    using assms(1) by (intro properties_for_sort) (auto simp: sorted_map monoD intro: sorted_wrt_mono_rel [OF _ sorted_sort])
  moreover have "(a * length xs + 99) div 100 - 1 < length (sort xs)"
    using nearest_rank_bounds(1,2) [of a "length xs", unfolded ceiling_hundredth] assms(2,3) by (auto simp: literal_of_def)
  ultimately show ?thesis by (simp add: ranked_def)
qed

section \<open>Accuracy\<close>

lemma int64_difference:
  "64 \<le> p \<Longrightarrow> - (2 ^ 63) \<le> a \<Longrightarrow> a < 2 ^ 63 \<Longrightarrow> - (2 ^ 63) \<le> b \<Longrightarrow> b < 2 ^ 63 \<Longrightarrow>
   timestamp_difference p a b = of_int (a - b)"
  unfolding timestamp_difference_def by (rule fl_int64_difference)

lemma fl_fl_error:
  assumes "64 \<le> p" and "0 \<le> y"
  shows "\<bar>fl 53 (fl p y) - y\<bar> \<le> y / 2 ^ 52"
proof -
  have p: "0 < p" using assms(1) by simp
  have "y / 2 ^ p \<le> y / 2 ^ 64" using assms by (intro divide_left_mono power_increasing) simp_all
  moreover have "\<bar>fl p y - y\<bar> \<le> y / 2 ^ p" using fl_error [OF p, of y] assms(2) by simp
  ultimately have outer: "\<bar>fl p y - y\<bar> \<le> y / 2 ^ 64" by (rule order_trans [rotated])
  have "\<bar>fl 53 (fl p y) - fl p y\<bar> \<le> fl p y / 2 ^ 53"
    using fl_error [of 53 "fl p y"] fl_nonneg [OF assms(2) p] by simp
  also have "fl p y \<le> y + y / 2 ^ 64" using outer by (simp only: abs_le_iff) linarith
  finally have inner: "\<bar>fl 53 (fl p y) - fl p y\<bar> \<le> (y + y / 2 ^ 64) / 2 ^ 53" by (simp add: divide_right_mono)
  have "\<bar>fl 53 (fl p y) - y\<bar> \<le> \<bar>fl 53 (fl p y) - fl p y\<bar> + \<bar>fl p y - y\<bar>" by simp
  also have "\<dots> \<le> (y + y / 2 ^ 64) / 2 ^ 53 + y / 2 ^ 64" using inner outer by (rule add_mono)
  also have "\<dots> \<le> y / 2 ^ 52" using assms(2) by simp
  finally show ?thesis .
qed

lemma milliseconds_error:
  "64 \<le> p \<Longrightarrow> 0 \<le> x \<Longrightarrow> \<bar>nanoseconds_to_milliseconds p x - x / 1000000\<bar> \<le> x / 1000000 / 2 ^ 52"
  using fl_fl_error [of p "x / 1000000"] by (simp add: nanoseconds_to_milliseconds_def)

section \<open>Streams\<close>

text \<open>The intervals between neighbouring arrivals, in nanoseconds, and their span.\<close>

definition arrival_gaps :: "int list \<Rightarrow> rat list" where
  "arrival_gaps ts = map (\<lambda>i. of_int (sort ts ! i - sort ts ! (i - 1))) [1..<length ts]"

definition arrival_span :: "int list \<Rightarrow> rat" where
  "arrival_span ts = of_int (Max (set ts) - Min (set ts))"

lemma arrival_gaps_range:
  assumes "g \<in> set (arrival_gaps ts)"
  shows "0 \<le> g" and "g \<le> arrival_span ts"
proof -
  obtain i where i: "1 \<le> i" "i < length ts" "g = of_int (sort ts ! i - sort ts ! (i - 1))" using assms by (auto simp: arrival_gaps_def)
  have "sort ts ! i \<in> set (sort ts)" "sort ts ! (i - 1) \<in> set (sort ts)" using i by (intro nth_mem; simp)+
  then have "sort ts ! i \<le> Max (set ts)" "Min (set ts) \<le> sort ts ! (i - 1)" by simp_all
  moreover have "sort ts ! (i - 1) \<le> sort ts ! i" using i by (intro sorted_nth_mono) simp_all
  ultimately show "0 \<le> g" "g \<le> arrival_span ts" by (simp_all add: i(3) arrival_span_def)
qed

lemma intervals_gaps:
  assumes "64 \<le> p" and "\<forall>t \<in> set ts. - (2 ^ 63) \<le> t \<and> t < 2 ^ 63"
  shows "intervals p (sort ts) = map (nanoseconds_to_milliseconds p) (arrival_gaps ts)"
proof -
  have "timestamp_difference p (sort ts ! i) (sort ts ! (i - 1)) = of_int (sort ts ! i - sort ts ! (i - 1))" if "i \<in> set [1..<length ts]" for i
  proof -
    have "sort ts ! i \<in> set (sort ts)" "sort ts ! (i - 1) \<in> set (sort ts)" using that by (intro nth_mem; auto)+
    then show ?thesis using assms by (intro int64_difference) simp_all
  qed
  then show ?thesis by (simp add: intervals_def arrival_gaps_def)
qed

lemma percentile_close:
  assumes "literal_of a q" and "length vs = length xs" and "xs \<noteq> []" and "length xs \<le> 10 ^ 10"
    and "\<And>i. i < length xs \<Longrightarrow> \<bar>vs ! i - xs ! i\<bar> \<le> e"
  shows "\<bar>percentile vs q - ranked a xs\<bar> \<le> e"
proof -
  have "percentile vs q = ranked a vs" using assms by (intro percentile_ranked) auto
  then show ?thesis using ranked_close [OF assms] by simp
qed

text \<open>The nearest-rank median of the gaps, the 95th percentile of the distances from it, and the rate.\<close>

definition median_gap :: "int list \<Rightarrow> rat" where
  "median_gap ts = ranked 50 (arrival_gaps ts)"

definition jitter_gap :: "int list \<Rightarrow> rat" where
  "jitter_gap ts = ranked 95 (map (\<lambda>g. \<bar>g - median_gap ts\<bar>) (arrival_gaps ts))"

definition arrival_rate :: "int list \<Rightarrow> rat" where
  "arrival_rate ts = of_nat (length ts - 1) * 10 ^ 9 / arrival_span ts"

lemma close_difference: "\<bar>a - b\<bar> \<le> e \<Longrightarrow> \<bar>c - d\<bar> \<le> e \<Longrightarrow> \<bar>(a - c) - (b - d)\<bar> \<le> 2 * (e :: rat)"
  by linarith

lemma close_bound: "\<bar>a - (x - y)\<bar> \<le> e \<Longrightarrow> e \<le> s \<Longrightarrow> 0 \<le> x \<Longrightarrow> x \<le> s \<Longrightarrow> 0 \<le> y \<Longrightarrow> y \<le> s \<Longrightarrow> \<bar>a\<bar> \<le> 2 * (s :: rat)"
  by linarith

lemma gap_figures:
  fixes ts :: "int list"
  assumes p: "64 \<le> p" and n: "2 \<le> length ts" "length ts \<le> 10 ^ 10"
    and range: "\<forall>t \<in> set ts. - (2 ^ 63) \<le> t \<and> t < 2 ^ 63"
  defines "I \<equiv> intervals p (sort ts)" and "S \<equiv> arrival_span ts / 10 ^ 6"
  defines "m \<equiv> percentile I d050"
  shows "\<bar>m - median_gap ts / 10 ^ 6\<bar> \<le> S / 2 ^ 52"
    and "\<bar>percentile (map (\<lambda>x. \<bar>fl 53 (x - m)\<bar>) I) d095 - jitter_gap ts / 10 ^ 6\<bar> \<le> S / 2 ^ 50"
proof -
  let ?g = "arrival_gaps ts" and ?f = "\<lambda>x::rat. x / 10 ^ 6"
  have I: "I = map (nanoseconds_to_milliseconds p) ?g" unfolding I_def by (rule intervals_gaps [OF p range])
  have g: "?g \<noteq> []" "length ?g \<le> 10 ^ 10" using n by (auto simp: arrival_gaps_def)
  have scale: "ranked a (map ?f xs) = ranked a xs / 10 ^ 6" if "literal_of a q" "xs \<noteq> []" for a q and xs :: "rat list"
    using that by (intro ranked_map [of _ _ q]) (auto intro!: monoI divide_right_mono)
  have S: "0 \<le> S" using arrival_gaps_range [of "hd ?g" ts] hd_in_set [OF g(1)] by (simp add: S_def)
  have range: "0 \<le> x" "x \<le> S" if "x \<in> set (map ?f ?g)" for x
    using that arrival_gaps_range by (auto simp: S_def intro: divide_right_mono)
  have err: "\<bar>I ! i - map ?f ?g ! i\<bar> \<le> S / 2 ^ 52" if i: "i < length ?g" for i
  proof -
    have x: "?g ! i \<in> set ?g" using i by simp
    have "\<bar>I ! i - map ?f ?g ! i\<bar> \<le> map ?f ?g ! i / 2 ^ 52"
      using milliseconds_error [OF p arrival_gaps_range(1) [OF x]] i by (simp add: I)
    also have "\<dots> \<le> S / 2 ^ 52" using range(2) [of "map ?f ?g ! i"] i by (intro divide_right_mono) auto
    finally show ?thesis .
  qed
  have "\<bar>m - ranked 50 (map ?f ?g)\<bar> \<le> S / 2 ^ 52"
    unfolding m_def by (rule percentile_close [OF literals(1)]) (use g err in \<open>simp_all add: I\<close>)
  then show m: "\<bar>m - median_gap ts / 10 ^ 6\<bar> \<le> S / 2 ^ 52"
    unfolding scale [OF literals(1) g(1)] median_gap_def .
  have M: "0 \<le> median_gap ts / 10 ^ 6" "median_gap ts / 10 ^ 6 \<le> S"
  proof -
    have "ranked 50 (map ?f ?g) \<in> set (map ?f ?g)"
      using nearest_rank(1) [OF literals(1), of "map ?f ?g"] percentile_ranked [OF literals(1), of "map ?f ?g"] g by simp
    from range [OF this] show "0 \<le> median_gap ts / 10 ^ 6" "median_gap ts / 10 ^ 6 \<le> S"
      unfolding scale [OF literals(1) g(1)] median_gap_def .
  qed
  let ?d = "map (\<lambda>g. \<bar>g - median_gap ts\<bar>) ?g"
  have dev: "\<bar>map (\<lambda>x. \<bar>fl 53 (x - m)\<bar>) I ! i - map ?f ?d ! i\<bar> \<le> S / 2 ^ 50" if i: "i < length ?g" for i
  proof -
    define x where "x = ?g ! i / 10 ^ 6"
    have xi: "map ?f ?g ! i = x" "map ?f ?d ! i = \<bar>x - median_gap ts / 10 ^ 6\<bar>" "0 \<le> x" "x \<le> S"
      using i range [of x] by (auto simp: x_def abs_divide simp flip: diff_divide_distrib)
    have e: "\<bar>I ! i - x\<bar> \<le> S / 2 ^ 52" using err [OF i] unfolding xi(1) .
    then have d: "\<bar>(I ! i - m) - (x - median_gap ts / 10 ^ 6)\<bar> \<le> S / 2 ^ 51" 
      using close_difference [OF e m] by simp
    then have "\<bar>I ! i - m\<bar> \<le> 2 * S" by (rule close_bound [OF _ _ xi(3,4) M]) (use S in simp)
    then have "\<bar>I ! i - m\<bar> / 2 ^ 53 \<le> S / 2 ^ 52" by simp
    then have "\<bar>fl 53 (I ! i - m) - (I ! i - m)\<bar> \<le> S / 2 ^ 52" using fl_error [of 53 "I ! i - m"] by linarith
    then have "\<bar>\<bar>fl 53 (I ! i - m)\<bar> - \<bar>x - median_gap ts / 10 ^ 6\<bar>\<bar> \<le> S / 2 ^ 52 + S / 2 ^ 51" using d by linarith
    also have "\<dots> \<le> S / 2 ^ 50" using S by simp
    finally have "\<bar>\<bar>fl 53 (I ! i - m)\<bar> - \<bar>x - median_gap ts / 10 ^ 6\<bar>\<bar> \<le> S / 2 ^ 50" .
    moreover have "map (\<lambda>x. \<bar>fl 53 (x - m)\<bar>) I ! i = \<bar>fl 53 (I ! i - m)\<bar>" using i by (simp add: I)
    ultimately show ?thesis unfolding xi(2) by (simp only:)
  qed
  have "\<bar>percentile (map (\<lambda>x. \<bar>fl 53 (x - m)\<bar>) I) d095 - ranked 95 (map ?f ?d)\<bar> \<le> S / 2 ^ 50"
    by (rule percentile_close [OF literals(2)]) (use g dev in \<open>simp_all add: I\<close>)
  moreover have "ranked 95 (map ?f ?d) = jitter_gap ts / 10 ^ 6"
    unfolding jitter_gap_def using g(1) by (intro scale [OF literals(2)]) simp
  ultimately show "\<bar>percentile (map (\<lambda>x. \<bar>fl 53 (x - m)\<bar>) I) d095 - jitter_gap ts / 10 ^ 6\<bar> \<le> S / 2 ^ 50" by (simp only:)
qed

lemma sorted_ends: "sorted ts \<Longrightarrow> ts \<noteq> [] \<Longrightarrow> last ts = Max (set ts) \<and> hd ts = Min (set (ts :: int list))"
proof
  assume ts: "sorted ts" "ts \<noteq> []"
  then show "hd ts = Min (set ts)" by (cases ts) (auto intro!: Min_eqI [symmetric])
  from ts show "last ts = Max (set ts)" by (cases ts rule: rev_cases) (auto simp: sorted_append intro!: Max_eqI [symmetric])
qed

lemma rate_error:
  assumes p: "64 \<le> p" and n: "n \<le> 10 ^ 10" and d: "0 < d"
  shows "\<bar>fl 53 (fl p (fl p (fl p (of_nat n) * 1000000000) / d)) - of_nat n * 10 ^ 9 / d\<bar> \<le> of_nat n * 10 ^ 9 / d / 2 ^ 52"
proof -
  have p64: "(2::int) ^ 64 \<le> 2 ^ p" using p by (rule power_increasing) simp
  define N where "N = int n"
  have "0 \<le> N" "N \<le> 10 ^ 10" using of_nat_mono [OF n, where 'a = int] by (simp_all add: N_def)
  then have "\<bar>N\<bar> < 2 ^ p" "\<bar>N * 10 ^ 9\<bar> < 2 ^ p" using p64 by simp_all
  then have "fl p (of_int N) = of_int N" "fl p (of_int (N * 10 ^ 9)) = of_int (N * 10 ^ 9)" by (simp_all only: fl_int)
  moreover have "of_int N = (of_nat n :: rat)" by (simp add: N_def)
  ultimately have "fl p (fl p (of_nat n) * 1000000000) = of_nat n * 10 ^ 9" by simp
  then show ?thesis using fl_fl_error [OF p, of "of_nat n * 10 ^ 9 / d"] d by simp
qed

text \<open>The timing figures of a stream with the arrivals \<open>ts\<close>, in milliseconds and hertz.\<close>

definition timing_accurate :: "int list \<Rightarrow> stream_stats \<Rightarrow> bool" where
  "timing_accurate ts s \<longleftrightarrow>
     (let tolerance = arrival_span ts / 10 ^ 6 / 2 ^ 50 in
      (\<exists>m. ss_interarrival_p50_ms s = Some m \<and> \<bar>m - median_gap ts / 10 ^ 6\<bar> \<le> tolerance) \<and>
      (\<exists>j. ss_jitter_p95_ms s = Some j \<and> \<bar>j - jitter_gap ts / 10 ^ 6\<bar> \<le> tolerance) \<and>
      (if arrival_span ts = 0 then ss_observed_rate_hz s = None
       else \<exists>r. ss_observed_rate_hz s = Some r \<and> \<bar>r - arrival_rate ts\<bar> \<le> arrival_rate ts / 2 ^ 52))"

lemma finish_stream_accurate:
  assumes p: "64 \<le> p" and n: "2 \<le> length (sa_collector_timestamps s)" "length (sa_collector_timestamps s) \<le> 10 ^ 10"
    and range: "\<forall>t \<in> set (sa_collector_timestamps s). - (2 ^ 63) \<le> t \<and> t < 2 ^ 63"
    and none: "ss_observed_rate_hz (sa_stats s) = None"
  shows "timing_accurate (sa_collector_timestamps s) (sa_stats (finish_stream p s))"
proof -
  let ?ts = "sa_collector_timestamps s"
  have ne: "?ts \<noteq> []" using n by auto
  have ends: "Min (set ?ts) \<in> set ?ts" "Max (set ?ts) \<in> set ?ts" using ne by simp_all
  have span: "timestamp_difference p (last (sort ?ts)) (hd (sort ?ts)) = arrival_span ?ts"
  proof -
    have "last (sort ?ts) = Max (set ?ts)" "hd (sort ?ts) = Min (set ?ts)"
      using sorted_ends [OF sorted_sort, of ?ts] n by (auto simp flip: length_0_conv)
    then show ?thesis unfolding arrival_span_def using range ends p by (simp only: int64_difference)
  qed
  have "Min (set ?ts) \<le> Max (set ?ts)" using ne by simp
  then have nonneg: "0 \<le> arrival_span ?ts" by (simp add: arrival_span_def)
  note figures = gap_figures [OF p n range]
  define m where "m = percentile (intervals p (sort ?ts)) d050"
  define j where "j = percentile (map (\<lambda>x. \<bar>fl 53 (x - m)\<bar>) (intervals p (sort ?ts))) d095"
  have mj: "\<bar>m - median_gap ?ts / 10 ^ 6\<bar> \<le> arrival_span ?ts / 10 ^ 6 / 2 ^ 50" "\<bar>j - jitter_gap ?ts / 10 ^ 6\<bar> \<le> arrival_span ?ts / 10 ^ 6 / 2 ^ 50"
    using figures nonneg unfolding m_def j_def by (auto elim: order_trans)
  show ?thesis
  proof (cases "arrival_span ?ts = 0")
    case True
    then show ?thesis
      using n none mj span by (simp add: finish_stream_def Let_def timing_accurate_def m_def [symmetric] j_def [symmetric])
  next
    case False
    then have pos: "0 < arrival_span ?ts" using nonneg by simp
    have "length ?ts - 1 \<le> 10 ^ 10" using n by simp
    from rate_error [OF p this pos] show ?thesis
      using n mj span pos by (simp add: finish_stream_def Let_def timing_accurate_def arrival_rate_def m_def [symmetric] j_def [symmetric])
  qed
qed

end
