(* ===== verification/TF_Analysis.thy ===== *)
theory TF_Analysis
  imports TF_Timing TF_Recovery
begin

text \<open>
  What the report of the analyzer says about a log: the counts of every producer and stream in closed
  form, their agreement with the summaries of the collector, and the failure of incomplete logs.
\<close>

section \<open>Producers\<close>

definition of_producer :: "string \<Rightarrow> log_record list \<Rightarrow> telemetry_event list" where
  "of_producer q rs = filter (\<lambda>e. producer_id e = q) (map lr_event rs)"

text \<open>Pairs of neighbours in a sequence: the numbers skipped between them, and the pairs that do not increase.\<close>

definition neighbours :: "'a list \<Rightarrow> ('a \<times> 'a) list" where
  "neighbours xs = zip xs (tl xs)"

definition skipped :: "u64 list \<Rightarrow> nat" where
  "skipped s = (\<Sum>(a, b)\<leftarrow>neighbours s. if a < b then unat b - unat a - 1 else 0)"

definition repeats :: "u64 list \<Rightarrow> nat" where
  "repeats s = length (filter (\<lambda>(a, b). b \<le> a) (neighbours s))"

lemma neighbours_snoc: "xs \<noteq> [] \<Longrightarrow> neighbours (xs @ [x]) = neighbours xs @ [(last xs, x)]"
  by (induction xs rule: induct_list012) (simp_all add: neighbours_def)

lemma gap_word: "a < b \<Longrightarrow> of_nat (unat b - Suc (unat a)) = b - a - (1::u64)"
proof -
  assume ab: "a < b"
  then have "1 \<le> b - a" by (simp add: word_le_nat_alt unat_sub word_less_nat_alt)
  then have u: "unat (b - a - 1) = unat b - Suc (unat a)" using ab by (simp add: unat_sub)
  have "of_nat (unat (b - a - 1)) = b - a - 1" by simp
  then show ?thesis unfolding u .
qed

lemma fold_count_producer:
  "es \<noteq> [] \<Longrightarrow> \<forall>e \<in> set es. producer_id e = q \<Longrightarrow> fold count_producer es new_producer_accumulator =
     \<lparr>pa_stats = \<lparr>ps_producer_id = q, ps_records = of_nat (length es), ps_sequence_gaps = of_nat (skipped (map sequence_number es)),
        ps_non_increasing_sequences = of_nat (repeats (map sequence_number es))\<rparr>,
      pa_previous_sequence = Some (sequence_number (last es))\<rparr>"
proof (induction es rule: rev_induct)
  case (snoc e es)
  show ?case
  proof (cases "es = []")
    case True
    then show ?thesis using snoc.prems
      by (simp add: count_producer_def new_producer_accumulator_def skipped_def repeats_def neighbours_def)
  next
    case False
    have n: "neighbours (map sequence_number (es @ [e])) =
        neighbours (map sequence_number es) @ [(sequence_number (last es), sequence_number e)]"
      using False by (simp add: neighbours_snoc last_map)
    show ?thesis using snoc False n
      by (auto simp: count_producer_def Let_def skipped_def repeats_def gap_word not_less [symmetric])
  qed
qed simp

section \<open>The accumulators after a list of records\<close>

abbreviation analyzed :: "nat \<Rightarrow> log_record list \<Rightarrow> analysis_state" where
  "analyzed p rs \<equiv> fold (analyze_record p) rs new_analysis_state"

lemma producers_fold:
  "as_producers (fold (analyze_record p) rs st) =
     om.group (\<lambda>r. producer_id (lr_event r)) (\<lambda>r. count_producer (lr_event r)) new_producer_accumulator rs (as_producers st)"
  unfolding om.group_def by (induction rs arbitrary: st) (simp_all add: analyze_record_def Let_def)

lemma fold_filter_events:
  "fold (\<lambda>r. f (lr_event r)) (filter (\<lambda>r. producer_id (lr_event r) = q) rs) x = fold f (of_producer q rs) x"
  by (induction rs arbitrary: x) (simp_all add: of_producer_def)

definition producer_report :: "string \<Rightarrow> telemetry_event list \<Rightarrow> producer_stats" where
  "producer_report q es = \<lparr>ps_producer_id = q, ps_records = of_nat (length es),
     ps_sequence_gaps = of_nat (skipped (map sequence_number es)), ps_non_increasing_sequences = of_nat (repeats (map sequence_number es))\<rparr>"

definition producers_of :: "log_record list \<Rightarrow> string list" where
  "producers_of rs = sorted_list_of_set ((\<lambda>r. producer_id (lr_event r)) ` set rs)"

lemma of_producer_nonempty: "q \<in> set (producers_of rs) \<Longrightarrow> of_producer q rs \<noteq> []"
  by (auto simp: producers_of_def of_producer_def filter_empty_conv)

lemma producers_closed:
  "map (\<lambda>(_, a). pa_stats a) (as_producers (analyzed p rs)) = map (\<lambda>q. producer_report q (of_producer q rs)) (producers_of rs)"
proof -
  have "as_producers new_analysis_state = []" by (simp add: new_analysis_state_def)
  then have "as_producers (analyzed p rs) =
      map (\<lambda>q. (q, fold count_producer (of_producer q rs) new_producer_accumulator)) (producers_of rs)"
    by (simp add: producers_fold om.entries_group fold_filter_events producers_of_def)
  moreover have "pa_stats (fold count_producer (of_producer q rs) new_producer_accumulator) = producer_report q (of_producer q rs)"
    if "q \<in> set (producers_of rs)" for q
    using fold_count_producer [OF of_producer_nonempty [OF that], of q] by (simp add: of_producer_def producer_report_def)
  ultimately show ?thesis by simp
qed

lemma previous_source_fold:
  "as_previous_source_timestamps (fold (analyze_record p) rs st) =
     om.group source_key_of (\<lambda>r _. sint (source_timestamp_ns (lr_event r))) 0 rs (as_previous_source_timestamps st)"
  unfolding om.group_def by (induction rs arbitrary: st) (simp_all add: analyze_record_def Let_def)

lemma deltas_fold:
  "as_utc_arrival_delta_ms (fold (analyze_record p) rs st) = as_utc_arrival_delta_ms st @
     map (\<lambda>r. nanoseconds_to_milliseconds p (timestamp_difference p (sint (lr_collector_arrival_timestamp_ns r)) (sint (source_timestamp_ns (lr_event r)))))
       (filter (\<lambda>r. source_clock (lr_event r) = CLOCK_DOMAIN_UTC) rs)"
  by (induction rs arbitrary: st) (simp_all add: analyze_record_def Let_def)

lemma faults_fold:
  "as_faults (fold (analyze_record p) rs st) = fold (\<lambda>r. count_fault (ev_payload (lr_event r))) rs (as_faults st)"
  by (induction rs arbitrary: st) (simp_all add: analyze_record_def Let_def)

section \<open>Streams\<close>

lemma fold_overwrite: "fold (\<lambda>r _. f r) ys d = (if ys = [] then d else f (last ys))"
  by (induction ys arbitrary: d) auto

definition source_time :: "log_record \<Rightarrow> int" where
  "source_time r = sint (source_timestamp_ns (lr_event r))"

definition arrival_time :: "log_record \<Rightarrow> int" where
  "arrival_time r = sint (lr_collector_arrival_timestamp_ns r)"

text \<open>A record regresses when the record before it with the same producer, payload and clock is not older.\<close>

definition regresses_after :: "log_record list \<Rightarrow> log_record \<Rightarrow> bool" where
  "regresses_after before r =
     (let ys = filter (\<lambda>x. source_key_of x = source_key_of r) before in ys \<noteq> [] \<and> source_time r \<le> source_time (last ys))"

definition regressions :: "stream_key \<Rightarrow> log_record list \<Rightarrow> nat" where
  "regressions k rs = length (filter (\<lambda>i. stream_key_of (rs ! i) = k \<and> regresses_after (take i rs) (rs ! i)) [0..<length rs])"

lemma regressions_snoc:
  "regressions k (rs @ [r]) = regressions k rs + (if stream_key_of r = k \<and> regresses_after rs r then 1 else 0)"
proof -
  have "filter (\<lambda>i. stream_key_of ((rs @ [r]) ! i) = k \<and> regresses_after (take i (rs @ [r])) ((rs @ [r]) ! i)) [0..<length rs] =
      filter (\<lambda>i. stream_key_of (rs ! i) = k \<and> regresses_after (take i rs) (rs ! i)) [0..<length rs]"
    by (intro filter_cong) (auto simp: nth_append)
  then show ?thesis by (simp add: regressions_def)
qed

lemma regressions_other: "k \<notin> stream_key_of ` set rs \<Longrightarrow> regressions k rs = 0"
  by (auto simp: regressions_def filter_empty_conv)

lemma regressed_lookup:
  "(case map_of (as_previous_source_timestamps (analyzed p rs)) (source_key_of r) of None \<Rightarrow> False | Some previous \<Rightarrow> source_time r \<le> previous) =
     regresses_after rs r"
proof -
  have look: "map_of (as_previous_source_timestamps (analyzed p rs)) (source_key_of r) = (if source_key_of r \<in> source_key_of ` set rs
      then Some (fold (\<lambda>r _. source_time r) (filter (\<lambda>x. source_key_of x = source_key_of r) rs) 0) else None)"
    by (simp add: previous_source_fold new_analysis_state_def om.find_group source_time_def)
  show ?thesis
  proof (cases "source_key_of r \<in> source_key_of ` set rs")
    case True
    then have "filter (\<lambda>x. source_key_of x = source_key_of r) rs \<noteq> []" by (auto simp: filter_empty_conv image_iff)
    then show ?thesis using True by (simp add: look fold_overwrite regresses_after_def)
  qed (simp add: look regresses_after_def)
qed

definition stream_accumulated :: "log_record list \<Rightarrow> stream_key \<Rightarrow> stream_accumulator" where
  "stream_accumulated rs k =
     (let xs = filter (\<lambda>r. stream_key_of r = k) rs
      in \<lparr>sa_stats = \<lparr>ss_producer_id = fst k, ss_payload = snd k, ss_records = of_nat (length xs), ss_observed_rate_hz = None,
            ss_interarrival_p50_ms = None, ss_jitter_p95_ms = None, ss_source_timestamp_regressions = of_nat (regressions k rs)\<rparr>,
          sa_collector_timestamps = map arrival_time xs\<rparr>)"

lemma streams_lookup:
  "ord_valid (as_streams (analyzed p rs)) \<and> (\<forall>k. map_of (as_streams (analyzed p rs)) k =
     (if k \<in> stream_key_of ` set rs then Some (stream_accumulated rs k) else None))"
proof (induction rs rule: rev_induct)
  case Nil
  show ?case by (simp add: new_analysis_state_def ord_valid_def)
next
  case (snoc r rs)
  let ?k = "stream_key_of r"
  have st: "as_streams (analyzed p (rs @ [r])) =
      ord_update ?k (count_stream r (regresses_after rs r)) new_stream_accumulator (as_streams (analyzed p rs))"
    using regressed_lookup [where p = p and rs = rs and r = r, unfolded source_time_def] by (simp add: analyze_record_def Let_def)
  have new: "count_stream r (regresses_after rs r) (if ?k \<in> stream_key_of ` set rs then stream_accumulated rs ?k else new_stream_accumulator) =
      stream_accumulated (rs @ [r]) ?k"
    by (auto simp: count_stream_def stream_accumulated_def new_stream_accumulator_def Let_def regressions_snoc regressions_other arrival_time_def)
      (auto simp: stream_key_of_def)
  have old: "stream_accumulated (rs @ [r]) k = stream_accumulated rs k" if "k \<noteq> ?k" for k
    using that by (auto simp: stream_accumulated_def regressions_snoc)
  have v: "ord_valid (as_streams (analyzed p rs))" and look: "map_of (as_streams (analyzed p rs)) k =
      (if k \<in> stream_key_of ` set rs then Some (stream_accumulated rs k) else None)" for k
    using snoc by blast+
  have "map_of (as_streams (analyzed p (rs @ [r]))) k =
      (if k \<in> stream_key_of ` set (rs @ [r]) then Some (stream_accumulated (rs @ [r]) k) else None)" for k
  proof (cases "k = ?k")
    case True
    then show ?thesis unfolding st ord_update_lookup [OF v] look using new by auto
  next
    case False
    then show ?thesis unfolding st ord_update_lookup [OF v] look using old by simp
  qed
  moreover have "ord_valid (as_streams (analyzed p (rs @ [r])))" unfolding st by (rule ord_update_valid [OF v])
  ultimately show ?case by blast
qed

lemma streams_closed:
  "as_streams (analyzed p rs) = map (\<lambda>k. (k, stream_accumulated rs k)) (sorted_list_of_set (stream_key_of ` set rs))"
  by (rule om.entries_eqI) (use streams_lookup [of p rs] in blast)+

section \<open>The observed period\<close>

lemma analyze_record_period:
  "as_first_collector_timestamp (analyze_record p r st) = (case as_first_collector_timestamp st of
     None \<Rightarrow> Some (arrival_time r) | Some earliest \<Rightarrow> Some (min (arrival_time r) earliest))"
  "as_last_collector_timestamp (analyze_record p r st) = (case as_last_collector_timestamp st of
     None \<Rightarrow> Some (arrival_time r) | Some latest \<Rightarrow> Some (max (arrival_time r) latest))"
  by (auto simp: analyze_record_def Let_def arrival_time_def min_def max_def split: option.splits)

lemma period_closed:
  "as_first_collector_timestamp (analyzed p rs) = (if rs = [] then None else Some (Min (arrival_time ` set rs))) \<and>
   as_last_collector_timestamp (analyzed p rs) = (if rs = [] then None else Some (Max (arrival_time ` set rs)))"
proof (induction rs rule: rev_induct)
  case Nil
  show ?case by (simp add: new_analysis_state_def)
next
  case (snoc r rs)
  then show ?case
    by (cases "rs = []") (simp_all add: analyze_record_period)
qed

lemma arrival_time_range: "- (2 ^ 63) \<le> arrival_time r" "arrival_time r < 2 ^ 63"
  using sint_greater_eq [of "lr_collector_arrival_timestamp_ns r"] sint_less [of "lr_collector_arrival_timestamp_ns r"]
  by (simp_all add: arrival_time_def)

section \<open>Finished streams\<close>

lemma percentile_mem: "samples \<noteq> [] \<Longrightarrow> percentile samples q \<in> set samples"
proof -
  assume "samples \<noteq> []"
  then have "min i (length samples - 1) < length (sort samples)" for i by (cases samples) (simp_all add: min_less_iff_disj)
  then have "sort samples ! min i (length samples - 1) \<in> set samples" for i using nth_mem by (metis set_sort)
  then show ?thesis by (simp add: percentile_def Let_def)
qed

lemma difference_nonneg: "b \<le> a \<Longrightarrow> 0 < p \<Longrightarrow> 0 \<le> timestamp_difference p a b"
  using fl_mono [of "of_int b" "of_int a" p] by (auto simp: timestamp_difference_def intro: fl_nonneg)

lemma milliseconds_nonneg: "0 \<le> x \<Longrightarrow> 0 < p \<Longrightarrow> 0 \<le> nanoseconds_to_milliseconds p x"
  by (simp add: nanoseconds_to_milliseconds_def fl_nonneg)

lemma intervals_nonneg:
  assumes "sorted ts" and "0 < p" and "x \<in> set (intervals p ts)"
  shows "0 \<le> x"
  using assms by (auto simp: intervals_def intro!: milliseconds_nonneg difference_nonneg sorted_nth_mono)

lemma finish_stream_few: "length (sa_collector_timestamps s) < 2 \<Longrightarrow> finish_stream p s = s"
  by (simp add: finish_stream_def)

lemma finish_stream_many:
  assumes n: "2 \<le> length (sa_collector_timestamps s)" and p: "0 < p"
  shows "ss_producer_id (sa_stats (finish_stream p s)) = ss_producer_id (sa_stats s)" (is ?id)
    and "ss_payload (sa_stats (finish_stream p s)) = ss_payload (sa_stats s)" (is ?payload)
    and "ss_records (sa_stats (finish_stream p s)) = ss_records (sa_stats s)" (is ?records)
    and "ss_source_timestamp_regressions (sa_stats (finish_stream p s)) = ss_source_timestamp_regressions (sa_stats s)" (is ?regressions)
    and "\<exists>m j. ss_interarrival_p50_ms (sa_stats (finish_stream p s)) = Some m \<and> 0 \<le> m \<and>
           ss_jitter_p95_ms (sa_stats (finish_stream p s)) = Some j \<and> 0 \<le> j" (is ?jitter)
    and "ss_observed_rate_hz (sa_stats s) = None \<Longrightarrow>
      (case ss_observed_rate_hz (sa_stats (finish_stream p s)) of
         None \<Rightarrow> timestamp_difference p (Max (set (sa_collector_timestamps s))) (Min (set (sa_collector_timestamps s))) \<le> 0
       | Some rate \<Rightarrow> 0 < rate)"
proof -
  let ?T = "sa_collector_timestamps s" and ?ts = "sort (sa_collector_timestamps s)"
  have ne: "?ts \<noteq> []" using n by (metis length_sort list.size(3) not_numeral_le_zero)
  show ?id ?payload ?records ?regressions using n by (simp_all add: finish_stream_def Let_def)
  have iv: "intervals p ?ts \<noteq> []" using n by (auto simp: intervals_def)
  have m: "0 \<le> percentile (intervals p ?ts) d050"
    using percentile_mem [OF iv] intervals_nonneg [OF sorted_sort p] by blast
  let ?dev = "map (\<lambda>x. \<bar>fl 53 (x - percentile (intervals p ?ts) d050)\<bar>) (intervals p ?ts)"
  have "percentile ?dev d095 \<in> set ?dev" using iv by (intro percentile_mem) simp
  then have "0 \<le> percentile ?dev d095" by auto
  with m show ?jitter using n by (simp add: finish_stream_def Let_def)
  have ends: "last ?ts = Max (set ?T)" "hd ?ts = Min (set ?T)"
    using sorted_ends [OF sorted_sort ne] by simp_all
  show "case ss_observed_rate_hz (sa_stats (finish_stream p s)) of
         None \<Rightarrow> timestamp_difference p (Max (set ?T)) (Min (set ?T)) \<le> 0 | Some rate \<Rightarrow> 0 < rate"
    if "ss_observed_rate_hz (sa_stats s) = None"
  proof -
    have "0 < fl 53 (fl p (fl p (fl p (of_nat (length ?ts - 1)) * 1000000000) / x))" if "0 < x" for x
      using that n p by (intro fl_pos divide_pos_pos mult_pos_pos) simp_all
    then show ?thesis using that n ends by (auto simp: finish_stream_def Let_def)
  qed
qed

section \<open>The report of a complete log\<close>

lemma length_images: "length es \<le> length (images k es)"
proof (induction es arbitrary: k)
  case (Cons e es)
  show ?case using Cons.IH [of "k + 1"] by simp
qed simp

lemma complete_records:
  assumes "rr_status (read_log parse (stored bs) \<lparr>maximum_records = n, retain_records = True\<rparr>) = Complete" and "length bs < 2 ^ 64"
  shows "length (rr_records (read_log parse (stored bs) \<lparr>maximum_records = n, retain_records = True\<rparr>)) < 2 ^ 64"
proof -
  obtain h es where bs: "bs = log_bytes h es"
      and ready: "scan_ready parse \<lparr>maximum_records = n, retain_records = True\<rparr> h es (length bs)"
    using read_log_complete_imp [OF assms] by blast
  have "length es \<le> length (images 0 es)" by (rule length_images)
  then have "length es \<le> length bs" by (simp add: bs log_bytes_def le_add2 order_trans)
  then show ?thesis using read_log_whole ready assms(2) by (simp add: bs)
qed

lemma fold_count_fault:
  "fold (\<lambda>r. count_fault (ev_payload (lr_event r))) rs \<lparr>fs_warnings = w, fs_errors = e, fs_critical = c\<rparr> =
   \<lparr>fs_warnings = w + of_nat (length (filter (\<lambda>r. \<exists>f. ev_payload (lr_event r) = Fault f \<and> fe_severity f = SEVERITY_WARNING) rs)),
     fs_errors = e + of_nat (length (filter (\<lambda>r. \<exists>f. ev_payload (lr_event r) = Fault f \<and> fe_severity f = SEVERITY_ERROR) rs)),
     fs_critical = c + of_nat (length (filter (\<lambda>r. \<exists>f. ev_payload (lr_event r) = Fault f \<and> fe_severity f = SEVERITY_CRITICAL) rs))\<rparr>"
  by (induction rs arbitrary: w e c) (auto simp: count_fault_def split: event_payload.splits)

lemma sum_records:
  assumes "\<And>k. k \<in> set ks \<Longrightarrow> unat (f k) = length (filter (\<lambda>r. key r = k) rs)" and "ks = sorted_list_of_set (key ` set rs)"
  shows "sum_list (map (\<lambda>k. unat (f k)) ks) = length rs"
proof -
  have "sum_list (map (\<lambda>k. unat (f k)) ks) = (\<Sum>k\<leftarrow>ks. length (filter (\<lambda>r. key r = k) rs))"
    by (intro arg_cong [where f = sum_list] map_cong) (simp_all add: assms(1))
  then show ?thesis by (simp add: assms(2) count_by_sorted_key)
qed

lemma length_of_producer: "length (of_producer q rs) = length (filter (\<lambda>r. producer_id (lr_event r) = q) rs)"
  by (simp add: of_producer_def filter_map comp_def)

lemma unat_count: "length rs < 2 ^ 64 \<Longrightarrow> unat (of_nat (length (filter P rs)) :: u64) = length (filter P rs)"
  by (intro unat_of_nat_u64) (rule le_less_trans [OF length_filter_le])

definition utc_deltas :: "nat \<Rightarrow> log_record list \<Rightarrow> rat list" where
  "utc_deltas p rs = map (\<lambda>r. nanoseconds_to_milliseconds p (timestamp_difference p (arrival_time r) (sint (source_timestamp_ns (lr_event r)))))
     (filter (\<lambda>r. source_clock (lr_event r) = CLOCK_DOMAIN_UTC) rs)"

lemma utc_closed: "as_utc_arrival_delta_ms (fold (analyze_record p) rs new_analysis_state) = utc_deltas p rs"
  by (simp add: deltas_fold utc_deltas_def arrival_time_def new_analysis_state_def)

definition stream_report :: "nat \<Rightarrow> log_record list \<Rightarrow> stream_key \<Rightarrow> stream_stats" where
  "stream_report p rs k = sa_stats (finish_stream p (stream_accumulated rs k))"

lemma analyze_records_report:
  "ar_status (analyze_records p rs report) = AnalysisComplete"
  "ar_records (analyze_records p rs report) = of_nat (length rs)"
  "ar_file_bytes (analyze_records p rs report) = ar_file_bytes report"
  "ar_producers (analyze_records p rs report) = map (\<lambda>q. producer_report q (of_producer q rs)) (producers_of rs)"
  "ar_streams (analyze_records p rs report) = map (stream_report p rs) (sorted_list_of_set (stream_key_of ` set rs))"
  "ar_faults (analyze_records p rs report) = fold (\<lambda>r. count_fault (ev_payload (lr_event r))) rs \<lparr>fs_warnings = 0, fs_errors = 0, fs_critical = 0\<rparr>"
  "ar_duration_seconds (analyze_records p rs report) = (if rs = [] then ar_duration_seconds report
     else Some (fl 53 (fl p (timestamp_difference p (Max (arrival_time ` set rs)) (Min (arrival_time ` set rs)) / 1000000000))))"
  "ar_utc_arrival_delta (analyze_records p rs report) =
     (if utc_deltas p rs = [] then ar_utc_arrival_delta report else Some (distribution (utc_deltas p rs)))"
  by (simp_all add: analyze_records_def Let_def producers_closed streams_closed stream_report_def comp_def faults_fold
        period_closed utc_closed split: option.splits)
    (simp add: new_analysis_state_def)

lemma stream_report_fields:
  assumes "0 < p"
  shows "ss_producer_id (stream_report p rs k) = fst k" and "ss_payload (stream_report p rs k) = snd k"
    and "ss_records (stream_report p rs k) = of_nat (length (filter (\<lambda>r. stream_key_of r = k) rs))"
    and "ss_source_timestamp_regressions (stream_report p rs k) = of_nat (regressions k rs)"
proof -
  define a where "a = stream_accumulated rs k"
  have kept: "ss_producer_id (sa_stats (finish_stream p a)) = ss_producer_id (sa_stats a)"
      "ss_payload (sa_stats (finish_stream p a)) = ss_payload (sa_stats a)"
      "ss_records (sa_stats (finish_stream p a)) = ss_records (sa_stats a)"
      "ss_source_timestamp_regressions (sa_stats (finish_stream p a)) = ss_source_timestamp_regressions (sa_stats a)"
    using finish_stream_few [of a p] finish_stream_many(1-4) [OF _ assms, of a]
    by (cases "length (sa_collector_timestamps a) < 2"; simp)+
  show "ss_producer_id (stream_report p rs k) = fst k" "ss_payload (stream_report p rs k) = snd k"
    "ss_records (stream_report p rs k) = of_nat (length (filter (\<lambda>r. stream_key_of r = k) rs))"
    "ss_source_timestamp_regressions (stream_report p rs k) = of_nat (regressions k rs)"
    unfolding stream_report_def a_def [symmetric] kept by (simp_all add: a_def stream_accumulated_def Let_def)
qed

lemma duration_error:
  assumes "64 \<le> p" and "rs \<noteq> []"
  defines "T \<equiv> map arrival_time rs"
  shows "\<bar>fl 53 (fl p (timestamp_difference p (Max (arrival_time ` set rs)) (Min (arrival_time ` set rs)) / 1000000000)) - arrival_span T / 10 ^ 9\<bar>
    \<le> arrival_span T / 10 ^ 9 / 2 ^ 52"
proof -
  have "Min (set T) \<in> set T" "Max (set T) \<in> set T" using assms(2) by (simp_all add: T_def)
  then have "timestamp_difference p (Max (set T)) (Min (set T)) = arrival_span T"
    using arrival_time_range assms(1) by (auto simp: arrival_span_def T_def int64_difference)
  moreover have "0 \<le> arrival_span T" using assms(2) by (simp add: arrival_span_def T_def)
  ultimately show ?thesis using fl_fl_error [OF assms(1), of "arrival_span T / 10 ^ 9"] by (simp add: T_def)
qed

text \<open>The fault events of a severity.\<close>

definition faults_of :: "int \<Rightarrow> log_record list \<Rightarrow> nat" where
  "faults_of severity rs = length (filter (\<lambda>r. \<exists>f. ev_payload (lr_event r) = Fault f \<and> fe_severity f = severity) rs)"

text \<open>
  C35: The report of a complete log accounts for every record: one entry per producer and one per
  stream of a producer, in order, each with the number of its records, which add up to the records of
  the log; for a producer the sequence numbers missing between neighbours and the neighbours that do
  not increase, in the order of the log; the numbers of warnings, errors and critical faults; the
  distribution of the arrival delays of the records with a UTC source clock, if there are any; and
  the duration unless the log is empty, which with a \<^verbatim>\<open>long double\<close> of at least 64 bits is the time
  from the earliest to the latest arrival, in seconds and within a relative \<open>2 ^ -52\<close>.
\<close>

theorem analysis_accounts_for_log:
  assumes "rr_status (read_log parse (stored bs) \<lparr>maximum_records = n, retain_records = True\<rparr>) = Complete"
    and "length bs < 2 ^ 64" and "0 < p"
  defines "rs \<equiv> rr_records (read_log parse (stored bs) \<lparr>maximum_records = n, retain_records = True\<rparr>)"
    and "report \<equiv> analyze_log p parse (stored bs) n"
  shows "ar_status report = AnalysisComplete \<and> unat (ar_records report) = length rs \<and>
    ar_producers report = map (\<lambda>q. let s = map sequence_number (of_producer q rs) in
      \<lparr>ps_producer_id = q, ps_records = of_nat (length s), ps_sequence_gaps = of_nat (skipped s),
       ps_non_increasing_sequences = of_nat (repeats s)\<rparr>) (producers_of rs) \<and>
    map (\<lambda>s. (ss_producer_id s, ss_payload s, unat (ss_records s))) (ar_streams report) =
      map (\<lambda>k. (fst k, snd k, length (filter (\<lambda>r. stream_key_of r = k) rs))) (sorted_list_of_set (stream_key_of ` set rs)) \<and>
    (\<Sum>s\<leftarrow>ar_producers report. unat (ps_records s)) = length rs \<and> (\<Sum>s\<leftarrow>ar_streams report. unat (ss_records s)) = length rs \<and>
    unat (fs_warnings (ar_faults report)) = faults_of SEVERITY_WARNING rs \<and>
    unat (fs_errors (ar_faults report)) = faults_of SEVERITY_ERROR rs \<and>
    unat (fs_critical (ar_faults report)) = faults_of SEVERITY_CRITICAL rs \<and>
    ar_utc_arrival_delta report = (if utc_deltas p rs = [] then None else Some (distribution (utc_deltas p rs))) \<and>
    (case ar_duration_seconds report of None \<Rightarrow> rs = []
     | Some d \<Rightarrow> rs \<noteq> [] \<and> (64 \<le> p \<longrightarrow> (let span = arrival_span (map arrival_time rs) / 10 ^ 9 in \<bar>d - span\<bar> \<le> span / 2 ^ 52)))"
proof -
  let ?before = "new_report\<lparr>ar_file_bytes := rr_file_size (read_log parse (stored bs) \<lparr>maximum_records = n, retain_records = True\<rparr>)\<rparr>"
  have rep: "report = analyze_records p rs ?before" using assms(1) by (simp add: report_def rs_def analyze_log_def Let_def)
  have len: "length rs < 2 ^ 64" using complete_records [OF assms(1,2)] by (simp add: rs_def)
  have ps: "(\<Sum>s\<leftarrow>ar_producers report. unat (ps_records s)) = length rs"
    unfolding rep analyze_records_report map_map comp_def producer_report_def producer_stats.select_convs length_of_producer
    by (rule sum_records [where key = "\<lambda>r. producer_id (lr_event r)"]) (simp_all add: unat_count [OF len] producers_of_def)
  have ss: "(\<Sum>s\<leftarrow>ar_streams report. unat (ss_records s)) = length rs"
    unfolding rep analyze_records_report map_map comp_def stream_report_fields(3) [OF assms(3)]
    by (rule sum_records [where key = stream_key_of]) (simp_all add: unat_count [OF len])
  have streams: "map (\<lambda>s. (ss_producer_id s, ss_payload s, unat (ss_records s))) (ar_streams report) =
      map (\<lambda>k. (fst k, snd k, length (filter (\<lambda>r. stream_key_of r = k) rs))) (sorted_list_of_set (stream_key_of ` set rs))"
    by (simp add: rep analyze_records_report stream_report_fields [OF assms(3)] unat_count [OF len])
  have faults: "unat (fs_warnings (ar_faults report)) = faults_of SEVERITY_WARNING rs \<and>
      unat (fs_errors (ar_faults report)) = faults_of SEVERITY_ERROR rs \<and> unat (fs_critical (ar_faults report)) = faults_of SEVERITY_CRITICAL rs"
    by (simp add: rep analyze_records_report fold_count_fault faults_of_def unat_count [OF len])
  have duration: "case ar_duration_seconds report of None \<Rightarrow> rs = []
      | Some d \<Rightarrow> rs \<noteq> [] \<and> (64 \<le> p \<longrightarrow> (let span = arrival_span (map arrival_time rs) / 10 ^ 9 in \<bar>d - span\<bar> \<le> span / 2 ^ 52))"
    using duration_error [of p rs] unfolding rep analyze_records_report Let_def by (simp add: new_report_def mult.commute)
  show ?thesis
    using ps ss streams faults duration len
    by (simp add: rep analyze_records_report unat_of_nat_u64 producer_report_def Let_def new_report_def)
qed

text \<open>The sample log: two events of one thermometer, arriving at 500 and 600 nanoseconds.\<close>

lemma sample_complete:
  "rr_status (read_log sample_parse (stored sample_log) \<lparr>maximum_records = 1000000, retain_records = True\<rparr>) = Complete"
  using sample_log_complete by (simp add: default_options_def)

lemma sample_length: "length sample_log < 2 ^ 64"
  by (simp add: length_sample_log)

lemma sample_records:
  "rr_records (read_log sample_parse (stored sample_log) \<lparr>maximum_records = 1000000, retain_records = True\<rparr>) =
     entries_at entry_record 0 32 sample_entries"
  using read_log_whole [OF sample_ready [unfolded sample_log_def log_bytes_def [symmetric], unfolded default_options_def]]
  by (simp add: sample_log_def log_bytes_def)

theorem analysis_accounts_for_log_witness:
  "(\<Sum>s\<leftarrow>ar_producers (analyze_log 64 sample_parse (stored sample_log) 1000000). unat (ps_records s)) = 2"
proof -
  have "0 < (64 :: nat)" by simp
  from analysis_accounts_for_log [OF sample_complete sample_length this]
  have "(\<Sum>s\<leftarrow>ar_producers (analyze_log 64 sample_parse (stored sample_log) 1000000). unat (ps_records s)) =
      length (rr_records (read_log sample_parse (stored sample_log) \<lparr>maximum_records = 1000000, retain_records = True\<rparr>))" by blast
  then show ?thesis by (simp only: sample_records length_entries_at) (simp add: sample_entries_def)
qed

text \<open>
  C37: Every stream of the report describes its records: identity and count, and the records whose
  source timestamp is not above the one before it on the same clock.  A stream of one record has no
  timing figures.  From two records on the median interval and the jitter are present and not
  negative, and the rate is present and positive unless the arrival times span nothing.  With a
  \<^verbatim>\<open>long double\<close> of at least 64 bits and up to \<open>10 ^ 10\<close> records the figures are those of
  \<^verbatim>\<open>docs/analysis.md\<close> in exact arithmetic, up to rounding: the nearest-rank median of the intervals
  between neighbouring arrivals and the 95th percentile of their distances from that median, in
  milliseconds and within a \<open>2 ^ 50\<close>th of the span of the arrivals; and the number of intervals
  divided by that span in seconds, within a relative \<open>2 ^ -52\<close>.
\<close>

theorem analysis_streams:
  assumes "rr_status (read_log parse (stored bs) \<lparr>maximum_records = n, retain_records = True\<rparr>) = Complete"
    and "length bs < 2 ^ 64" and "0 < p" and "s \<in> set (ar_streams (analyze_log p parse (stored bs) n))"
  defines "rs \<equiv> rr_records (read_log parse (stored bs) \<lparr>maximum_records = n, retain_records = True\<rparr>)"
    and "mine \<equiv> filter (\<lambda>r. stream_key_of r = (ss_producer_id s, ss_payload s))
           (rr_records (read_log parse (stored bs) \<lparr>maximum_records = n, retain_records = True\<rparr>))"
  shows "mine \<noteq> [] \<and> unat (ss_records s) = length mine \<and>
    unat (ss_source_timestamp_regressions s) = regressions (ss_producer_id s, ss_payload s) rs \<and>
    (if length mine < 2 then ss_observed_rate_hz s = None \<and> ss_interarrival_p50_ms s = None \<and> ss_jitter_p95_ms s = None
     else (\<exists>m j. ss_interarrival_p50_ms s = Some m \<and> 0 \<le> m \<and> ss_jitter_p95_ms s = Some j \<and> 0 \<le> j) \<and>
       (case ss_observed_rate_hz s of
          None \<Rightarrow> timestamp_difference p (Max (arrival_time ` set mine)) (Min (arrival_time ` set mine)) \<le> 0
        | Some rate \<Rightarrow> 0 < rate) \<and>
       (64 \<le> p \<longrightarrow> length mine \<le> 10 ^ 10 \<longrightarrow> timing_accurate (map arrival_time mine) s))"
proof -
  have len: "length rs < 2 ^ 64" using complete_records [OF assms(1,2)] by (simp add: rs_def)
  have "ar_streams (analyze_log p parse (stored bs) n) = map (stream_report p rs) (sorted_list_of_set (stream_key_of ` set rs))"
    using assms(1) by (simp add: analyze_log_def Let_def rs_def analyze_records_report)
  then obtain k where k: "k \<in> stream_key_of ` set rs" "s = stream_report p rs k" using assms(4) by auto
  let ?a = "stream_accumulated rs k"
  have id: "ss_producer_id s = fst k" "ss_payload s = snd k" "ss_records s = of_nat (length (filter (\<lambda>r. stream_key_of r = k) rs))"
      "ss_source_timestamp_regressions s = of_nat (regressions k rs)"
    by (simp_all add: k(2) stream_report_fields [OF assms(3)])
  have mine: "mine = filter (\<lambda>r. stream_key_of r = k) rs" by (simp add: mine_def rs_def id)
  have "regressions k rs \<le> length rs" unfolding regressions_def by (rule order_trans [OF length_filter_le]) simp
  then have reg: "unat (of_nat (regressions k rs) :: u64) = regressions k rs" using len by (intro unat_of_nat_u64) simp
  have times: "sa_collector_timestamps ?a = map arrival_time mine" "ss_observed_rate_hz (sa_stats ?a) = None"
      "ss_interarrival_p50_ms (sa_stats ?a) = None" "ss_jitter_p95_ms (sa_stats ?a) = None"
    by (simp_all add: stream_accumulated_def Let_def mine)
  have "mine \<noteq> []" using k(1) by (auto simp: mine filter_empty_conv)
  moreover have "unat (ss_records s) = length mine" using unat_count [OF len] by (simp add: id mine)
  moreover have "unat (ss_source_timestamp_regressions s) = regressions (ss_producer_id s, ss_payload s) rs" by (simp add: id reg)
  moreover have "ss_observed_rate_hz s = None \<and> ss_interarrival_p50_ms s = None \<and> ss_jitter_p95_ms s = None" if "length mine < 2"
    using that finish_stream_few [of ?a p] times by (simp add: k(2) stream_report_def)
  moreover have "(\<exists>m j. ss_interarrival_p50_ms s = Some m \<and> 0 \<le> m \<and> ss_jitter_p95_ms s = Some j \<and> 0 \<le> j) \<and>
       (case ss_observed_rate_hz s of
          None \<Rightarrow> timestamp_difference p (Max (arrival_time ` set mine)) (Min (arrival_time ` set mine)) \<le> 0
        | Some rate \<Rightarrow> 0 < rate)" if "\<not> length mine < 2"
    using that finish_stream_many(5) [of ?a p] finish_stream_many(6) [of ?a p, OF _ assms(3) times(2), unfolded times(1) set_map length_map]
      assms(3) times(1) by (simp add: k(2) stream_report_def)
  moreover have "timing_accurate (map arrival_time mine) s" if "\<not> length mine < 2" "64 \<le> p" "length mine \<le> 10 ^ 10"
    using that finish_stream_accurate [of p ?a] arrival_time_range times(1,2) by (simp add: k(2) stream_report_def)
  ultimately show ?thesis by simp
qed

lemma sample_streams:
  "map (\<lambda>s. (ss_producer_id s, ss_payload s)) (ar_streams (analyze_log 64 sample_parse (stored sample_log) 1000000)) =
     [(''probe'', ''temperature'')]"
proof -
  let ?rs = "entries_at entry_record 0 32 sample_entries"
  have keys: "stream_key_of ` set ?rs = {(''probe'', ''temperature'')}"
    by (simp add: sample_entries_def entry_record_def stream_key_of_def sample_event_def)
  have "(ss_producer_id (stream_report 64 ?rs k), ss_payload (stream_report 64 ?rs k)) = k" for k
    by (simp add: stream_report_fields)
  then show ?thesis
    using sample_complete by (simp add: analyze_log_def Let_def sample_records analyze_records_report keys comp_def)
qed

theorem analysis_streams_witness:
  "\<exists>s \<in> set (ar_streams (analyze_log 64 sample_parse (stored sample_log) 1000000)).
     unat (ss_records s) = 2 \<and> timing_accurate [500, 600] s"
proof -
  obtain s where s: "s \<in> set (ar_streams (analyze_log 64 sample_parse (stored sample_log) 1000000))"
      "ss_producer_id s = ''probe''" "ss_payload s = ''temperature''"
    using sample_streams by (auto simp: map_eq_Cons_conv)
  have "unat (ss_records s) = 2 \<and> timing_accurate [500, 600] s"
    using analysis_streams [OF sample_complete sample_length _ s(1)]
    by (simp add: s sample_records sample_entries_def entry_record_def stream_key_of_def sample_event_def arrival_time_def)
  with s(1) show ?thesis by blast
qed

section \<open>Agreement with the collector\<close>

text \<open>The accumulator of a producer and the validator of its stream count alike.\<close>

definition agree :: "stream_validator \<Rightarrow> producer_accumulator \<Rightarrow> bool" where
  "agree v a \<longleftrightarrow> ps_records (pa_stats a) = sv_accepted_events v \<and> ps_sequence_gaps (pa_stats a) = sv_sequence_gaps v \<and>
     ps_non_increasing_sequences (pa_stats a) = 0 \<and>
     pa_previous_sequence a = (if sv_accepted_events v = 0 then None else Some (sv_last_sequence_number v))"

lemma agree_step:
  assumes "agree v a" and "continues v e" and "unat (sv_accepted_events v) + 1 < 2 ^ 64"
  shows "agree (record_event v e) (count_producer e a)"
proof -
  have "sv_accepted_events v + 1 \<noteq> 0" using word_Suc_ne_zero [of "sv_accepted_events v"] assms(3) by auto
  then show ?thesis using assms(1,2)
    by (auto simp: agree_def continues_def record_event_def count_producer_def Let_def)
qed

lemma agree_stream:
  "accept_all v es = Some w \<Longrightarrow> agree v a \<Longrightarrow> unat (sv_accepted_events v) + length es < 2 ^ 64 \<Longrightarrow>
   agree w (fold count_producer es a)"
proof (induction es arbitrary: v a)
  case (Cons e es)
  from Cons.prems(1) have c: "continues v e" "accept_all (record_event v e) es = Some w" by (simp_all only: accept_all_Cons_iff)
  have "unat (sv_accepted_events (record_event v e)) = unat (sv_accepted_events v) + 1"
    using Cons.prems(3) by (simp add: record_event_def Let_def word_Suc_ne_zero)
  then show ?case using Cons.IH [OF c(2) agree_step [OF Cons.prems(2) c(1)]] Cons.prems(3) by simp
qed simp

text \<open>
  C36: The analyzer agrees with the collector.  When the logged events of a producer passed the stream
  validator as one stream, the report of the log shows for that producer what the stream summary told
  the client: the same number of events, the same number of missing sequence numbers, and no sequence
  number out of order.
\<close>

theorem analysis_agrees_with_summary:
  assumes "rr_status (read_log parse (stored bs) \<lparr>maximum_records = n, retain_records = True\<rparr>) = Complete"
    and "length bs < 2 ^ 64" and "0 < p"
    and "es = of_producer q (rr_records (read_log parse (stored bs) \<lparr>maximum_records = n, retain_records = True\<rparr>))"
    and "es \<noteq> []" and "accept_all new_validator es = Some v"
  defines "summary \<equiv> populate_summary v empty_summary"
  shows "\<lparr>ps_producer_id = q, ps_records = summary_accepted_events summary, ps_sequence_gaps = summary_sequence_gaps summary,
     ps_non_increasing_sequences = 0\<rparr> \<in> set (ar_producers (analyze_log p parse (stored bs) n))"
proof -
  define rs where "rs = rr_records (read_log parse (stored bs) \<lparr>maximum_records = n, retain_records = True\<rparr>)"
  have es: "es = of_producer q rs" by (simp add: assms(4) rs_def)
  have "length es < 2 ^ 64"
    unfolding es length_of_producer using complete_records [OF assms(1,2)] by (metis le_less_trans length_filter_le rs_def)
  then have "agree v (fold count_producer es new_producer_accumulator)"
    using assms(6) by (intro agree_stream) (auto simp: agree_def new_validator_def new_producer_accumulator_def)
  moreover have "pa_stats (fold count_producer es new_producer_accumulator) = producer_report q es"
    using fold_count_producer [OF assms(5), of q] by (simp add: es of_producer_def producer_report_def)
  ultimately have "producer_report q es = \<lparr>ps_producer_id = q, ps_records = summary_accepted_events summary,
      ps_sequence_gaps = summary_sequence_gaps summary, ps_non_increasing_sequences = 0\<rparr>"
    by (simp add: agree_def summary_def populate_summary_def producer_report_def)
  moreover have "q \<in> set (producers_of rs)" using assms(5) by (auto simp: es of_producer_def producers_of_def filter_empty_conv)
  moreover have "ar_producers (analyze_log p parse (stored bs) n) = map (\<lambda>q. producer_report q (of_producer q rs)) (producers_of rs)"
    using assms(1) by (simp add: analyze_log_def Let_def rs_def analyze_records_report)
  ultimately show ?thesis by (force simp: es)
qed

theorem analysis_agrees_with_summary_witness:
  "\<lparr>ps_producer_id = ''probe'', ps_records = 2, ps_sequence_gaps = 0, ps_non_increasing_sequences = 0\<rparr>
     \<in> set (ar_producers (analyze_log 64 sample_parse (stored sample_log) 1000000))"
proof -
  let ?es = "[sample_event 1 100, sample_event 2 200]"
  have es: "?es = of_producer ''probe'' (rr_records (read_log sample_parse (stored sample_log) \<lparr>maximum_records = 1000000, retain_records = True\<rparr>))"
    by (simp add: sample_records of_producer_def sample_entries_def entry_record_def sample_event_def)
  let ?v = "record_event (record_event new_validator (sample_event 1 100)) (sample_event 2 200)"
  have "event_ok (sample_event 1 100)" "event_ok (sample_event 2 200)" by (simp_all add: event_ok_sample)
  then have "accept_all new_validator ?es = Some ?v"
    by (simp only: accept_all_Cons_iff accept_all.simps(1)) (simp add: continues_def new_validator_def record_event_def sample_event_def)
  from analysis_agrees_with_summary [OF sample_complete sample_length _ es _ this, of 64] show ?thesis
    by (simp add: populate_summary_def record_event_def new_validator_def sample_event_def)
qed

section \<open>Logs that are not complete\<close>

text \<open>
  C39: A damaged log yields no statistics.  Whichever single byte of a complete log is changed, the
  analysis of the file fails with a message that says so, and every list and count of the report stays
  empty.
\<close>

theorem analysis_refuses_damaged_log:
  fixes p :: nat
  assumes "rr_status (read_log parse (stored bs) \<lparr>maximum_records = n, retain_records = True\<rparr>) = Complete"
    and "length bs < 2 ^ 64" and "i < length bs" and "b \<noteq> bs ! i"
  defines "report \<equiv> analyze_log p parse (stored (bs[i := b])) n"
  shows "ar_status report = LogError \<and> ar_records report = 0 \<and> ar_producers report = [] \<and> ar_streams report = [] \<and>
    ar_duration_seconds report = None \<and> ar_utc_arrival_delta report = None \<and>
    ar_faults report = \<lparr>fs_warnings = 0, fs_errors = 0, fs_critical = 0\<rparr> \<and>
    (\<exists>m. ar_message report = ''cannot analyze telemetry log: '' @ m)"
proof -
  have "rr_status (read_log parse (stored (bs[i := b])) \<lparr>maximum_records = n, retain_records = True\<rparr>) = Corrupt"
    by (rule damaged_byte_corrupt [OF assms(1-4)])
  then show ?thesis by (simp add: report_def analyze_log_def Let_def new_report_def)
qed

theorem analysis_refuses_damaged_log_witness:
  "ar_status (analyze_log 64 sample_parse (stored (sample_log[68 := 9])) 1000000) = LogError"
  using analysis_refuses_damaged_log [OF sample_complete sample_length, of 68 9 64] by (simp add: length_sample_log sample_log_68)

end
