(* ===== verification/TF_Cli.thy ===== *)
theory TF_Cli
  imports TF_Analyzer TF_Publisher TF_Generator TF_Replay
begin

text \<open>
  \<^verbatim>\<open>app/main.cpp\<close>: the command line.  A run is the exit code and what is written to the standard
  streams.  Arguments are the elements of \<^verbatim>\<open>argv\<close>; an option loop is a recursion over them that
  consumes one element for a flag and two for an option with a value, and ends with the parsed
  options, with a request for help, or with the message of the exception thrown.
\<close>

section \<open>Text\<close>

abbreviation (input) nl :: string where "nl \<equiv> [CHR 0x0A]"
abbreviation (input) dq :: string where "dq \<equiv> [CHR 0x22]"

fun dec_digits :: "nat \<Rightarrow> string" where
  "dec_digits n = (if n < 10 then [''0123456789'' ! n] else dec_digits (n div 10) @ [''0123456789'' ! (n mod 10)])"

declare dec_digits.simps [simp del]

text \<open>\<^verbatim>\<open>operator<<\<close> on integers.\<close>

definition show_int :: "int \<Rightarrow> string" where
  "show_int i = (if i < 0 then CHR ''-'' # dec_digits (nat (- i)) else dec_digits (nat i))"

definition show_word :: "'a::len word \<Rightarrow> string" where
  "show_word w = dec_digits (unat w)"

definition show_bool :: "bool \<Rightarrow> string" where
  "show_bool b = (if b then ''true'' else ''false'')"

section \<open>Integers\<close>

definition is_digit :: "char \<Rightarrow> bool" where
  "is_digit c = (c \<in> set ''0123456789'')"

definition digits_value :: "string \<Rightarrow> nat" where
  "digits_value s = foldl (\<lambda>n c. 10 * n + (of_char c - 48)) 0 s"

text \<open>\<^verbatim>\<open>std::from_chars\<close> in base ten for the integer type with range \<open>lo\<close> to \<open>hi\<close>: the value and the
  unread rest, or an error.  A minus sign is only read for a signed type.\<close>

definition from_chars :: "int \<Rightarrow> int \<Rightarrow> string \<Rightarrow> (int \<times> string) option" where
  "from_chars lo hi text =
     (let negative = (lo < 0 \<and> text \<noteq> [] \<and> hd text = CHR ''-'');
          body = (if negative then tl text else text);
          digits = takeWhile is_digit body;
          parsed = (if negative then - int (digits_value digits) else int (digits_value digits))
      in if digits = [] \<or> parsed < lo \<or> hi < parsed then None else Some (parsed, dropWhile is_digit body))"

definition parse_integer :: "int \<Rightarrow> int \<Rightarrow> string \<Rightarrow> string \<Rightarrow> string + int" where
  "parse_integer lo hi text option =
     (case from_chars lo hi text of
        None \<Rightarrow> Inl (''invalid value for '' @ option)
      | Some (parsed, rest) \<Rightarrow> if rest \<noteq> [] then Inl (''invalid value for '' @ option) else Inr parsed)"

definition parse_uint64 :: "string \<Rightarrow> string \<Rightarrow> string + int" where
  "parse_uint64 = parse_integer 0 (2 ^ 64 - 1)"

definition parse_int64 :: "string \<Rightarrow> string \<Rightarrow> string + int" where
  "parse_int64 = parse_integer (- (2 ^ 63)) (2 ^ 63 - 1)"

definition parse_probability :: "string \<Rightarrow> string \<Rightarrow> string + u32" where
  "parse_probability text option =
     (case parse_uint64 text option of
        Inl e \<Rightarrow> Inl e
      | Inr parsed \<Rightarrow> if parsed > 2 ^ 32 - 1 then Inl (''value is too large for '' @ option) else Inr (of_int parsed))"

text \<open>\<open>stod\<close> is \<^verbatim>\<open>std::stod\<close>: the number and how many characters it has read, or the message of the
  exception it throws.\<close>

definition parse_speed :: "(string \<Rightarrow> string + f64 \<times> nat) \<Rightarrow> string \<Rightarrow> string + f64" where
  "parse_speed stod text =
     (case stod text of
        Inl e \<Rightarrow> Inl e
      | Inr (parsed, consumed) \<Rightarrow>
          if consumed \<noteq> length text \<or> \<not> f64_isfinite parsed \<or> f64_less parsed 0
          then Inl ''replay speed must be finite and non-negative'' else Inr parsed)"

section \<open>Option loops\<close>

datatype 'o parsed = Help | Invalid string | Options 'o

definition is_help :: "string \<Rightarrow> bool" where
  "is_help option = (option = ''--help'' \<or> option = ''-h'')"

text \<open>The loop of each command: \<open>flag\<close> handles an option without value, \<open>set\<close> one with a value.
  \<^verbatim>\<open>option_value\<close> is the case of a missing value.\<close>

fun parse_options :: "(string \<Rightarrow> 'o \<Rightarrow> 'o option) \<Rightarrow> (string \<Rightarrow> string \<Rightarrow> 'o \<Rightarrow> string + 'o) \<Rightarrow> string list \<Rightarrow> 'o \<Rightarrow> 'o parsed" where
  "parse_options flag assign [] opts = Options opts"
| "parse_options flag assign [option] opts =
     (if is_help option then Help
      else case flag option opts of Some opts \<Rightarrow> Options opts | None \<Rightarrow> Invalid (''missing value after '' @ option))"
| "parse_options flag assign (option # text # args) opts =
     (if is_help option then Help
      else case flag option opts of
             Some opts \<Rightarrow> parse_options flag assign (text # args) opts
           | None \<Rightarrow> (case assign option text opts of Inl e \<Rightarrow> Invalid e | Inr opts \<Rightarrow> parse_options flag assign args opts))"

subsection \<open>generate\<close>

record generator_options =
  go_config :: generator_config
  go_print_events :: bool
  go_target :: string
  go_connect_timeout_ms :: int

definition default_generator_options :: generator_options where
  "default_generator_options = \<lparr>go_config = default_generator_config, go_print_events = False, go_target = [], go_connect_timeout_ms = 5000\<rparr>"

definition print_events_flag :: "('o \<Rightarrow> 'o) \<Rightarrow> string \<Rightarrow> 'o \<Rightarrow> 'o option" where
  "print_events_flag f option opts = (if option = ''--print-events'' then Some (f opts) else None)"

abbreviation (input) with_value :: "string + 'a \<Rightarrow> ('a \<Rightarrow> string + 'o) \<Rightarrow> string + 'o" where
  "with_value r f \<equiv> (case r of Inl e \<Rightarrow> Inl e | Inr v \<Rightarrow> f v)"

definition generator_option :: "string \<Rightarrow> string \<Rightarrow> generator_options \<Rightarrow> string + generator_options" where
  "generator_option option text opts =
     (let config = go_config opts
      in if option = ''--seed'' then
           with_value (parse_uint64 text option) (\<lambda>seed. Inr (opts\<lparr>go_config := config\<lparr>cfg_seed := of_int seed\<rparr>\<rparr>))
         else if option = ''--duration-ms'' then
           with_value (parse_int64 text option) (\<lambda>duration_ms.
             if duration_ms \<le> 0 \<or> duration_ms > 3600000 then Inl ''duration must be between 1 and 3600000 ms''
             else Inr (opts\<lparr>go_config := config\<lparr>cfg_duration := duration_ms * 1000000\<rparr>\<rparr>))
         else if option = ''--jitter-us'' then
           with_value (parse_int64 text option) (\<lambda>jitter_us.
             if jitter_us < 0 \<or> jitter_us > 3600000000 then Inl ''jitter must be between 0 and 3600000000 us''
             else Inr (opts\<lparr>go_config := config\<lparr>cfg_max_jitter := jitter_us * 1000\<rparr>\<rparr>))
         else if option = ''--clock-drift-ppm'' then
           with_value (parse_int64 text option) (\<lambda>drift. Inr (opts\<lparr>go_config := config\<lparr>cfg_clock_drift_ppm := drift\<rparr>\<rparr>))
         else if option = ''--drop-per-million'' then
           with_value (parse_probability text option) (\<lambda>p. Inr (opts\<lparr>go_config := config\<lparr>cfg_faults := (cfg_faults config)\<lparr>drop_per_million := p\<rparr>\<rparr>\<rparr>))
         else if option = ''--duplicate-per-million'' then
           with_value (parse_probability text option) (\<lambda>p. Inr (opts\<lparr>go_config := config\<lparr>cfg_faults := (cfg_faults config)\<lparr>duplicate_per_million := p\<rparr>\<rparr>\<rparr>))
         else if option = ''--reorder-per-million'' then
           with_value (parse_probability text option) (\<lambda>p. Inr (opts\<lparr>go_config := config\<lparr>cfg_faults := (cfg_faults config)\<lparr>reorder_per_million := p\<rparr>\<rparr>\<rparr>))
         else if option = ''--target'' then Inr (opts\<lparr>go_target := text\<rparr>)
         else if option = ''--connect-timeout-ms'' then
           with_value (parse_int64 text option) (\<lambda>timeout_ms.
             if timeout_ms \<le> 0 \<or> timeout_ms > 60000 then Inl ''connect timeout must be between 1 and 60000 ms''
             else Inr (opts\<lparr>go_connect_timeout_ms := timeout_ms\<rparr>))
         else Inl (''unknown generator option: '' @ option))"

definition parse_generator :: "string list \<Rightarrow> generator_options parsed" where
  "parse_generator args = parse_options (print_events_flag (\<lambda>opts. opts\<lparr>go_print_events := True\<rparr>)) generator_option args default_generator_options"

subsection \<open>collect\<close>

record collector_options =
  co_listen_address :: string
  co_queue_capacity :: nat
  co_consumer_delay_us :: int
  co_output_path :: string
  co_flush_every_records :: u64

definition default_collector_options :: collector_options where
  "default_collector_options = \<lparr>co_listen_address = ''0.0.0.0:50051'', co_queue_capacity = 4096, co_consumer_delay_us = 0,
     co_output_path = [], co_flush_every_records = 64\<rparr>"

definition collector_option :: "string \<Rightarrow> string \<Rightarrow> collector_options \<Rightarrow> string + collector_options" where
  "collector_option option text opts =
     (if option = ''--listen'' then Inr (opts\<lparr>co_listen_address := text\<rparr>)
      else if option = ''--queue-capacity'' then
        with_value (parse_uint64 text option) (\<lambda>capacity.
          if capacity = 0 \<or> capacity > 1000000 then Inl ''queue capacity must be between 1 and 1000000''
          else Inr (opts\<lparr>co_queue_capacity := nat capacity\<rparr>))
      else if option = ''--consumer-delay-us'' then
        with_value (parse_int64 text option) (\<lambda>delay.
          if delay < 0 \<or> delay > 10000000 then Inl ''consumer delay must be between 0 and 10000000 us''
          else Inr (opts\<lparr>co_consumer_delay_us := delay\<rparr>))
      else if option = ''--output'' then
        (if text = [] then Inl ''output path cannot be empty'' else Inr (opts\<lparr>co_output_path := text\<rparr>))
      else if option = ''--flush-every'' then
        with_value (parse_uint64 text option) (\<lambda>flush_every.
          if flush_every = 0 \<or> flush_every > 1000000 then Inl ''flush interval must be between 1 and 1000000''
          else Inr (opts\<lparr>co_flush_every_records := of_int flush_every\<rparr>))
      else Inl (''unknown collector option: '' @ option))"

definition parse_collector :: "string list \<Rightarrow> collector_options parsed" where
  "parse_collector args =
     (case parse_options (\<lambda>_ _. None) collector_option args default_collector_options of
        Options opts \<Rightarrow>
          if co_output_path opts \<noteq> [] \<and> co_consumer_delay_us opts > 0
          then Invalid ''consumer delay cannot be combined with file recording'' else Options opts
      | outcome \<Rightarrow> outcome)"

subsection \<open>replay\<close>

record replay_command =
  rc_options :: replay_options
  rc_print_events :: bool

definition default_replay_command :: replay_command where
  "default_replay_command = \<lparr>rc_options = \<lparr>from_collector_timestamp_ns = None, until_collector_timestamp_ns = None, replay_speed = 0\<rparr>,
     rc_print_events = False\<rparr>"

definition replay_option :: "(string \<Rightarrow> string + f64 \<times> nat) \<Rightarrow> string \<Rightarrow> string \<Rightarrow> replay_command \<Rightarrow> string + replay_command" where
  "replay_option stod option text opts =
     (let options = rc_options opts
      in if option = ''--from-ns'' then
           with_value (parse_int64 text option) (\<lambda>t. Inr (opts\<lparr>rc_options := options\<lparr>from_collector_timestamp_ns := Some (of_int t)\<rparr>\<rparr>))
         else if option = ''--until-ns'' then
           with_value (parse_int64 text option) (\<lambda>t. Inr (opts\<lparr>rc_options := options\<lparr>until_collector_timestamp_ns := Some (of_int t)\<rparr>\<rparr>))
         else if option = ''--speed'' then
           with_value (parse_speed stod text) (\<lambda>s. Inr (opts\<lparr>rc_options := options\<lparr>replay_speed := s\<rparr>\<rparr>))
         else Inl (''unknown replay option: '' @ option))"

definition parse_replay :: "(string \<Rightarrow> string + f64 \<times> nat) \<Rightarrow> string list \<Rightarrow> replay_command parsed" where
  "parse_replay stod args =
     parse_options (print_events_flag (\<lambda>opts. opts\<lparr>rc_print_events := True\<rparr>)) (replay_option stod) args default_replay_command"

end
