(* ===== verification/TF_Commands.thy ===== *)
theory TF_Commands
  imports TF_Cli
begin

text \<open>
  The commands of \<^verbatim>\<open>app/main.cpp\<close> and \<^verbatim>\<open>main\<close>: what each of them prints and the code it exits with.
  What lies outside the program is an argument: the Protobuf functions, the files, the answers of
  gRPC and of the operating system, and the text of a floating-point number.
\<close>

section \<open>Help\<close>

definition project_name :: string where "project_name = ''TraceForge''"

definition help_text :: string where
  "help_text =
     project_name @
     '' - multi-sensor telemetry tooling'' @ nl @ nl @
     ''Usage:'' @ nl @
     ''  traceforge --help       Show this message'' @ nl @
     ''  traceforge --version    Show the current version'' @ nl @
     ''  traceforge collect [OPTIONS]'' @ nl @
     ''                          Run the telemetry collector'' @ nl @
     ''  traceforge generate [OPTIONS]'' @ nl @
     ''                          Generate deterministic sensor data'' @ nl @
     ''  traceforge inspect FILE Inspect and validate a telemetry log'' @ nl @
     ''  traceforge analyze FILE Summarize rates, jitter, gaps, and timing'' @ nl @
     ''  traceforge recover FILE Remove an incomplete final record'' @ nl @
     ''  traceforge replay FILE [OPTIONS]'' @ nl @
     ''                          Deterministically replay a log'' @ nl"

definition generator_help_text :: string where
  "generator_help_text =
     ''Generator options:'' @ nl @
     ''  --seed N                 Deterministic random seed'' @ nl @
     ''  --duration-ms N          Simulated duration in milliseconds'' @ nl @
     ''  --jitter-us N            Maximum signed timestamp jitter'' @ nl @
     ''  --clock-drift-ppm N      Source-clock drift in parts per million'' @ nl @
     ''  --drop-per-million N     Event drop probability'' @ nl @
     ''  --duplicate-per-million N  Event duplication probability'' @ nl @
     ''  --reorder-per-million N  Adjacent-pair reorder probability'' @ nl @
     ''  --target ADDRESS         Stream to a running collector'' @ nl @
     ''  --connect-timeout-ms N   Collector connection timeout'' @ nl @
     ''  --print-events           Print the generated event stream'' @ nl"

definition collector_help_text :: string where
  "collector_help_text =
     ''Collector options:'' @ nl @
     ''  --listen ADDRESS         Listen address (default 0.0.0.0:50051)'' @ nl @
     ''  --queue-capacity N       Maximum queued events (default 4096)'' @ nl @
     ''  --consumer-delay-us N    Artificial delay for overload testing'' @ nl @
     ''  --output FILE            Persist accepted events to a .tflog'' @ nl @
     ''  --flush-every N          Flush after N records (default 64)'' @ nl"

definition replay_help_text :: string where
  "replay_help_text =
     ''Replay options:'' @ nl @
     ''  --from-ns N              Inclusive collector timestamp seek'' @ nl @
     ''  --until-ns N             Exclusive collector timestamp limit'' @ nl @
     ''  --speed X                Wall-clock speed; 0 is immediate'' @ nl @
     ''  --print-events           Print each event in replay order'' @ nl"

section \<open>Runs\<close>

record run_result =
  rn_exit :: int
  rn_out :: string
  rn_err :: string

definition exit_with :: "int \<Rightarrow> string \<Rightarrow> string \<Rightarrow> run_result" where
  "exit_with code out err = \<lparr>rn_exit = code, rn_out = out, rn_err = err\<rparr>"

subsection \<open>generate\<close>

definition print_event :: "telemetry_event \<Rightarrow> string" where
  "print_event event = show_int (sint (source_timestamp_ns event)) @ '' '' @ producer_id event @ '' '' @
     show_word (sequence_number event) @ '' '' @ payload_name (ev_payload event) @ nl"

definition print_workload :: "generator_options \<Rightarrow> generated_workload \<Rightarrow> string" where
  "print_workload opts workload =
     (if go_print_events opts then concat (map print_event (wl_events workload)) else []) @
     ''seed='' @ show_word (cfg_seed (go_config opts)) @ '' generated='' @ show_word (generated_events (wl_stats workload)) @
     '' emitted='' @ dec_digits (length (wl_events workload)) @ '' dropped='' @ show_word (dropped_events (wl_stats workload)) @
     '' duplicated='' @ show_word (duplicated_events (wl_stats workload)) @
     '' reordered_pairs='' @ show_word (reordered_pairs (wl_stats workload)) @ '' hash='' @ format_hash (wl_hash workload) @ nl"

definition print_published :: "producer_publish_result \<Rightarrow> string" where
  "print_published producer = ''producer='' @ pp_producer_id producer @ '' attempted='' @ show_word (pp_attempted_events producer) @
     '' written='' @ show_word (pp_written_events producer) @ '' accepted='' @ show_word (pp_accepted_events producer) @
     '' gaps='' @ show_word (pp_sequence_gaps producer) @ '' grpc_status='' @ show_int (pp_grpc_status_code producer) @
     (if pp_error_message producer \<noteq> [] then '' error='' @ dq @ pp_error_message producer @ dq else []) @ nl"

definition print_publish_report :: "string \<Rightarrow> producer_publish_result list \<Rightarrow> string" where
  "print_publish_report target report = concat (map print_published report) @
     ''publish_target='' @ target @ '' producers='' @ dec_digits (length report) @
     '' attempted='' @ show_word (report_attempted_events report) @ '' accepted='' @ show_word (report_accepted_events report) @
     '' result='' @ (if report_succeeded report then ''success'' else ''failed'') @ nl"

definition run_generator ::
  "'g engine \<Rightarrow> (u64 \<Rightarrow> 'g) \<Rightarrow> (telemetry_event \<Rightarrow> bytes option) \<Rightarrow> bool \<Rightarrow> (string \<Rightarrow> rpc_stream) \<Rightarrow> string list \<Rightarrow> run_result option" where
  "run_generator draw init serialize online rpc args =
     (case parse_generator args of
        Help \<Rightarrow> Some (exit_with 0 generator_help_text [])
      | Invalid what \<Rightarrow> Some (exit_with 2 [] (''Generator error: '' @ what @ nl))
      | Options opts \<Rightarrow>
          (case generate_workload draw init serialize (go_config opts) of
             None \<Rightarrow> None
           | Some (Inl what) \<Rightarrow> Some (exit_with 2 [] (''Generator error: '' @ what @ nl))
           | Some (Inr workload) \<Rightarrow>
               let out = print_workload opts workload
               in if go_target opts = [] then Some (exit_with 0 out [])
                  else case new_publisher \<lparr>wp_target = go_target opts, wp_connect_timeout_ms = go_connect_timeout_ms opts\<rparr> of
                         Inl what \<Rightarrow> Some (exit_with 2 out (''Generator error: '' @ what @ nl))
                       | Inr publisher \<Rightarrow>
                           let report = publish online rpc (wl_events workload)
                           in Some (exit_with (if report_succeeded report then 0 else 3)
                                (out @ print_publish_report (go_target opts) report) [])))"

subsection \<open>collect\<close>

text \<open>
  \<open>ce_port\<close> is the port of the server if it could be started; \<open>ce_serve\<close> is the run of the collector
  with the new sink and the consumer, until \<^verbatim>\<open>sink.shutdown()\<close> has returned: the signal that ended it, the
  final sink, and what the consumer thread has made of the writer.  The constructor of the sink is
  outside the \<^verbatim>\<open>try\<close> block, so its exception would abort the program.
\<close>

record collect_env =
  ce_open :: open_env
  ce_port :: "nat option"
  ce_serve :: "collected_event sink \<Rightarrow> log_writer option \<Rightarrow> int \<times> collected_event sink \<times> log_writer option"

definition ends_with_port_zero :: "string \<Rightarrow> bool" where
  "ends_with_port_zero address = (2 \<le> length address \<and> drop (length address - 2) address = '':0'')"

definition print_listening :: "collector_options \<Rightarrow> nat \<Rightarrow> string" where
  "print_listening opts port = ''TraceForge collector listening on '' @ co_listen_address opts @
     (if ends_with_port_zero (co_listen_address opts) then '' (selected port '' @ dec_digits port @ '')'' else []) @
     ''; queue_capacity='' @ dec_digits (co_queue_capacity opts) @ ''; overload_policy=reject_stream'' @
     (if co_output_path opts \<noteq> [] then ''; output='' @ co_output_path opts @ ''; flush_every='' @ show_word (co_flush_every_records opts) else []) @ nl"

definition print_shutdown :: "int \<Rightarrow> ingestion_stats \<Rightarrow> string" where
  "print_shutdown signal stats = ''collector_shutdown='' @ (if signal = 0 then ''server'' else ''signal'') @ '' signal='' @ show_int signal @
     '' accepted='' @ show_word (qs_accepted_items (st_queue stats)) @ '' rejected='' @ show_word (qs_rejected_items (st_queue stats)) @
     '' consumed='' @ show_word (st_consumed_events stats) @ '' queue_high_watermark='' @ dec_digits (qs_high_watermark (st_queue stats)) @
     '' consumer_failures='' @ show_word (st_consumer_failures stats) @ nl"

definition open_recorder :: "collector_options \<Rightarrow> open_env \<Rightarrow> log_writer option" where
  "open_recorder opts env =
     (if co_output_path opts = [] then None
      else Some (new_writer (co_output_path opts) \<lparr>flush_every_records = co_flush_every_records opts, created_unix_ns = 0\<rparr> env))"

abbreviation (input) aborted :: run_result where
  "aborted \<equiv> exit_with 134 [] []"

definition serve_collector :: "collect_env \<Rightarrow> collector_options \<Rightarrow> log_writer option \<Rightarrow> run_result" where
  "serve_collector env opts recorder =
     (case new_sink (co_queue_capacity opts) of
        Inl _ \<Rightarrow> aborted
      | Inr sink \<Rightarrow>
          (case ce_port env of
             None \<Rightarrow> exit_with 1 [] (''Failed to start collector on '' @ co_listen_address opts @ nl)
           | Some port \<Rightarrow>
               (case ce_serve env sink recorder of (signal, sink, recorder) \<Rightarrow>
                  (case recorder of
                     Some w \<Rightarrow>
                       (case flush w of (ok, w) \<Rightarrow>
                          if \<not> ok then exit_with 1 (print_listening opts port) (''Failed to flush recording: '' @ w_error w @ nl)
                          else exit_with 0 (print_listening opts port @ print_shutdown signal (sink_stats sink)) [])
                   | None \<Rightarrow> exit_with 0 (print_listening opts port @ print_shutdown signal (sink_stats sink)) []))))"

definition run_collector :: "collect_env \<Rightarrow> string list \<Rightarrow> run_result" where
  "run_collector env args =
     (case parse_collector args of
        Help \<Rightarrow> exit_with 0 collector_help_text []
      | Invalid what \<Rightarrow> exit_with 2 [] (''Collector error: '' @ what @ nl)
      | Options opts \<Rightarrow>
          (case open_recorder opts (ce_open env) of
             None \<Rightarrow> serve_collector env opts None
           | Some w \<Rightarrow>
               if \<not> good w then exit_with 1 [] (''Collector error: '' @ w_error w @ nl)
               else serve_collector env opts (Some w)))"

subsection \<open>inspect and recover\<close>

definition default_read_options :: log_read_options where
  "default_read_options = \<lparr>maximum_records = 1000000, retain_records = True\<rparr>"

definition run_inspect :: "parser \<Rightarrow> (string \<Rightarrow> file_view) \<Rightarrow> string \<Rightarrow> run_result" where
  "run_inspect parse files path =
     (let result = read_log parse (files path) default_read_options
      in exit_with (if rr_status result = Complete then 0 else 3)
           (''path='' @ path @ '' status='' @ status_name (rr_status result) @ '' records='' @ dec_digits (length (rr_records result)) @
            '' file_bytes='' @ show_word (rr_file_size result) @ '' valid_bytes='' @ show_word (rr_valid_bytes result) @
            '' created_unix_ns='' @ show_int (sint (rr_created_unix_ns result)) @
            (if rr_status result \<noteq> Complete
             then '' error_offset='' @ show_word (rr_error_offset result) @ '' message='' @ dq @ rr_message result @ dq else []) @ nl) [])"

text \<open>\<^verbatim>\<open>recover\<close> also returns the bytes the file has afterwards.\<close>

definition run_recover :: "parser \<Rightarrow> (string \<Rightarrow> file_view) \<Rightarrow> bool \<Rightarrow> string \<Rightarrow> run_result \<times> bytes" where
  "run_recover parse files resizes path =
     (case recover_truncated_tail parse (files path) resizes default_read_options of (result, bs) \<Rightarrow>
        (exit_with (if rc_succeeded result then 0 else 3)
           (''path='' @ path @ '' result='' @ (if rc_succeeded result then ''success'' else ''refused'') @
            '' changed='' @ show_bool (rc_changed result) @ '' original_bytes='' @ show_word (rc_original_size result) @
            '' recovered_bytes='' @ show_word (rc_recovered_size result) @ '' message='' @ dq @ rc_message result @ dq @ nl) [], bs))"

subsection \<open>analyze\<close>

text \<open>\<open>fixed\<close> is the text of a number with three decimals.\<close>

definition print_optional_metric :: "(rat \<Rightarrow> string) \<Rightarrow> rat option \<Rightarrow> string" where
  "print_optional_metric fixed metric = (case metric of None \<Rightarrow> ''n/a'' | Some x \<Rightarrow> fixed x)"

definition print_producer :: "producer_stats \<Rightarrow> string" where
  "print_producer producer = ''producer='' @ ps_producer_id producer @ '' records='' @ show_word (ps_records producer) @
     '' sequence_gaps='' @ show_word (ps_sequence_gaps producer) @
     '' non_increasing_sequences='' @ show_word (ps_non_increasing_sequences producer) @ nl"

definition print_stream :: "(rat \<Rightarrow> string) \<Rightarrow> stream_stats \<Rightarrow> string" where
  "print_stream fixed stream = ''stream='' @ ss_producer_id stream @ ''/'' @ ss_payload stream @ '' records='' @ show_word (ss_records stream) @
     '' rate_hz='' @ print_optional_metric fixed (ss_observed_rate_hz stream) @
     '' interarrival_p50_ms='' @ print_optional_metric fixed (ss_interarrival_p50_ms stream) @
     '' jitter_p95_ms='' @ print_optional_metric fixed (ss_jitter_p95_ms stream) @
     '' source_timestamp_regressions='' @ show_word (ss_source_timestamp_regressions stream) @ nl"

definition print_delta :: "(rat \<Rightarrow> string) \<Rightarrow> distribution_stats option \<Rightarrow> string" where
  "print_delta fixed delta =
     (case delta of
        None \<Rightarrow> ''utc_arrival_delta samples=0'' @ nl
      | Some d \<Rightarrow> ''utc_arrival_delta samples='' @ show_word (ds_samples d) @ '' p50_ms='' @ fixed (ds_p50_ms d) @
          '' p95_ms='' @ fixed (ds_p95_ms d) @ '' p99_ms='' @ fixed (ds_p99_ms d) @ '' max_ms='' @ fixed (ds_maximum_ms d) @ nl)"

definition run_analyze :: "nat \<Rightarrow> (rat \<Rightarrow> string) \<Rightarrow> parser \<Rightarrow> (string \<Rightarrow> file_view) \<Rightarrow> string \<Rightarrow> run_result" where
  "run_analyze p fixed parse files path =
     (let report = analyze_log p parse (files path) 1000000;
          out = ''path='' @ path @ '' status='' @ analysis_status_name (ar_status report) @ '' records='' @ show_word (ar_records report) @
            '' file_bytes='' @ show_word (ar_file_bytes report)
      in if ar_status report \<noteq> AnalysisComplete
         then exit_with 3 (out @ '' message='' @ dq @ ar_message report @ dq @ nl) []
         else exit_with 0 (out @ '' duration_s='' @ print_optional_metric fixed (ar_duration_seconds report) @ nl @
           concat (map print_producer (ar_producers report)) @ concat (map (print_stream fixed) (ar_streams report)) @
           print_delta fixed (ar_utc_arrival_delta report) @
           ''faults warnings='' @ show_word (fs_warnings (ar_faults report)) @ '' errors='' @ show_word (fs_errors (ar_faults report)) @
           '' critical='' @ show_word (fs_critical (ar_faults report)) @ nl) [])"

subsection \<open>replay\<close>

definition print_replayed :: "log_record \<Rightarrow> string" where
  "print_replayed record = ''collector_timestamp_ns='' @ show_int (sint (lr_collector_arrival_timestamp_ns record)) @
     '' record_index='' @ show_word (lr_record_index record) @
     '' source_timestamp_ns='' @ show_int (sint (source_timestamp_ns (lr_event record))) @
     '' producer='' @ producer_id (lr_event record) @ '' sequence='' @ show_word (sequence_number (lr_event record)) @
     '' payload='' @ payload_name (ev_payload (lr_event record)) @ nl"

definition printing_consumer :: "string replay_consumer" where
  "printing_consumer = Some (\<lambda>record out. (True, out @ print_replayed record))"

text \<open>The arguments are those from \<^verbatim>\<open>argv[2]\<close> on; \<open>show_double\<close> is the text of the speed.\<close>

definition run_replay ::
  "nat \<Rightarrow> (string \<Rightarrow> string + f64 \<times> nat) \<Rightarrow> (f64 \<Rightarrow> string) \<Rightarrow> parser \<Rightarrow> (string \<Rightarrow> file_view) \<Rightarrow> string list \<Rightarrow> run_result" where
  "run_replay p stod show_double parse files args =
     (case args of
        [] \<Rightarrow> exit_with 2 [] (''Usage: traceforge replay FILE [OPTIONS]'' @ nl)
      | path # args \<Rightarrow>
          (case parse_replay stod args of
             Help \<Rightarrow> exit_with 0 replay_help_text []
           | Invalid what \<Rightarrow> exit_with 2 [] (''Replay error: '' @ what @ nl)
           | Options opts \<Rightarrow>
               let options = rc_options opts;
                   engine = new_engine parse (files path) 1000000
               in case replay p parse engine (files path) options (if rc_print_events opts then printing_consumer else None) [] of
                    (result, out, _) \<Rightarrow>
                      exit_with (if rp_status result = ReplayComplete then 0 else 3)
                        (out @ ''path='' @ path @ '' status='' @ replay_status_name (rp_status result) @
                         '' indexed='' @ show_word (rp_indexed_records result) @ '' replayed='' @ show_word (rp_replayed_records result) @
                         '' speed='' @ show_double (replay_speed options) @ '' hash='' @ format_hash (rp_hash result) @
                         (case (rp_first_timestamp_ns result, rp_last_timestamp_ns result) of
                            (Some earliest, Some latest) \<Rightarrow> '' first_collector_timestamp_ns='' @ show_int (sint earliest) @
                              '' last_collector_timestamp_ns='' @ show_int (sint latest)
                          | _ \<Rightarrow> []) @
                         (if rp_status result \<noteq> ReplayComplete then '' message='' @ dq @ rp_message result @ dq else []) @ nl) []))"

section \<open>main\<close>

record program_env =
  pe_version :: string
  pe_serialize :: "telemetry_event \<Rightarrow> bytes option"
  pe_parse :: parser
  pe_online :: bool
  pe_rpc :: "string \<Rightarrow> rpc_stream"
  pe_collect :: collect_env
  pe_files :: "string \<Rightarrow> file_view"
  pe_resizes :: bool
  pe_long_double_bits :: nat
  pe_fixed :: "rat \<Rightarrow> string"
  pe_stod :: "string \<Rightarrow> string + f64 \<times> nat"
  pe_show_double :: "f64 \<Rightarrow> string"

text \<open>\<^verbatim>\<open>main\<close>, on the arguments after the name of the program.\<close>

definition traceforge_main :: "program_env \<Rightarrow> string list \<Rightarrow> run_result option" where
  "traceforge_main env args =
     (case args of
        [] \<Rightarrow> Some (exit_with 0 help_text [])
      | argument # args \<Rightarrow>
          if is_help argument then Some (exit_with 0 help_text [])
          else if argument = ''--version'' then Some (exit_with 0 (project_name @ '' '' @ pe_version env @ nl) [])
          else if argument = ''collect'' then Some (run_collector (pe_collect env) args)
          else if argument = ''generate'' then run_generator mt19937_64 mt19937_64_seed (pe_serialize env) (pe_online env) (pe_rpc env) args
          else if argument = ''inspect'' then
            (if length args \<noteq> 1 then Some (exit_with 2 [] (''Usage: traceforge inspect FILE'' @ nl))
             else Some (run_inspect (pe_parse env) (pe_files env) (hd args)))
          else if argument = ''recover'' then
            (if length args \<noteq> 1 then Some (exit_with 2 [] (''Usage: traceforge recover FILE'' @ nl))
             else Some (fst (run_recover (pe_parse env) (pe_files env) (pe_resizes env) (hd args))))
          else if argument = ''analyze'' then
            (if length args \<noteq> 1 then Some (exit_with 2 [] (''Usage: traceforge analyze FILE'' @ nl))
             else Some (run_analyze (pe_long_double_bits env) (pe_fixed env) (pe_parse env) (pe_files env) (hd args)))
          else if argument = ''replay'' then Some (run_replay (pe_long_double_bits env) (pe_stod env) (pe_show_double env) (pe_parse env) (pe_files env) args)
          else Some (exit_with 2 [] (''Unknown argument: '' @ argument @ nl @ nl @ help_text)))"

end
