(* ===== verification/TF_CommandLine.thy ===== *)
theory TF_CommandLine
  imports TF_Commands TF_Publishing TF_Analysis TF_Pipeline
begin

text \<open>
  What the command line guarantees: numbers are read exactly as they are printed, the options that
  reach a component are within its limits, and exit codes tell what happened.
\<close>

section \<open>Decimal numbers\<close>

lemma digit_char: "d < 10 \<Longrightarrow> is_digit (''0123456789'' ! d) \<and> of_char (''0123456789'' ! d) - 48 = d"
proof -
  assume "d < 10"
  then have "d \<in> {0, 1, 2, 3, 4, 5, 6, 7, 8, 9}" by auto
  then show ?thesis by (auto simp: is_digit_def)
qed

lemma digits_value_snoc: "digits_value (s @ [c]) = 10 * digits_value s + (of_char c - 48)"
  by (simp add: digits_value_def)

lemma dec_digits_props: "list_all is_digit (dec_digits n) \<and> dec_digits n \<noteq> [] \<and> digits_value (dec_digits n) = n"
proof (induction n rule: dec_digits.induct)
  case (1 n)
  show ?case
  proof (cases "n < 10")
    case True
    then show ?thesis using digit_char [OF True] by (subst (1 2 3) dec_digits.simps) (simp add: digits_value_def)
  next
    case False
    have "n mod 10 < 10" by simp
    then show ?thesis using False 1 [OF False] digit_char [of "n mod 10"]
      by (subst (1 2 3) dec_digits.simps) (simp add: digits_value_snoc)
  qed
qed

lemma minus_no_digit: "\<not> is_digit CHR ''-''"
  by (simp add: is_digit_def)

lemma from_chars_show:
  assumes "lo \<le> i" and "i \<le> hi" and "lo \<le> 0"
  shows "from_chars lo hi (show_int i) = Some (i, [])"
proof -
  have d: "\<forall>x \<in> set (dec_digits n). is_digit x" "takeWhile is_digit (dec_digits n) = dec_digits n" "dropWhile is_digit (dec_digits n) = []" "dec_digits n \<noteq> []"
      "digits_value (dec_digits n) = n" for n
    using dec_digits_props [of n] takeWhile_eq_all_conv [of is_digit "dec_digits n"] dropWhile_eq_Nil_conv [of is_digit "dec_digits n"]
    by (simp_all add: list_all_iff)
  have "is_digit (hd (dec_digits n))" for n using dec_digits_props [of n] by (cases "dec_digits n") auto
  then have "hd (dec_digits n) \<noteq> CHR ''-''" for n using minus_no_digit by metis
  then show ?thesis using assms by (auto simp: from_chars_def show_int_def Let_def d)
qed

lemma from_chars_all:
  assumes "from_chars lo hi s = Some (i, [])"
  shows "lo \<le> i" and "i \<le> hi" and "\<exists>ds. ds \<noteq> [] \<and> list_all is_digit ds \<and>
    (s = ds \<and> i = int (digits_value ds) \<or> lo < 0 \<and> s = CHR ''-'' # ds \<and> i = - int (digits_value ds))"
proof -
  let ?neg = "lo < 0 \<and> s \<noteq> [] \<and> hd s = CHR ''-''"
  define body where "body = (if ?neg then tl s else s)"
  have *: "takeWhile is_digit body \<noteq> []" "dropWhile is_digit body = []" "lo \<le> i" "i \<le> hi"
      "i = (if ?neg then - int (digits_value (takeWhile is_digit body)) else int (digits_value (takeWhile is_digit body)))"
    using assms by (auto simp: from_chars_def body_def Let_def split: if_splits)
  then show "lo \<le> i" "i \<le> hi" by simp_all
  have all: "takeWhile is_digit body = body" "list_all is_digit body"
    using *(2) by (auto simp: dropWhile_eq_Nil_conv takeWhile_eq_all_conv list_all_iff)
  have i: "i = (if ?neg then - int (digits_value body) else int (digits_value body))"
    using *(5) unfolding all(1) .
  show "\<exists>ds. ds \<noteq> [] \<and> list_all is_digit ds \<and>
    (s = ds \<and> i = int (digits_value ds) \<or> lo < 0 \<and> s = CHR ''-'' # ds \<and> i = - int (digits_value ds))"
  proof (intro exI [of _ body] conjI)
    show "s = body \<and> i = int (digits_value body) \<or> lo < 0 \<and> s = CHR ''-'' # body \<and> i = - int (digits_value body)"
    proof (cases ?neg)
      case True
      then obtain rest where "s = CHR ''-'' # rest" "lo < 0" by (cases s) auto
      then have "s = CHR ''-'' # body" "lo < 0" by (simp_all add: body_def)
      then show ?thesis using i True by simp
    next
      case False
      then have "body = s" by (simp only: body_def if_False)
      then show ?thesis using i False by simp
    qed
  qed (use * all in simp_all)
qed

lemma from_chars_of: "parse_integer lo hi s option = Inr j \<Longrightarrow> from_chars lo hi s = Some (j, [])"
  by (auto simp: parse_integer_def split: option.splits if_splits)

text \<open>
  C40: \<^verbatim>\<open>parse_integer\<close> reads exactly the numbers of its type.  Every number in range, printed in
  decimal, is read back; and whatever it accepts is in range, and is nothing but digits, after a
  minus sign at most for a signed type, whose value is the result.
\<close>

theorem parse_integer_exact:
  assumes "lo \<le> i" and "i \<le> hi" and "lo \<le> 0"
  shows "parse_integer lo hi (show_int i) option = Inr i \<and>
    (\<forall>s j. parse_integer lo hi s option = Inr j \<longrightarrow> lo \<le> j \<and> j \<le> hi \<and>
       (\<exists>ds. ds \<noteq> [] \<and> list_all is_digit ds \<and>
          (s = ds \<and> j = int (digits_value ds) \<or> lo < 0 \<and> s = CHR ''-'' # ds \<and> j = - int (digits_value ds)))) \<and>
    (\<forall>s e. parse_integer lo hi s option = Inl e \<longrightarrow> e = ''invalid value for '' @ option)"
proof -
  have "\<forall>s j. parse_integer lo hi s option = Inr j \<longrightarrow> lo \<le> j \<and> j \<le> hi \<and>
       (\<exists>ds. ds \<noteq> [] \<and> list_all is_digit ds \<and>
          (s = ds \<and> j = int (digits_value ds) \<or> lo < 0 \<and> s = CHR ''-'' # ds \<and> j = - int (digits_value ds)))"
    by (intro allI impI conjI; drule from_chars_of) (erule from_chars_all)+
  moreover have "parse_integer lo hi (show_int i) option = Inr i"
    by (simp add: parse_integer_def from_chars_show [OF assms])
  moreover have "e = ''invalid value for '' @ option" if "parse_integer lo hi s option = Inl e" for s e
    using that by (simp add: parse_integer_def split: option.splits if_splits prod.splits)
  ultimately show ?thesis by blast
qed

theorem parse_integer_exact_witness:
  "parse_integer (- (2 ^ 63)) (2 ^ 63 - 1) (show_int (- 25)) ''--clock-drift-ppm'' = Inr (- 25)"
  using parse_integer_exact [of "- (2 ^ 63)" "- 25" "2 ^ 63 - 1"] by simp

section \<open>Options within limits\<close>

lemma parse_options_invariant:
  assumes "parse_options flag assign args opts = Options opts'" and "P opts"
    and "\<And>x o1 o2. flag x o1 = Some o2 \<Longrightarrow> P o1 \<Longrightarrow> P o2"
    and "\<And>x t o1 o2. assign x t o1 = Inr o2 \<Longrightarrow> P o1 \<Longrightarrow> P o2"
  shows "P opts'"
  using assms
  by (induction flag assign args opts rule: parse_options.induct)
    (auto split: if_splits option.splits sum.splits)

lemma parse_integer_range: "parse_integer lo hi s option = Inr i \<Longrightarrow> lo \<le> i \<and> i \<le> hi"
  using from_chars_all(1,2) from_chars_of by blast

lemma parse_probability_range: "parse_probability s option = Inr p \<Longrightarrow> \<exists>i. parse_uint64 s option = Inr i \<and> p = of_int i \<and> i \<le> 2 ^ 32 - 1"
  by (auto simp: parse_probability_def split: sum.splits if_splits)

definition generator_options_ok :: "generator_options \<Rightarrow> bool" where
  "generator_options_ok opts \<longleftrightarrow> 0 < cfg_duration (go_config opts) \<and> cfg_duration (go_config opts) \<le> kMaxDurationNs \<and>
     0 \<le> cfg_max_jitter (go_config opts) \<and> cfg_max_jitter (go_config opts) \<le> kMaxDurationNs \<and>
     cfg_rates (go_config opts) = cfg_rates default_generator_config \<and>
     0 < go_connect_timeout_ms opts \<and> go_connect_timeout_ms opts \<le> 60000"

lemma generator_option_ok: "generator_option option s o1 = Inr o2 \<Longrightarrow> generator_options_ok o1 \<Longrightarrow> generator_options_ok o2"
  by (auto simp: generator_option_def generator_options_ok_def Let_def split: if_splits sum.splits)

lemma parse_generator_ok: "parse_generator args = Options opts \<Longrightarrow> generator_options_ok opts"
  unfolding parse_generator_def
proof (erule parse_options_invariant [where P = generator_options_ok])
  show "generator_options_ok default_generator_options"
    by (simp add: generator_options_ok_def default_generator_options_def default_generator_config_def)
next
  show "generator_options_ok o2"
    if "print_events_flag (\<lambda>opts. opts\<lparr>go_print_events := True\<rparr>) x o1 = Some o2" "generator_options_ok o1" for x o1 o2
    using that by (auto simp: print_events_flag_def generator_options_ok_def split: if_splits)
qed (rule generator_option_ok)

lemma default_rates_fit:
  "cfg_rates config = cfg_rates default_generator_config \<Longrightarrow> cfg_duration config \<le> kMaxDurationNs \<Longrightarrow>
   list_all (\<lambda>r. unat r \<le> 10000) (rate_list (cfg_rates config)) \<and>
   sum_list (map unat (rate_list (cfg_rates config))) * (nat (cfg_duration config) div 10 ^ 9 + 1) \<le> 2000000"
proof -
  assume rates: "cfg_rates config = cfg_rates default_generator_config" and d: "cfg_duration config \<le> kMaxDurationNs"
  have "nat (cfg_duration config) div 10 ^ 9 \<le> 3600"
    using d by (simp add: nat_le_iff less_Suc_eq_le [symmetric] div_less_iff_less_mult)
  then show ?thesis by (simp add: rates default_generator_config_def rate_list_def)
qed

definition collector_options_ok :: "collector_options \<Rightarrow> bool" where
  "collector_options_ok opts \<longleftrightarrow> 1 \<le> co_queue_capacity opts \<and> co_queue_capacity opts \<le> 1000000 \<and>
     0 \<le> co_consumer_delay_us opts \<and> co_consumer_delay_us opts \<le> 10000000 \<and>
     1 \<le> unat (co_flush_every_records opts) \<and> unat (co_flush_every_records opts) \<le> 1000000"

lemma collector_option_ok: "collector_option option s o1 = Inr o2 \<Longrightarrow> collector_options_ok o1 \<Longrightarrow> collector_options_ok o2"
  using parse_integer_range [of 0 "2 ^ 64 - 1" s option]
  by (auto simp: collector_option_def collector_options_ok_def parse_uint64_def unat_of_int_small split: if_splits sum.splits)

lemma parse_collector_ok:
  assumes "parse_collector args = Options opts"
  shows "collector_options_ok opts" and "co_output_path opts = [] \<or> co_consumer_delay_us opts = 0"
proof -
  have p: "parse_options (\<lambda>_ _. None) collector_option args default_collector_options = Options opts"
      "co_output_path opts = [] \<or> \<not> co_consumer_delay_us opts > 0"
    using assms by (auto simp: parse_collector_def split: parsed.splits if_splits)
  have "collector_options_ok default_collector_options" by (simp add: collector_options_ok_def default_collector_options_def)
  then show ok: "collector_options_ok opts"
    by (rule parse_options_invariant [of _ _ _ _ _ collector_options_ok, OF p(1)]) (simp_all add: collector_option_ok)
  then show "co_output_path opts = [] \<or> co_consumer_delay_us opts = 0" using p(2) by (auto simp: collector_options_ok_def)
qed

section \<open>generate\<close>

lemma new_publisher_parsed:
  "generator_options_ok opts \<Longrightarrow> go_target opts \<noteq> [] \<Longrightarrow>
   new_publisher \<lparr>wp_target = go_target opts, wp_connect_timeout_ms = go_connect_timeout_ms opts\<rparr> =
     Inr \<lparr>wp_target = go_target opts, wp_connect_timeout_ms = go_connect_timeout_ms opts\<rparr>"
  by (simp add: new_publisher_def generator_options_ok_def)

text \<open>Of the limits on a configuration, the options leave only these to \<^verbatim>\<open>validate_config\<close>.\<close>

definition parsed_config_ok :: "generator_config \<Rightarrow> bool" where
  "parsed_config_ok config \<longleftrightarrow> \<bar>cfg_clock_drift_ppm config\<bar> \<le> 1000000 \<and>
     unat (drop_per_million (cfg_faults config)) \<le> 1000000 \<and> unat (duplicate_per_million (cfg_faults config)) \<le> 1000000 \<and>
     unat (reorder_per_million (cfg_faults config)) \<le> 1000000"

lemma parsed_config_valid:
  assumes "generator_options_ok opts"
  shows "validate_config (go_config opts) = Inr () \<longleftrightarrow> parsed_config_ok (go_config opts)"
proof -
  have "cfg_rates (go_config opts) = cfg_rates default_generator_config" "cfg_duration (go_config opts) \<le> kMaxDurationNs"
    using assms by (simp_all add: generator_options_ok_def)
  from default_rates_fit [OF this] assms show ?thesis
    unfolding valid_config_limits parsed_config_ok_def generator_options_ok_def by blast
qed

text \<open>
  C31: The \<^verbatim>\<open>generate\<close> command always returns, given an engine that keeps producing large values and a
  serializer that does not fail on well-formed events.  Bad options exit with 2 and a message, before
  anything is printed; so does a parsed configuration, exactly if the clock drift or a probability is out of range, since
  the other limits of \<^verbatim>\<open>validate_config\<close> and those of \<^verbatim>\<open>WorkloadPublisher\<close> follow from the checks
  on the options.  Otherwise the workload is generated and printed, nothing goes to the standard error, and
  the exit code is 0, or 3 exactly when there is a target and publishing to it has not succeeded.
\<close>

theorem generate_command_course:
  assumes "\<And>seed. lively draw (init seed)" and "\<forall>e. event_ok e \<longrightarrow> serialize e \<noteq> None"
  shows "\<exists>run. run_generator draw init serialize online rpc args = Some run \<and>
    (case parse_generator args of
       Help \<Rightarrow> run = exit_with 0 generator_help_text []
     | Invalid what \<Rightarrow> run = exit_with 2 [] (''Generator error: '' @ what @ nl)
     | Options opts \<Rightarrow>
         if \<not> parsed_config_ok (go_config opts) then rn_exit run = 2 \<and> rn_out run = [] \<and> rn_err run \<noteq> []
         else \<exists>wl. generate_workload draw init serialize (go_config opts) = Some (Inr wl) \<and> rn_err run = [] \<and>
           (let report = publish online rpc (wl_events wl) in
            rn_exit run = (if go_target opts = [] \<or> report_succeeded report then 0 else 3) \<and>
            rn_out run = print_workload opts wl @ (if go_target opts = [] then [] else print_publish_report (go_target opts) report)))"
proof (cases "parse_generator args")
  case (Options opts)
  note ok = parse_generator_ok [OF Options]
  show ?thesis
  proof (cases "validate_config (go_config opts)")
    case (Inl what)
    then show ?thesis using parsed_config_valid [OF ok]
      by (simp add: Options run_generator_def generate_workload_def exit_with_def)
  next
    case (Inr u)
    then have valid: "validate_config (go_config opts) = Inr ()" by simp
    obtain wl g' where "generate draw serialize (go_config opts) (init (cfg_seed (go_config opts))) = Some (Inr (wl, g'))"
      using generate_parts [OF valid assms(1,2)] by blast
    then have wl: "generate_workload draw init serialize (go_config opts) = Some (Inr wl)"
      by (simp add: generate_workload_def valid)
    have "parsed_config_ok (go_config opts)" using parsed_config_valid [OF ok] valid by simp
    then show ?thesis using new_publisher_parsed [OF ok]
      by (cases "go_target opts = []") (simp_all add: Options run_generator_def wl exit_with_def Let_def)
  qed
qed (simp_all add: run_generator_def)

lemmas command_parsing = is_help_def Let_def parse_uint64_def parse_int64_def parse_integer_def from_chars_def is_digit_def digits_value_def

abbreviation (input) no_stream :: rpc_stream where
  "no_stream \<equiv> \<lparr>rs_write_ok = \<lambda>_. False, rs_status_code = StatusCode_UNAVAILABLE, rs_error_message = [], rs_summary = empty_summary\<rparr>"

theorem generate_command_course_witness:
  "(\<exists>run. run_generator counting_engine id (\<lambda>_. Some []) False (\<lambda>_. no_stream) [''--clock-drift-ppm'', ''1000001''] = Some run \<and>
      rn_exit run = 2 \<and> rn_out run = []) \<and>
   (\<exists>run. run_generator counting_engine id (\<lambda>_. Some []) False (\<lambda>_. no_stream) [''--print-events''] = Some run \<and> rn_exit run = 0 \<and> rn_err run = [])"
proof -
  note course = generate_command_course [where draw = counting_engine and init = id and serialize = "\<lambda>_. Some []",
      OF counting_engine_lively, of False "\<lambda>_. no_stream"]
  note defs = command_parsing parse_generator_def print_events_flag_def generator_option_def parsed_config_ok_def
    default_generator_options_def default_generator_config_def
  show ?thesis
    using course [of "[''--clock-drift-ppm'', ''1000001'']"] course [of "[''--print-events'']"]
    by (auto simp: defs)
qed

section \<open>collect\<close>

lemma parsed_capacity: "collector_options_ok opts \<Longrightarrow> \<exists>s :: collected_event sink. new_sink (co_queue_capacity opts) = Inr s"
  by (simp add: collector_options_ok_def new_sink_def new_queue_def)

text \<open>No command line makes the collector abort.\<close>

lemma collector_never_aborts: "run_collector env args \<noteq> aborted"
  using parse_collector_ok(1) [of args] parsed_capacity
  by (auto simp: run_collector_def serve_collector_def exit_with_def split: parsed.splits option.splits sum.splits prod.splits) force+

text \<open>
  C3: Exit code 0 of \<^verbatim>\<open>collect --output\<close> means that nothing was lost.  The parsed options make a valid
  queue and no artificial delay.  Let the server run until a signal, with any number of streams
  pushing into the sink and the consumer thread writing the log, in any interleaving, until \<^verbatim>\<open>shutdown\<close> has returned.
  If the command then exits with 0, everything the file received has been flushed, no consumer failure occurred, and the file
  reads back as exactly the accepted events, in order; the numbers \<^verbatim>\<open>accepted\<close> and \<^verbatim>\<open>consumed\<close> it
  prints are the number of records.  A disk that fails at any time makes it exit with 1.
\<close>

theorem collect_command_durable:
  assumes opts: "parse_collector args = Options opts" "open_recorder opts (ce_open env) = Some w0"
    and sink: "new_sink (co_queue_capacity opts) = Inr s"
    and run: "sink_run (log_consume serialize) (new_pipeline s w0) n y" "0 < y_shutdowns y"
    and serve: "ce_serve env s (Some w0) = (signal, y_sink y, Some (y_consumer y))" and pb: "protobuf_roundtrip serialize parse"
    and limits: "length (w_data (y_consumer y)) < 2 ^ 64" "length (pushed y) < 2 ^ 64"
      "length (pushed y) \<le> maximum_records ropts" "retain_records ropts"
  defines "result \<equiv> run_collector env args" and "w \<equiv> snd (flush (y_consumer y))"
  shows "co_consumer_delay_us opts = 0 \<and> rn_exit result \<in> {0, 1} \<and>
    (rn_exit result = 0 \<longleftrightarrow> ce_port env \<noteq> None \<and> fst (flush (y_consumer y))) \<and>
    (rn_exit result = 0 \<longrightarrow> w_flushed w = length (w_data w) \<and>
       rr_status (read_log parse (stored (w_data w)) ropts) = Complete \<and>
       read_events (read_log parse (stored (w_data w)) ropts) = map arrival (pushed y) \<and>
       st_consumer_failures (sink_stats (y_sink y)) = 0 \<and>
       unat (st_consumed_events (sink_stats (y_sink y))) = length (pushed y) \<and>
       unat (qs_accepted_items (st_queue (sink_stats (y_sink y)))) = length (pushed y) \<and>
       (\<exists>start. rn_out result = start @ print_shutdown signal (sink_stats (y_sink y))))"
proof -
  have path: "co_output_path opts \<noteq> []" and w0: "w0 = new_writer (co_output_path opts)
      \<lparr>flush_every_records = co_flush_every_records opts, created_unix_ns = 0\<rparr> (ce_open env)"
    using opts(2) by (auto simp: open_recorder_def split: if_splits)
  obtain ok where fl: "flush (y_consumer y) = (ok, w)" by (metis surj_pair snd_conv w_def)
  have result: "result = (if good w0 then serve_collector env opts (Some w0)
      else exit_with 1 [] (''Collector error: '' @ w_error w0 @ nl))"
    by (simp add: result_def run_collector_def opts)
  have served: "serve_collector env opts (Some w0) = (case ce_port env of
      None \<Rightarrow> exit_with 1 [] (''Failed to start collector on '' @ co_listen_address opts @ nl)
    | Some port \<Rightarrow> if ok then exit_with 0 (print_listening opts port @ print_shutdown signal (sink_stats (y_sink y))) []
        else exit_with 1 (print_listening opts port) (''Failed to flush recording: '' @ w_error w @ nl))"
    by (simp add: serve_collector_def sink serve fl split: option.split)
  have delivered: "good w0 \<and> w_flushed w = length (w_data w) \<and>
       rr_status (read_log parse (stored (w_data w)) ropts) = Complete \<and>
       read_events (read_log parse (stored (w_data w)) ropts) = map arrival (pushed y) \<and>
       st_consumer_failures (sink_stats (y_sink y)) = 0 \<and>
       unat (st_consumed_events (sink_stats (y_sink y))) = length (pushed y) \<and>
       unat (qs_accepted_items (st_queue (sink_stats (y_sink y)))) = length (pushed y)" if ok
  proof -
    note flushed = flushed_writer [OF fl [unfolded \<open>ok\<close> [THEN eqTrueI]]]
    note none = good_writer_no_failure [OF sink run(1)]
    have "y_failed y = []" "good w0" using none flushed by simp_all
    moreover have "st_consumer_failures (sink_stats (y_sink y)) = 0"
      using drained_pipeline [OF sink run] calculation(1) by (auto split: if_splits)
    moreover note drained_log [OF sink run(1) [unfolded w0] run(2) calculation(3) calculation(2) [unfolded w0] pb limits]
    ultimately show ?thesis using flushed by (auto simp: sink_stats_def)
  qed
  show ?thesis
    using parse_collector_ok(2) [OF opts(1)] path delivered fl
    by (cases "good w0"; cases "ce_port env"; cases ok) (simp_all add: result served exit_with_def)
qed


text \<open>Two events into a queue of two, until the signal \<^verbatim>\<open>SIGTERM\<close>.\<close>

definition sample_collect_args :: "string list" where
  "sample_collect_args = [''--queue-capacity'', ''2'', ''--output'', ''run.tflog'', ''--flush-every'', ''1'']"

definition sample_collect_env :: "(collected_event, log_writer) pipeline \<Rightarrow> collect_env" where
  "sample_collect_env y = \<lparr>ce_open = sample_env [], ce_port = Some 50051, ce_serve = \<lambda>_ _. (15, y_sink y, Some (y_consumer y))\<rparr>"

definition sample_collect_options :: collector_options where
  "sample_collect_options = \<lparr>co_listen_address = ''0.0.0.0:50051'', co_queue_capacity = 2, co_consumer_delay_us = 0,
     co_output_path = ''run.tflog'', co_flush_every_records = 1\<rparr>"

lemma sample_collect:
  "parse_collector sample_collect_args = Options sample_collect_options"
  "open_recorder sample_collect_options (ce_open (sample_collect_env y)) = Some (sample_writer [])"
  by (simp_all add: command_parsing parse_collector_def collector_option_def default_collector_options_def
      sample_collect_args_def sample_collect_env_def sample_collect_options_def open_recorder_def sample_writer_def)

theorem collect_command_durable_witness:
  "\<exists>y. rn_exit (run_collector (sample_collect_env y) sample_collect_args) = 0 \<and>
     read_events (read_log sample_parse (stored (w_data (snd (flush (y_consumer y))))) default_options) = sample_run"
proof -
  obtain n y where y: "sink_run (log_consume sample_serialize) (new_pipeline (sample_queued_sink 2) (sample_writer [])) n y"
      "map arrival (pushed y) = sample_run" "0 < y_shutdowns y" "length (w_data (y_consumer y)) = 108"
      "fst (flush (y_consumer y))"
    using sample_collector_run by blast
  have "length (pushed y) = 2" using arg_cong [OF y(2), of length] by (simp add: sample_limits)
  moreover have "new_sink (co_queue_capacity sample_collect_options) = Inr (sample_queued_sink 2)"
    by (simp add: sample_collect_options_def sample_queued_sink_new)
  moreover have "ce_serve (sample_collect_env y) (sample_queued_sink 2) (Some (sample_writer [])) = (15, y_sink y, Some (y_consumer y))"
    by (simp add: sample_collect_env_def)
  ultimately show ?thesis
    using collect_command_durable [OF sample_collect _ y(1,3) _ sample_roundtrip, where signal = 15 and ropts = default_options] y
    by (intro exI [of _ y]) (simp add: sample_limits sample_collect_env_def)
qed

section \<open>Commands on a log\<close>

lemma read_status_retain:
  assumes "length bs < 2 ^ 64"
  shows "rr_status (read_log parse (stored bs) \<lparr>maximum_records = n, retain_records = a\<rparr>) = Complete \<longleftrightarrow>
    rr_status (read_log parse (stored bs) \<lparr>maximum_records = n, retain_records = b\<rparr>) = Complete"
proof -
  have "rr_status (read_log parse (stored bs) \<lparr>maximum_records = n, retain_records = d\<rparr>) = Complete"
    if complete: "rr_status (read_log parse (stored bs) \<lparr>maximum_records = n, retain_records = c\<rparr>) = Complete" for c d
  proof -
    obtain h es where "bs = log_bytes h es" "scan_ready parse \<lparr>maximum_records = n, retain_records = c\<rparr> h es (length bs)"
      using read_log_complete_imp [OF complete assms] by blast
    then show ?thesis using read_log_whole [of parse "\<lparr>maximum_records = n, retain_records = d\<rparr>" h es] by (simp add: scan_ready_def)
  qed
  then show ?thesis by blast
qed

lemma inspect_exit: "rn_exit (run_inspect parse files path) = 0 \<longleftrightarrow>
    rr_status (read_log parse (files path) default_read_options) = Complete"
  by (simp add: run_inspect_def exit_with_def Let_def)

lemma analyze_exit: "rn_exit (run_analyze p fixed parse files path) = 0 \<longleftrightarrow>
    rr_status (read_log parse (files path) default_read_options) = Complete"
  by (simp add: run_analyze_def exit_with_def Let_def analyze_log_def default_read_options_def analyze_records_report new_report_def)

lemma present_printing: "present printing_consumer rs out = (length rs, out @ concat (map print_replayed rs))"
  by (induction rs arbitrary: out) (simp_all add: printing_consumer_def call_consumer_def)

text \<open>Replaying a usable file from start to end, with and without printing.\<close>

lemma default_replay_ok: "replay_options_ok (rc_options default_replay_command)"
  by (simp add: replay_options_ok_def default_replay_command_def sample_speeds)

lemma replay_command_args:
  "parse_replay stod [] = Options default_replay_command"
  "parse_replay stod [''--print-events''] = Options (default_replay_command\<lparr>rc_print_events := True\<rparr>)"
  by (simp_all add: parse_replay_def print_events_flag_def is_help_def)

lemma replay_whole:
  fixes parse :: parser
  assumes stored: "files path = stored bs" "length bs < 2 ^ 64" and args: "parse_replay stod args = Options opts"
    and opts: "rc_options opts = rc_options default_replay_command"
  defines "usable \<equiv> rr_status (read_log parse (stored bs) default_read_options) = Complete"
    and "engine \<equiv> new_engine parse (stored bs) 1000000"
  shows "rn_exit (run_replay p stod show_double parse files (path # args)) = 0 \<longleftrightarrow> usable"
    and "usable \<Longrightarrow> rc_print_events opts \<Longrightarrow> \<exists>rest. rn_out (run_replay p stod show_double parse files (path # args)) =
      concat (map (print_replayed \<circ> record_at parse bs) (re_index engine)) @ rest"
proof -
  have good: "engine_good engine \<longleftrightarrow> usable"
    using read_status_retain [OF stored(2), of parse 1000000 True False]
    by (simp add: engine_def engine_good_def new_engine_def usable_def default_read_options_def Let_def)
  have all: "filter (in_window (rc_options opts)) xs = xs" for xs
    by (simp add: opts in_window_def default_replay_command_def)
  let ?consumer = "if rc_print_events opts then printing_consumer else None"
  let ?rs = "map (record_at parse bs) (re_index engine)"
  have pres: "present ?consumer ?rs [] = (length (re_index engine), if rc_print_events opts then concat (map print_replayed ?rs) else [])"
    by (simp add: present_printing present_None)
  have run: "replay p parse engine (stored bs) (rc_options opts) ?consumer [] =
      (summarise parse bs (re_index engine) (length (re_index engine)) (initial_result engine),
       if rc_print_events opts then concat (map print_replayed ?rs) else [],
       paced p (replay_speed (rc_options opts)) None (take (Suc (length (re_index engine))) (re_index engine)))" if usable
    using replay_unchanged [of parse bs 1000000 "rc_options opts" ?consumer "[]", unfolded all, folded engine_def, OF _ stored(2) _ pres]
      good that default_replay_ok by (simp add: opts)
  have bad: "rp_status (fst (replay p parse engine (stored bs) (rc_options opts) c [])) = ReplayLogError" if "\<not> usable" for c :: "string replay_consumer"
    using good that by (simp add: replay_def replay_stop_def)
  show "rn_exit (run_replay p stod show_double parse files (path # args)) = 0 \<longleftrightarrow> usable"
  proof (cases usable)
    case True
    then show ?thesis using run by (simp add: run_replay_def args stored(1) engine_def [symmetric] Let_def exit_with_def summarise_def)
  next
    case False
    then show ?thesis using bad [OF False, of ?consumer]
      by (simp add: run_replay_def args stored(1) engine_def [symmetric] Let_def exit_with_def split_beta)
  qed
  show "\<exists>rest. rn_out (run_replay p stod show_double parse files (path # args)) =
      concat (map (print_replayed \<circ> record_at parse bs) (re_index engine)) @ rest" if usable "rc_print_events opts"
    using run that by (simp add: run_replay_def args stored(1) engine_def [symmetric] Let_def exit_with_def)
qed

text \<open>
  C20: The commands on a file agree.  \<^verbatim>\<open>inspect\<close>, \<^verbatim>\<open>analyze\<close> and \<^verbatim>\<open>replay\<close> exit with 0 on the
  same files, and \<^verbatim>\<open>replay --print-events\<close> then prints every record of the index once, in its
  order.  If \<^verbatim>\<open>recover\<close> exits with 0, then afterwards all of them do, and another
  \<^verbatim>\<open>recover\<close> has nothing to do; otherwise it exits with 3, leaves the file as it was, and none of them can use it.
\<close>

theorem log_commands_agree:
  fixes parse :: parser
  assumes stored: "files path = stored bs" "length bs < 2 ^ 64"
  defines "recovered \<equiv> run_recover parse files True path"
  defines "after \<equiv> files(path := stored (snd recovered))"
  shows "(rn_exit (run_analyze p fixed parse files path) = 0 \<longleftrightarrow> rn_exit (run_inspect parse files path) = 0) \<and>
    (rn_exit (run_replay p stod show_double parse files [path]) = 0 \<longleftrightarrow> rn_exit (run_inspect parse files path) = 0) \<and>
    (rn_exit (run_inspect parse files path) = 0 \<longrightarrow>
       (\<exists>rest. rn_out (run_replay p stod show_double parse files [path, ''--print-events'']) =
          concat (map (print_replayed \<circ> record_at parse bs) (re_index (new_engine parse (stored bs) 1000000))) @ rest)) \<and>
    (if rn_exit (fst recovered) = 0
     then rn_exit (run_inspect parse after path) = 0 \<and> rn_exit (run_analyze p fixed parse after path) = 0 \<and>
       rn_exit (run_replay p stod show_double parse after [path]) = 0 \<and> snd (run_recover parse after True path) = snd recovered
     else rn_exit (fst recovered) = 3 \<and> snd recovered = bs \<and> rn_exit (run_inspect parse files path) = 3)"
proof -
  let ?read = "\<lambda>bs. rr_status (read_log parse (stored bs) default_read_options)"
  note safe = recovery_outcome [OF stored(2), of parse default_read_options]
  have recovered: "snd recovered = snd (recover_truncated_tail parse (stored bs) True default_read_options)"
      "rn_exit (fst recovered) = (if rc_succeeded (fst (recover_truncated_tail parse (stored bs) True default_read_options)) then 0 else 3)"
    by (simp_all add: recovered_def run_recover_def stored(1) exit_with_def split: prod.splits)
  have "length (snd recovered) \<le> length bs"
    using safe by (cases "rn_exit (fst recovered) = 0") (auto simp: recovered split: if_splits)
  then have after: "after path = stored (snd recovered)" "length (snd recovered) < 2 ^ 64"
    using stored(2) by (simp_all add: after_def)
  have again: "snd (run_recover parse after True path) = snd recovered" if "?read (snd recovered) = Complete"
    using that by (simp add: run_recover_def after(1) recover_truncated_tail_def Let_def stored_def)
  have inspect: "rn_exit (run_inspect parse files path) \<in> {0, 3}" by (simp add: run_inspect_def exit_with_def Let_def)
  show ?thesis
    using safe again inspect recovered replay_whole(1) [where files = after and path = path, OF after replay_command_args(1) refl]
      replay_whole(1) [where files = files and path = path, OF stored replay_command_args(1) refl]
      replay_whole(2) [where files = files and path = path, OF stored replay_command_args(2)]
    by (auto simp: inspect_exit analyze_exit stored(1) after(1))
qed

theorem log_commands_agree_witness:
  "rn_exit (run_inspect sample_parse (\<lambda>_. stored sample_log) ''run.tflog'') = 0 \<and>
   rn_exit (run_replay 64 (\<lambda>_. Inl ''stod'') (\<lambda>_. ''0'') sample_parse (\<lambda>_. stored sample_log) [''run.tflog'']) = 0"
  using log_commands_agree [of "\<lambda>_. stored sample_log" "''run.tflog''", OF refl sample_len,
      of 64 "\<lambda>_. ''0''" sample_parse "\<lambda>_. Inl ''stod''" "\<lambda>_. ''0''"]
    sample_log_complete by (simp add: inspect_exit default_read_options_def default_options_def)

end
