(* ===== verification/TF_Fuzz.thy ===== *)
theory TF_Fuzz
  imports TF_Writing
begin

text \<open>
  \<^verbatim>\<open>fuzz/recording_parser_fuzz.cpp\<close>: the fuzz target prepares a file from its input, either the raw bytes or a
  valid log with some bytes changed, and runs the reader and the recovery on it.  The answers of the
  operating system are a \<open>fuzz_env\<close>; the file is its bytes.  Shown is that the target can reach every
  file that is small enough, and that what it leaves after a recovery is a complete log.
\<close>

section \<open>Preparing a file\<close>

record fuzz_env =
  fe_raw_opens :: bool
  fe_raw_outcomes :: "io_outcome list"
  fe_log :: open_env
  fe_size_error :: bool
  fe_edit_opens :: bool
  fe_edit_ok :: "nat \<Rightarrow> bool"
  fe_edit_flushed :: bool
  fe_resizes :: bool

text \<open>\<^verbatim>\<open>close\<close> flushes what is buffered.  \<open>None\<close> is the result false.\<close>

definition write_raw :: "fuzz_env \<Rightarrow> bytes \<Rightarrow> bytes option" where
  "write_raw env data =
     (if \<not> fe_raw_opens env then None
      else let output = os_flush (os_write data (os_opened (fe_raw_outcomes env)))
           in if os_ok output then Some (os_data output) else None)"

definition fuzz_seed_event :: telemetry_event where
  "fuzz_seed_event = empty_event\<lparr>schema_version := kTelemetrySchemaVersion, producer_id := ''fuzz-seed'', sequence_number := 0,
     source_timestamp_ns := 1, source_clock := CLOCK_DOMAIN_UTC, ev_payload := Temperature \<lparr>degrees_celsius = 0x4045000000000000\<rparr>\<rparr>"

text \<open>The loop over pairs of an offset and a mask; \<open>i\<close> counts the pairs.\<close>

fun mutate_log :: "(nat \<Rightarrow> bool) \<Rightarrow> nat \<Rightarrow> nat \<Rightarrow> bytes \<Rightarrow> bytes \<Rightarrow> bytes option" where
  "mutate_log ok i file_size [] bs = Some bs"
| "mutate_log ok i file_size (offset # rest) bs =
     (let position = unat offset mod file_size;
          value_mask = (case rest of [] \<Rightarrow> 0xFF | m # _ \<Rightarrow> m)
      in if \<not> ok i then None
         else mutate_log ok (i + 1) file_size (drop 1 rest) (bs[position := xor (bs ! position) value_mask]))"

definition write_mutated_valid_log :: "(telemetry_event \<Rightarrow> bytes option) \<Rightarrow> fuzz_env \<Rightarrow> bytes \<Rightarrow> bytes option" where
  "write_mutated_valid_log serialize env mutations =
     (case append_event serialize fuzz_seed_event 2 (new_writer ''scratch'' \<lparr>flush_every_records = 1, created_unix_ns = 1\<rparr> (fe_log env)) of
        (appended, w) \<Rightarrow>
          if \<not> appended then None
          else (case flush w of (flushed, w) \<Rightarrow>
            if \<not> flushed then None
            else let bs = os_data (w_output (destroy_writer w))
                 in if fe_size_error env \<or> bs = [] then None
                    else if \<not> fe_edit_opens env then None
                    else (case mutate_log (fe_edit_ok env) 0 (length bs) mutations bs of
                            None \<Rightarrow> None
                          | Some bs \<Rightarrow> if fe_edit_flushed env then Some bs else None)))"

section \<open>The target\<close>

definition fuzz_read_options :: log_read_options where
  "fuzz_read_options = \<lparr>maximum_records = 4096, retain_records = False\<rparr>"

text \<open>The results of the reads and the file afterwards.\<close>

definition exercise_parser :: "parser \<Rightarrow> bool \<Rightarrow> bytes \<Rightarrow> log_read_result list \<times> bytes" where
  "exercise_parser parse resizes bs =
     (let result = read_log parse (stored bs) fuzz_read_options
      in if rr_status result = TruncatedTail
         then (case recover_truncated_tail parse (stored bs) resizes fuzz_read_options of (recovery, bs') \<Rightarrow>
                 if rc_succeeded recovery then ([result, read_log parse (stored bs') fuzz_read_options], bs')
                 else ([result], bs'))
         else ([result], bs))"

definition kMaximumFuzzInput :: nat where "kMaximumFuzzInput = 8 * 1024 * 1024"

text \<open>The prepared file, and what the parser made of it.\<close>

definition LLVMFuzzerTestOneInput ::
  "(telemetry_event \<Rightarrow> bytes option) \<Rightarrow> parser \<Rightarrow> fuzz_env \<Rightarrow> bytes \<Rightarrow> (bytes \<times> log_read_result list \<times> bytes) option" where
  "LLVMFuzzerTestOneInput serialize parse env data =
     (if length data > kMaximumFuzzInput then None
      else let use_raw_input = (data \<noteq> [] \<and> hd data AND 1 \<noteq> 0);
               payload = (if data \<noteq> [] then tl data else data)
           in map_option (\<lambda>bs. (bs, exercise_parser parse (fe_resizes env) bs))
                (if use_raw_input then write_raw env payload else write_mutated_valid_log serialize env payload))"

section \<open>What the target reaches\<close>

text \<open>The mutations that turn one byte string into another of the same length.\<close>

definition mutations_to :: "nat \<Rightarrow> bytes \<Rightarrow> bytes \<Rightarrow> bytes" where
  "mutations_to j bs goal = concat (map (\<lambda>k. [of_nat k, xor (bs ! k) (goal ! k)]) [j..<length bs])"

lemma mutate_log_reaches:
  assumes "length goal = length bs" and "length bs \<le> 256" and "\<forall>i. ok i" and "j \<le> length bs"
  shows "mutate_log ok i (length bs) (mutations_to j bs goal) (take j goal @ drop j bs) = Some goal"
  using assms(4)
proof (induction "length bs - j" arbitrary: i j)
  case 0
  then show ?case using assms(1) by (simp add: mutations_to_def)
next
  case (Suc d)
  then have j: "j < length bs" by simp
  then have "unat (of_nat j :: 8 word) = j" using assms(2) by (intro unat_of_nat_less) simp
  moreover have "(take j goal @ drop j bs)[j := xor (bs ! j) (xor (bs ! j) (goal ! j))] = take (Suc j) goal @ drop (Suc j) bs"
    using j assms(1) by (simp add: list_update_append take_Suc_conv_app_nth Cons_nth_drop_Suc [symmetric] xor.assoc [symmetric])
  moreover have "mutations_to j bs goal = of_nat j # xor (bs ! j) (goal ! j) # mutations_to (Suc j) bs goal"
    using j by (simp add: mutations_to_def upt_conv_Cons)
  moreover have "mutate_log ok (i + 1) (length bs) (mutations_to (Suc j) bs goal) (take (Suc j) goal @ drop (Suc j) bs) = Some goal"
    using Suc by (intro Suc.hyps(1)) simp_all
  ultimately show ?case using j assms(1,3) by (simp add: nth_append Let_def)
qed

lemma length_mutations: "length (mutations_to j bs goal) = 2 * (length bs - j)"
  by (simp add: mutations_to_def length_concat comp_def sum_list_triv)

lemma raw_input_reaches:
  assumes "length bs < kMaximumFuzzInput" and "fe_raw_opens env" and "fe_raw_outcomes env = []"
  shows "LLVMFuzzerTestOneInput serialize parse env (1 # bs) = Some (bs, exercise_parser parse (fe_resizes env) bs)"
  using assms by (simp add: LLVMFuzzerTestOneInput_def write_raw_def os_opened_def os_write_def os_flush_def)

text \<open>Every file of the size of the valid log is the mutated log of some input, as long as offsets of one byte reach its end.\<close>

lemma mutated_input_reaches:
  assumes valid: "write_mutated_valid_log serialize env [] = Some bs" and "length goal = length bs" and "length bs \<le> 256"
    and "\<forall>i. fe_edit_ok env i"
  shows "LLVMFuzzerTestOneInput serialize parse env (0 # mutations_to 0 bs goal) = Some (goal, exercise_parser parse (fe_resizes env) goal)"
proof -
  have "write_mutated_valid_log serialize env (mutations_to 0 bs goal) = Some goal"
    using valid mutate_log_reaches [OF assms(2-4), of 0 0]
    by (auto simp: write_mutated_valid_log_def Let_def split: prod.splits if_splits)
  moreover have "length (mutations_to 0 bs goal) < kMaximumFuzzInput"
    using assms(3) by (simp add: length_mutations kMaximumFuzzInput_def)
  ultimately show ?thesis by (simp add: LLVMFuzzerTestOneInput_def)
qed

text \<open>A second read only follows a successful recovery, and finds a complete log.\<close>

lemma exercise_parser_sound:
  assumes "length bs < 2 ^ 64" and "exercise_parser parse True bs = (results, bs')"
  shows "\<exists>r. r = read_log parse (stored bs) fuzz_read_options \<and> (if rr_status r = TruncatedTail
      then \<exists>r'. results = [r, r'] \<and> rr_status r' = Complete \<and> rr_index r' = rr_index r
      else results = [r] \<and> bs' = bs)"
  using recovery_outcome [OF assms(1), of parse fuzz_read_options] assms(2)
  by (auto simp: exercise_parser_def Let_def split: prod.splits if_splits)

end
