(* ===== verification/Spec2Isabelle.thy ===== *)
theory Spec2Isabelle
  imports TF_Pipeline TF_Replay TF_Generation TF_Publishing TF_Analysis TF_CommandLine TF_Fuzz
begin

text \<open>
  TraceForge: a verification library.

  TraceForge records telemetry of many sensors and replays it.  A generator makes a deterministic workload
  and a publisher streams it to the collector; the collector validates each stream and puts the
  events into a bounded queue; one consumer thread takes them out and appends them to a log; the
  log can be inspected, repaired, analysed and replayed.  The library models the C++ implementation of
  all of these parts, from the bytes on the disk to the exit codes of the commands.

  \<^bold>\<open>Parts and theories.\<close>  A theory with a model opens with the source file it translates; the theories
  of properties build on it.

  \<^item> \<open>TF_Prelude\<close>: integer types, rule collections, generic lemmas.  \<open>TF_Float\<close>, \<open>TF_Double\<close>, \<open>TF_Rounding\<close>:
    doubles by bit pattern, exact literals, and rounding to a given precision.  \<open>TF_Stream\<close>: C++ file
    streams that buffer what is written until a flush and may fail at any operation.  \<open>TF_Ordered_Map\<close>: \<^verbatim>\<open>std::map\<close>, as the locale \<open>std_map\<close>.
  \<^item> \<open>TF_Event\<close> (\<^verbatim>\<open>proto/.../telemetry.proto\<close>) and \<open>TF_Validation\<close> (\<^verbatim>\<open>src/telemetry/validation.cpp\<close>):
    messages and the stream validator.  A stream passes exactly when every event is well formed, one
    producer sends it and sequence numbers increase; the summary counts exactly.
  \<^item> \<open>TF_Bytes\<close>, \<open>TF_Checksum\<close>, \<open>TF_Format\<close>, \<open>TF_Writer\<close>, \<open>TF_Reader\<close> (\<^verbatim>\<open>src/recording/log.cpp\<close>,
    \<^verbatim>\<open>log_consumer.cpp\<close>): byte order, CRC32C, headers, \<^verbatim>\<open>LogWriter\<close>, \<^verbatim>\<open>read_log\<close>,
    \<^verbatim>\<open>recover_truncated_tail\<close>.  \<open>TF_Recording\<close>, \<open>TF_Recovery\<close>, \<open>TF_Writing\<close>: which files are complete, that
    every damaged byte is found, that recovery is safe, what a flushed file holds, and what survives
    faults and crashes.
  \<^item> \<open>TF_Queue\<close> (\<^verbatim>\<open>include/traceforge/concurrency/bounded_queue.hpp\<close>), \<open>TF_Sink\<close>
    (\<^verbatim>\<open>src/telemetry/queued_sink.cpp\<close>), \<open>TF_Collector\<close> (\<^verbatim>\<open>src/telemetry/collector_service.cpp\<close>):
    the queue as atomic operations under its mutex, the sink with its threads as a step relation, the
    reactor of a stream.  Invariants hold in every interleaving; \<open>TF_Pipeline\<close> puts the sink and the
    log writer together: nothing accepted is lost by a shutdown with a successful flush, and a crash
    loses at most what was not flushed.
  \<^item> \<open>TF_Replay\<close> (\<^verbatim>\<open>src/replay/replay.cpp\<close>): index, binary search, replay loop, hash and pacing.  Replay
    presents the window of the sorted index; speed does not matter for the result; every wait is the
    recorded time divided by the speed; adjacent windows compose; a log changed in between is detected.
  \<^item> \<open>TF_Random\<close>, \<open>TF_Generator\<close> (\<^verbatim>\<open>src/generator/workload_generator.cpp\<close>), \<open>TF_Faults\<close>, \<open>TF_Generation\<close>: random
    numbers by rejection sampling, schedule, payloads, fault injection.  Sampling has no bias; generation
    returns, its arithmetic does not overflow, its events are valid, and the drops, duplicates and
    swaps are those it counts.
  \<^item> \<open>TF_Publisher\<close> (\<^verbatim>\<open>src/generator/workload_publisher.cpp\<close>), \<open>TF_Publishing\<close>: publishing against the
    modelled collector; success in a report means delivery.
  \<^item> \<open>TF_Analyzer\<close> (\<^verbatim>\<open>src/analysis/analyzer.cpp\<close>), \<open>TF_Percentile\<close>, \<open>TF_Timing\<close>, \<open>TF_Analysis\<close>: statistics of a
    log with every rounding of the code; the report accounts for every record, the floating-point
    percentile is the nearest-rank percentile, and median, jitter, rate and duration are accurate.
  \<^item> \<open>TF_Cli\<close>, \<open>TF_Commands\<close> (\<^verbatim>\<open>app/main.cpp\<close>, \<^verbatim>\<open>src/about.cpp\<close>), \<open>TF_CommandLine\<close>: option parsing, output and
    exit codes of all commands.
  \<^item> \<open>TF_Fuzz\<close> (\<^verbatim>\<open>fuzz/recording_parser_fuzz.cpp\<close>): the fuzz target, and which files it reaches.

  \<^bold>\<open>Correspondence.\<close>  Definitions have the names of the functions they translate, prefixed where
  two of them share one.  Objects are records that operations take and return; unsigned
  integers are words of their width, so sums and differences wrap as they do in C++; errors are values of
  a sum or of the status enumeration of the source; a loop is a recursion, and each is shown to end.
  Lengths of containers are natural numbers.  Locales are the interfaces between parts: \<open>byte_field\<close>,
  \<open>byte_fold\<close>, \<open>bounded_fifo\<close>, \<open>counting_consumer\<close>, \<open>telemetry_sink\<close>, \<open>std_map\<close>; each is interpreted
  on the definitions of the code.

  \<^bold>\<open>Bounds.\<close>  There is no fuel.  \<open>read_records\<close> ends since every record moves the offset, which never
  passes the file size.  Rejection sampling in the generator may run on for a bad engine and is a
  partial function; it returns for every engine that keeps producing large values (\<open>lively\<close>).  Properties of
  files assume fewer than \<open>2 ^ 64\<close> bytes, those of counters fewer than \<open>2 ^ 64\<close> events.

  \<^bold>\<open>Parameters.\<close>  The Protobuf runtime (\<open>serialize\<close>, \<open>parse\<close>; where it matters with the hypothesis that
  parsing inverts serializing), the gRPC runtime (which callbacks come, which writes succeed), the
  operating system (outcomes of file operations, clocks), \<^verbatim>\<open>std::stod\<close>, the printed text of
  floating-point numbers, and the precision of \<^verbatim>\<open>long double\<close> (the accuracy of the timing figures and
  of the pacing is shown for at least 64 bits).  The engine of the generator is a parameter too: \<open>lively\<close> is not
  shown of \<open>mt19937_64\<close>, whose long-run behaviour rests on the theory of its recurrence.

  \<^bold>\<open>Not modelled.\<close>  The Protobuf wire format and network I/O, which are not in the repository;
  that sleeping takes time, and the steady clock it is measured on; signal handlers, whose effect is the end of the run; the benchmarks and the
  tests, which drive the modelled code; the Flutter client in \<^verbatim>\<open>clients/\<close>, which is not C++.
\<close>

end
